(* ===== verification/Prelude.thy ===== *)
theory Prelude
  imports Main "HOL-Library.Multiset" "HOL-Library.Word"
begin

text \<open>
  The vocabulary the components share: Go's fallible results and run-time panics as values,
  byte strings, decimal printing of integers, swap-removal from a slice, and the generic list
  lemmas on which the component proofs rest.  Two collections of rewrite rules are filled by
  the components: \<open>wire_simps\<close> (byte-level facts) and \<open>model_simps\<close> (the equations of the
  record operations).
\<close>

named_theorems wire_simps "facts on byte strings and frames"
named_theorems model_simps "equations of the model's operations on its records"

section \<open>Results, errors, panics\<close>

text \<open>
  A Go function that returns \<open>(T, error)\<close> is a value of a sum type: \<open>Inl\<close> carries the text of
  the error, \<open>Inr\<close> the value.  A run-time panic (index out of range, nil dereference, failed
  type assertion) ends the program; it is a value of its own.
\<close>

type_synonym 'a result = "string + 'a"

datatype panic = IndexOutOfRange | NilDereference | FailedTypeAssertion

text \<open>What a call does where the kind of panic does not matter.\<close>

datatype 'a outcome = Panics | Returns 'a

type_synonym byte = "8 word"

definition bytes_of :: "string \<Rightarrow> byte list" where
  "bytes_of s = map (\<lambda>c. word_of_nat (of_char c)) s"

definition string_of :: "byte list \<Rightarrow> string" where
  "string_of bs = map (\<lambda>b. char_of (unat b)) bs"

section \<open>Decimal printing\<close>

fun show_nat :: "nat \<Rightarrow> string" where
  "show_nat n = (if n < 10 then [char_of (48 + n)]
                 else show_nat (n div 10) @ [char_of (48 + n mod 10)])"

declare show_nat.simps [simp del]

definition show_int :: "int \<Rightarrow> string" where
  "show_int i = (if i < 0 then ''-'' @ show_nat (nat (- i)) else show_nat (nat i))"

section \<open>Slices\<close>

text \<open>
  The position of the first element that satisfies a predicate, as the search loops of the
  code compute it: they start from -1 and break at the first hit.
\<close>

fun find_index :: "('a \<Rightarrow> bool) \<Rightarrow> 'a list \<Rightarrow> nat option" where
  "find_index P [] = None"
| "find_index P (x # xs) = (if P x then Some 0 else map_option Suc (find_index P xs))"

text \<open>
  \<open>s[len(s)-1], s[i] = s[i], s[len(s)-1]\<close>, a parallel assignment on the slice.
\<close>

definition swap_last :: "nat \<Rightarrow> 'a list \<Rightarrow> 'a list" where
  "swap_last i xs = xs[length xs - 1 := xs ! i, i := xs ! (length xs - 1)]"

text \<open>Removal by swapping with the last element and shortening the slice.\<close>

definition swap_remove :: "nat \<Rightarrow> 'a list \<Rightarrow> 'a list" where
  "swap_remove i xs = butlast (swap_last i xs)"

section \<open>Lemmas\<close>

lemma string_of_bytes_of [simp]: "string_of (bytes_of s) = s"
proof (induction s)
  case Nil
  show ?case by (simp add: bytes_of_def string_of_def)
next
  case (Cons c s)
  have "of_char c < (256::nat)" by simp
  then have "unat (word_of_nat (of_char c) :: byte) = of_char c"
    by (simp add: unat_of_nat take_bit_eq_mod)
  with Cons show ?case by (simp add: bytes_of_def string_of_def)
qed

lemma bytes_of_string_of [simp]: "bytes_of (string_of bs) = bs"
proof (induction bs)
  case Nil
  show ?case by (simp add: bytes_of_def string_of_def)
next
  case (Cons b bs)
  have "unat b < 256" using unsigned_less [of b, where ?'a = nat] by simp
  then have "word_of_nat (of_char (char_of (unat b))) = b"
    by (simp add: of_char_of)
  with Cons show ?case by (simp add: bytes_of_def string_of_def)
qed

lemma length_bytes_of [simp]: "length (bytes_of s) = length s"
  by (simp add: bytes_of_def)

lemma bytes_of_append [simp]: "bytes_of (s @ t) = bytes_of s @ bytes_of t"
  by (simp add: bytes_of_def)

lemma find_index_None: "find_index P xs = None \<longleftrightarrow> (\<forall>x \<in> set xs. \<not> P x)"
  by (induction xs) auto

lemma find_index_Some:
  "find_index P xs = Some i \<Longrightarrow> i < length xs \<and> P (xs ! i) \<and> (\<forall>j < i. \<not> P (xs ! j))"
proof (induction xs arbitrary: i)
  case (Cons x xs)
  show ?case
  proof (cases "P x")
    case True
    with Cons.prems show ?thesis by simp
  next
    case False
    with Cons.prems obtain k where k: "find_index P xs = Some k" "i = Suc k" by auto
    from Cons.IH [OF k(1)] False k(2) show ?thesis
      by (auto simp: nth_Cons split: nat.splits)
  qed
qed simp

lemma length_swap_last [simp]: "length (swap_last i xs) = length xs"
  by (simp add: swap_last_def)

lemma length_swap_remove [simp]: "length (swap_remove i xs) = length xs - 1"
  by (simp add: swap_remove_def)

lemma mset_swap_last:
  assumes "i < length xs"
  shows "mset (swap_last i xs) = mset xs"
proof -
  have "length xs - 1 < length xs" using assms by simp
  with assms show ?thesis by (simp only: swap_last_def mset_swap)
qed

lemma swap_last_nonempty: "i < length xs \<Longrightarrow> swap_last i xs \<noteq> []"
  by (metis length_swap_last list.size(3) less_nat_zero_code)

lemma last_swap_last:
  assumes i: "i < length xs"
  shows "last (swap_last i xs) = xs ! i"
proof -
  have "last (swap_last i xs) = swap_last i xs ! (length xs - 1)"
    using swap_last_nonempty [OF i] by (simp add: last_conv_nth)
  also have "\<dots> = xs ! i"
    using i by (cases "i = length xs - 1") (auto simp: swap_last_def nth_list_update)
  finally show ?thesis .
qed

lemma mset_swap_remove:
  assumes i: "i < length xs"
  shows "mset (xs ! i # swap_remove i xs) = mset xs"
proof -
  have "mset (swap_last i xs) = mset (butlast (swap_last i xs) @ [last (swap_last i xs)])"
    using swap_last_nonempty [OF i] by simp
  then show ?thesis
    using i by (simp add: swap_remove_def mset_swap_last last_swap_last)
qed

lemma set_swap_remove_subset: "i < length xs \<Longrightarrow> set (swap_remove i xs) \<subseteq> set xs"
  by (metis mset_eq_setD mset_swap_remove set_subset_Cons)

lemma distinct_swap_remove: "i < length xs \<Longrightarrow> distinct xs \<Longrightarrow> distinct (swap_remove i xs)"
  by (metis distinct.simps(2) mset_eq_imp_distinct_iff mset_swap_remove)

lemma set_swap_remove:
  assumes "i < length xs" "distinct xs"
  shows "set (swap_remove i xs) = set xs - {xs ! i}"
proof -
  note m = mset_swap_remove [OF assms(1)]
  have "distinct (xs ! i # swap_remove i xs)"
    using mset_eq_imp_distinct_iff [OF m] assms(2) by simp
  moreover have "set (xs ! i # swap_remove i xs) = set xs"
    by (rule mset_eq_setD [OF m])
  ultimately show ?thesis by auto
qed

section \<open>Interfaces: what runs step by step\<close>

text \<open>
  A machine: the states reached from a start by steps.  What holds at the start and is kept by every
  step from a reached state holds in every reached state.
\<close>

locale machine =
  fixes reach :: "'s \<Rightarrow> bool" and start :: 's and step :: "'s \<Rightarrow> 's \<Rightarrow> bool"
  assumes reached: "reach s \<longleftrightarrow> step\<^sup>*\<^sup>* start s"
begin

lemma reach_start: "reach start"
  by (simp add: reached)

lemma reach_more: "reach s \<Longrightarrow> step\<^sup>*\<^sup>* s s' \<Longrightarrow> reach s'"
  by (simp add: reached)

lemma invariant:
  assumes "reach s" "P start" "\<And>s s'. reach s \<Longrightarrow> P s \<Longrightarrow> step s s' \<Longrightarrow> P s'"
  shows "P s"
proof -
  from assms(1) have "step\<^sup>*\<^sup>* start s" by (simp add: reached)
  then show ?thesis by (induction rule: rtranclp_induct) (auto simp: assms(2) reached intro: assms(3))
qed

end

text \<open>
  A standstill: states which every step leads into each other, without a change of what is observed.
\<close>

locale standstill =
  fixes step :: "'s \<Rightarrow> 's \<Rightarrow> bool" and stuck :: "'s \<Rightarrow> bool" and observed :: "'s \<Rightarrow> 'o"
  assumes stays: "step s s' \<Longrightarrow> stuck s \<Longrightarrow> stuck s' \<and> observed s' = observed s"
begin

lemma for_ever: "step\<^sup>*\<^sup>* s s' \<Longrightarrow> stuck s \<Longrightarrow> stuck s' \<and> observed s' = observed s"
  by (induction rule: rtranclp_induct) (auto dest: stays)

end

end
