(* ===== verification/Go_Text.thy ===== *)
theory Go_Text
  imports Prelude
begin

text \<open>
  What the program uses of Go's text packages: UTF-8 decoding of byte strings into runes
  (package unicode/utf8), \<open>strings.TrimSpace\<close>, \<open>strings.HasPrefix\<close>, \<open>strings.TrimPrefix\<close>,
  \<open>strings.Count\<close> and \<open>strings.Join\<close>, and the matching of anchored regular expressions with
  named groups (package regexp, leftmost-first semantics).  A Go string is a sequence of bytes,
  which is what \<open>string\<close> (a list of 8-bit characters) is.
\<close>

section \<open>UTF-8\<close>

type_synonym rune = nat

definition RuneError :: rune where
  "RuneError = 65533"

text \<open>
  The accepted first bytes of a multi-byte sequence: its size and the range of its second byte
  (which excludes overlong forms, surrogates and values above 10FFFF).
\<close>

definition first_byte :: "nat \<Rightarrow> (nat \<times> nat \<times> nat) option" where
  "first_byte b =
     (if 194 \<le> b \<and> b \<le> 223 then Some (2, 128, 191)
      else if b = 224 then Some (3, 160, 191)
      else if b = 237 then Some (3, 128, 159)
      else if 225 \<le> b \<and> b \<le> 239 then Some (3, 128, 191)
      else if b = 240 then Some (4, 144, 191)
      else if 241 \<le> b \<and> b \<le> 243 then Some (4, 128, 191)
      else if b = 244 then Some (4, 128, 143)
      else None)"

definition continuation :: "nat \<Rightarrow> bool" where
  "continuation b \<longleftrightarrow> 128 \<le> b \<and> b \<le> 191"

text \<open>
  \<open>utf8.DecodeRune\<close> on a non-empty list of byte values: the rune and its width; an invalid
  sequence is \<open>RuneError\<close> of width 1.
\<close>

definition DecodeRune :: "nat list \<Rightarrow> rune \<times> nat" where
  "DecodeRune bs = (case bs of
      [] \<Rightarrow> (RuneError, 0)
    | b0 # r0 \<Rightarrow>
        if b0 < 128 then (b0, 1)
        else (case first_byte b0 of
            None \<Rightarrow> (RuneError, 1)
          | Some (sz, lo, hi) \<Rightarrow> (case r0 of
                [] \<Rightarrow> (RuneError, 1)
              | b1 # r1 \<Rightarrow>
                  if \<not> (lo \<le> b1 \<and> b1 \<le> hi) then (RuneError, 1)
                  else if sz = 2 then ((b0 mod 32) * 64 + b1 mod 64, 2)
                  else (case r1 of
                      [] \<Rightarrow> (RuneError, 1)
                    | b2 # r2 \<Rightarrow>
                        if \<not> continuation b2 then (RuneError, 1)
                        else if sz = 3
                          then ((b0 mod 16) * 4096 + (b1 mod 64) * 64 + b2 mod 64, 3)
                        else (case r2 of
                            [] \<Rightarrow> (RuneError, 1)
                          | b3 # _ \<Rightarrow>
                              if \<not> continuation b3 then (RuneError, 1)
                              else ((b0 mod 8) * 262144 + (b1 mod 64) * 4096
                                      + (b2 mod 64) * 64 + b3 mod 64, 4))))))"

text \<open>A text is the list of its runes, each with the bytes it was decoded from.\<close>

type_synonym rtext = "(rune \<times> string) list"

lemma DecodeRune_width:
  "bs \<noteq> [] \<Longrightarrow> 1 \<le> snd (DecodeRune bs) \<and> snd (DecodeRune bs) \<le> length bs"
  by (auto simp: DecodeRune_def split: list.splits option.splits)

function runes :: "string \<Rightarrow> rtext" where
  "runes s = (if s = [] then []
     else let (r, w) = DecodeRune (map of_char s) in (r, take w s) # runes (drop w s))"
  by pat_completeness auto
termination
proof (relation "measure length", goal_cases)
  case (2 s p r w)
  then show ?case
    using DecodeRune_width [of "map of_char s"] by (auto simp: prod_eq_iff)
qed simp

declare runes.simps [simp del]

definition text_bytes :: "rtext \<Rightarrow> string" where
  "text_bytes t = concat (map snd t)"

text \<open>\<open>utf8.EncodeRune\<close>; a surrogate or a value above 10FFFF is written as \<open>RuneError\<close>.\<close>

definition EncodeRune :: "rune \<Rightarrow> string" where
  "EncodeRune r0 =
     (let r = (if 1114111 < r0 \<or> (55296 \<le> r0 \<and> r0 \<le> 57343) then RuneError else r0) in
      if r < 128 then [char_of r]
      else if r < 2048 then [char_of (192 + r div 64), char_of (128 + r mod 64)]
      else if r < 65536 then
        [char_of (224 + r div 4096), char_of (128 + r div 64 mod 64), char_of (128 + r mod 64)]
      else
        [char_of (240 + r div 262144), char_of (128 + r div 4096 mod 64),
         char_of (128 + r div 64 mod 64), char_of (128 + r mod 64)])"

section \<open>Package strings\<close>

definition IsSpace :: "rune \<Rightarrow> bool" where
  "IsSpace r \<longleftrightarrow> r \<in> {9, 10, 11, 12, 13, 32, 133, 160, 5760, 8232, 8233, 8239, 8287, 12288}
     \<or> (8192 \<le> r \<and> r \<le> 8202)"

definition TrimSpace :: "string \<Rightarrow> string" where
  "TrimSpace s = text_bytes (rev (dropWhile (IsSpace \<circ> fst) (rev
     (dropWhile (IsSpace \<circ> fst) (runes s)))))"

fun HasPrefix :: "string \<Rightarrow> string \<Rightarrow> bool" where
  "HasPrefix s [] = True"
| "HasPrefix [] (p # ps) = False"
| "HasPrefix (c # s) (p # ps) = (c = p \<and> HasPrefix s ps)"

definition TrimPrefix :: "string \<Rightarrow> string \<Rightarrow> string" where
  "TrimPrefix s p = (if HasPrefix s p then drop (length p) s else s)"

definition Count_char :: "string \<Rightarrow> char \<Rightarrow> nat" where
  "Count_char s c = length (filter (\<lambda>x. x = c) s)"

fun Join :: "string list \<Rightarrow> string \<Rightarrow> string" where
  "Join [] sep = []"
| "Join [s] sep = s"
| "Join (s # t # ss) sep = s @ sep @ Join (t # ss) sep"

section \<open>Package regexp\<close>

text \<open>
  The operators that occur in the program's expressions: one rune of a class, a greedy
  repetition of a class with a lower and an optional upper bound, sequence, alternative, and a
  named group.  Every expression of the program is anchored at both ends (\<open>\A\<close> and \<open>\z\<close>).
\<close>

datatype rune_class = Space | NonSpace | Digit | Rune rune

datatype regex =
    REmpty
  | RClass rune_class
  | RRep rune_class nat "nat option"
  | RSeq regex regex
  | RAlt regex regex
  | RGroup string regex

fun in_class :: "rune_class \<Rightarrow> rune \<Rightarrow> bool" where
  "in_class Space r = (r \<in> {9, 10, 12, 13, 32})"
| "in_class NonSpace r = (r \<notin> {9, 10, 12, 13, 32})"
| "in_class Digit r = (48 \<le> r \<and> r \<le> 57)"
| "in_class (Rune x) r = (r = x)"

definition class_run :: "rune_class \<Rightarrow> rtext \<Rightarrow> nat" where
  "class_run c t = length (takeWhile (in_class c \<circ> fst) t)"

text \<open>
  All the ways an expression can match a prefix of a text, in the order in which a backtracking
  search with greedy repetitions tries them: what is consumed, what is left, and the groups.
\<close>

fun matches :: "regex \<Rightarrow> rtext \<Rightarrow> (rtext \<times> rtext \<times> (string \<times> string) list) list" where
  "matches REmpty t = [([], t, [])]"
| "matches (RClass c) t = (case t of [] \<Rightarrow> []
      | x # xs \<Rightarrow> if in_class c (fst x) then [([x], xs, [])] else [])"
| "matches (RRep c m n) t =
     (let k = (case n of None \<Rightarrow> class_run c t | Some u \<Rightarrow> min u (class_run c t))
      in map (\<lambda>j. (take j t, drop j t, [])) (rev [m..<Suc k]))"
| "matches (RSeq a b) t =
     concat (map (\<lambda>(p, r, g). map (\<lambda>(p', r', g'). (p @ p', r', g @ g')) (matches b r))
       (matches a t))"
| "matches (RAlt a b) t = matches a t @ matches b t"
| "matches (RGroup n a) t = map (\<lambda>(p, r, g). (p, r, (n, text_bytes p) # g)) (matches a t)"

text \<open>
  \<open>FindStringSubmatch\<close> of an expression anchored at both ends: the groups of the first match
  in search order that consumes the whole text.
\<close>

definition FindSubmatch :: "regex \<Rightarrow> string \<Rightarrow> (string \<times> string) list option" where
  "FindSubmatch e s = (case filter (\<lambda>(p, r, g). r = []) (matches e (runes s)) of
      [] \<Rightarrow> None | (p, r, g) # _ \<Rightarrow> Some g)"

definition MatchString :: "regex \<Rightarrow> string \<Rightarrow> bool" where
  "MatchString e s \<longleftrightarrow> FindSubmatch e s \<noteq> None"

text \<open>A literal string of ASCII characters, as a sequence of one-rune classes.\<close>

fun lit :: "string \<Rightarrow> regex" where
  "lit [] = REmpty"
| "lit (c # cs) = RSeq (RClass (Rune (of_char c))) (lit cs)"

section \<open>Lemmas\<close>

lemma runes_Nil [simp]: "runes [] = []"
  by (simp add: runes.simps)

lemma runes_ascii [simp]:
  "of_char c < (128::nat) \<Longrightarrow> runes (c # s) = (of_char c, [c]) # runes s"
  by (subst runes.simps) (simp add: DecodeRune_def)

lemma runes_nonempty: "runes s = [] \<longleftrightarrow> s = []"
  by (subst runes.simps) (auto simp: Let_def split: prod.splits)

text \<open>Decoding loses no byte.\<close>

lemma text_bytes_runes [simp]: "text_bytes (runes s) = s"
proof (induction s rule: runes.induct)
  case (1 s)
  show ?case
  proof (cases "s = []")
    case False
    obtain r w where d: "DecodeRune (map of_char s) = (r, w)" by fastforce
    from 1 [OF False] d have "text_bytes (runes (drop w s)) = drop w s" by simp
    with False d show ?thesis by (subst runes.simps) (simp add: text_bytes_def)
  qed (simp add: text_bytes_def)
qed

lemma text_bytes_append [simp]: "text_bytes (p @ r) = text_bytes p @ text_bytes r"
  by (simp add: text_bytes_def)

text \<open>A match splits the text it is tried on.\<close>

lemma matches_split: "(p, r, g) \<in> set (matches e t) \<Longrightarrow> p @ r = t"
proof (induction e arbitrary: t p r g)
  case (RSeq a b)
  then obtain p1 r1 g1 p2 g2 where
    "(p1, r1, g1) \<in> set (matches a t)" "(p2, r, g2) \<in> set (matches b r1)" "p = p1 @ p2"
    by auto
  with RSeq.IH show ?case by force
next
  case (RGroup n a)
  then show ?case by auto
qed (auto split: list.splits if_splits option.splits simp: Let_def)

lemma FindSubmatch_Some:
  "FindSubmatch e s = Some g \<Longrightarrow> (runes s, [], g) \<in> set (matches e (runes s))"
proof -
  assume "FindSubmatch e s = Some g"
  then obtain p r xs where "filter (\<lambda>(p, r, g). r = []) (matches e (runes s)) = (p, r, g) # xs"
    by (auto simp: FindSubmatch_def split: list.splits)
  then have "(p, r, g) \<in> set (filter (\<lambda>(p, r, g). r = []) (matches e (runes s)))" by simp
  then have m: "(p, r, g) \<in> set (matches e (runes s))" "r = []" by auto
  with matches_split [OF m(1)] show ?thesis by simp
qed

lemma FindSubmatch_None:
  "FindSubmatch e s = None \<longleftrightarrow> (\<forall>p g. (p, [], g) \<notin> set (matches e (runes s)))"
proof -
  have "FindSubmatch e s = None \<longleftrightarrow> filter (\<lambda>(p, r, g). r = []) (matches e (runes s)) = []"
    by (auto simp: FindSubmatch_def split: list.splits)
  then show ?thesis by (auto simp: filter_empty_conv)
qed

lemma MatchString_iff:
  "MatchString e s \<longleftrightarrow> (\<exists>p g. (p, [], g) \<in> set (matches e (runes s)))"
  by (simp add: MatchString_def FindSubmatch_None)

lemma class_run_all:
  "class_run c t = length t \<longleftrightarrow> (\<forall>x \<in> set t. in_class c (fst x))"
proof -
  have "length (takeWhile P xs) = length xs \<longleftrightarrow> takeWhile P xs = xs" for P and xs :: rtext
    by (metis append_eq_conv_conj takeWhile_dropWhile_id take_all_iff order_refl)
  then show ?thesis by (auto simp: class_run_def takeWhile_eq_all_conv)
qed

lemma class_run_le: "class_run c t \<le> length t"
  by (simp add: class_run_def length_takeWhile_le)

definition rep_limit :: "rune_class \<Rightarrow> nat option \<Rightarrow> rtext \<Rightarrow> nat" where
  "rep_limit c n t = (case n of None \<Rightarrow> class_run c t | Some u \<Rightarrow> min u (class_run c t))"

lemma matches_rep:
  "(p, r, g) \<in> set (matches (RRep c m n) t) \<longleftrightarrow>
     g = [] \<and> (\<exists>j. m \<le> j \<and> j \<le> rep_limit c n t \<and> p = take j t \<and> r = drop j t)"
  by (auto simp: Let_def image_iff rep_limit_def less_Suc_eq_le simp del: upt_Suc)

text \<open>A bounded repetition of a class matches the texts of that length whose runes are in it.\<close>

lemma MatchString_rep:
  "MatchString (RRep c m (Some n)) s \<longleftrightarrow>
     m \<le> length (runes s) \<and> length (runes s) \<le> n \<and> (\<forall>x \<in> set (runes s). in_class c (fst x))"
proof -
  have "MatchString (RRep c m (Some n)) s \<longleftrightarrow>
      (\<exists>j. m \<le> j \<and> j \<le> min n (class_run c (runes s)) \<and> length (runes s) \<le> j)"
    by (auto simp: MatchString_iff matches_rep rep_limit_def simp del: matches.simps)
  also have "\<dots> \<longleftrightarrow> m \<le> length (runes s) \<and> length (runes s) \<le> n
      \<and> class_run c (runes s) = length (runes s)"
    using class_run_le [of c "runes s"] by auto
  finally show ?thesis by (simp add: class_run_all)
qed

text \<open>
  Membership in the list of matches, operator by operator: which splits of the text an
  expression admits, whatever the order in which they are tried.
\<close>

lemma matches_seq:
  "(p, r, g) \<in> set (matches (RSeq a b) t) \<longleftrightarrow>
     (\<exists>p1 r1 g1 p2 g2. (p1, r1, g1) \<in> set (matches a t) \<and> (p2, r, g2) \<in> set (matches b r1)
        \<and> p = p1 @ p2 \<and> g = g1 @ g2)"
  by (auto simp: image_iff) (metis (mono_tags, lifting) case_prod_conv)+

lemma matches_seqI:
  "(p1, r1, g1) \<in> set (matches a t) \<Longrightarrow> (p2, r, g2) \<in> set (matches b r1)
     \<Longrightarrow> (p1 @ p2, r, g1 @ g2) \<in> set (matches (RSeq a b) t)"
  unfolding matches_seq by blast

lemma matches_group:
  "(p, r, g) \<in> set (matches (RGroup n a) t) \<longleftrightarrow>
     (\<exists>g'. (p, r, g') \<in> set (matches a t) \<and> g = (n, text_bytes p) # g')"
  by force

lemma matches_class:
  "(p, r, g) \<in> set (matches (RClass c) t) \<longleftrightarrow>
     (\<exists>x. t = x # r \<and> p = [x] \<and> g = [] \<and> in_class c (fst x))"
  by (auto split: list.splits)

lemma matches_alt:
  "x \<in> set (matches (RAlt a b) t) \<longleftrightarrow> x \<in> set (matches a t) \<or> x \<in> set (matches b t)"
  by simp

lemma class_run_append:
  "\<forall>x \<in> set p. in_class c (fst x) \<Longrightarrow> length p \<le> class_run c (p @ r)"
  by (simp add: class_run_def takeWhile_append2)

lemma matches_plus:
  "(p, r, g) \<in> set (matches (RRep c m None) t) \<longleftrightarrow>
     g = [] \<and> t = p @ r \<and> m \<le> length p \<and> (\<forall>x \<in> set p. in_class c (fst x))"
proof -
  have "in_class c (fst x)" if "x \<in> set (take k t)" "k \<le> class_run c t" for k x
  proof -
    have "take k t = take k (takeWhile (in_class c \<circ> fst) t)"
      using that(2) unfolding class_run_def by (metis min.absorb1 takeWhile_eq_take take_take)
    with that(1) have "x \<in> set (takeWhile (in_class c \<circ> fst) t)" by (metis in_set_takeD)
    then show ?thesis by (metis comp_apply set_takeWhileD)
  qed
  then show ?thesis
    unfolding matches_rep rep_limit_def
    using class_run_append class_run_le [of c t]
    by auto
qed

lemma matches_lit:
  "(p, r, g) \<in> set (matches (lit w) t) \<longleftrightarrow> t = p @ r \<and> map fst p = map of_char w \<and> g = []"
proof (induction w arbitrary: t p g)
  case (Cons c w)
  show ?case
    unfolding lit.simps matches_seq matches_class Cons.IH
    by (auto simp: map_eq_Cons_conv)
qed auto

text \<open>ASCII text is decoded character by character.\<close>

lemma runes_map_ascii:
  "\<forall>c \<in> set s. of_char c < (128::nat) \<Longrightarrow> runes s = map (\<lambda>c. (of_char c, [c])) s"
  by (induction s) auto

lemma two_byte_rune: "first_byte b0 = Some (2, lo, hi) \<Longrightarrow> 128 \<le> b0 mod 32 * 64"
proof -
  assume "first_byte b0 = Some (2, lo, hi)"
  then have "194 \<le> b0" "b0 \<le> 223" by (auto simp: first_byte_def split: if_splits)
  then have "b0 mod 32 = b0 - 192" "2 \<le> b0 - 192" by (auto intro!: mod_nat_eqI)
  then show ?thesis by linarith
qed

lemma three_byte_rune:
  assumes "first_byte b0 = Some (3, lo, hi)" "lo \<le> b1" "b1 \<le> hi"
  shows "128 \<le> b0 mod 16 * 4096 + b1 mod 64 * 64"
proof (cases "b0 = 224")
  case True
  with assms have "160 \<le> b1" "b1 \<le> 191" by (auto simp: first_byte_def)
  then have "b1 mod 64 = b1 - 128" "2 \<le> b1 - 128" by (auto intro!: mod_nat_eqI)
  then show ?thesis by linarith
next
  case False
  with assms(1) have "225 \<le> b0" "b0 \<le> 239" by (auto simp: first_byte_def split: if_splits)
  then have "b0 mod 16 = b0 - 224" "1 \<le> b0 - 224" by (auto intro!: mod_nat_eqI)
  then show ?thesis by linarith
qed

lemma four_byte_rune:
  assumes "first_byte b0 = Some (sz, lo, hi)" "sz \<noteq> 2" "sz \<noteq> 3" "lo \<le> b1" "b1 \<le> hi"
  shows "128 \<le> b0 mod 8 * 262144 + b1 mod 64 * 4096"
proof (cases "b0 = 240")
  case True
  with assms have "144 \<le> b1" "b1 \<le> 191" by (auto simp: first_byte_def)
  then have "b1 mod 64 = b1 - 128" "1 \<le> b1 - 128" by (auto intro!: mod_nat_eqI)
  then show ?thesis by linarith
next
  case False
  with assms have "241 \<le> b0" "b0 \<le> 244" by (auto simp: first_byte_def split: if_splits)
  then have "b0 mod 8 = b0 - 240" "1 \<le> b0 - 240" by (auto intro!: mod_nat_eqI)
  then show ?thesis by linarith
qed

lemma DecodeRune_ascii:
  assumes "bs \<noteq> []" "fst (DecodeRune bs) < 128"
  shows "DecodeRune bs = (hd bs, 1)"
proof (cases "hd bs < 128")
  case True
  with assms(1) show ?thesis by (cases bs) (simp_all add: DecodeRune_def)
next
  case False
  obtain b0 r0 where bs: "bs = b0 # r0" using assms(1) by (cases bs) auto
  have "128 \<le> fst (DecodeRune bs)"
  proof (cases "first_byte b0")
    case None
    with False bs show ?thesis by (simp add: DecodeRune_def RuneError_def)
  next
    case (Some x)
    obtain sz lo hi where x: "x = (sz, lo, hi)" by (cases x) auto
    have "sz = 2 \<Longrightarrow> 128 \<le> b0 mod 32 * 64 + y" for y
      using two_byte_rune Some x by (metis trans_le_add1)
    moreover have "sz = 3 \<Longrightarrow> lo \<le> b1 \<Longrightarrow> b1 \<le> hi
        \<Longrightarrow> 128 \<le> b0 mod 16 * 4096 + b1 mod 64 * 64 + y" for b1 y
      using three_byte_rune Some x by (metis trans_le_add1)
    moreover have "sz \<noteq> 2 \<Longrightarrow> sz \<noteq> 3 \<Longrightarrow> lo \<le> b1 \<Longrightarrow> b1 \<le> hi
        \<Longrightarrow> 128 \<le> b0 mod 8 * 262144 + b1 mod 64 * 4096 + y + z" for b1 y z
      using four_byte_rune [of b0 sz lo hi b1] Some x by simp
    ultimately show ?thesis
      using False bs Some x
      by (simp add: DecodeRune_def RuneError_def split: list.split)
  qed
  with assms(2) show ?thesis by simp
qed

lemma runes_ascii_chunk:
  "x \<in> set (runes s) \<Longrightarrow> fst x < 128 \<Longrightarrow> snd x = [char_of (fst x)]"
proof (induction s rule: runes.induct)
  case (1 s)
  obtain r w where d: "DecodeRune (map of_char s) = (r, w)" by fastforce
  show ?case
  proof (cases "s = []")
    case False
    then have s: "runes s = (r, take w s) # runes (drop w s)"
      using d by (subst runes.simps) simp
    show ?thesis
    proof (cases "x = (r, take w s)")
      case True
      with 1(3) d have "DecodeRune (map of_char s) = (hd (map of_char s), 1)"
        by (intro DecodeRune_ascii) (use False in auto)
      with True d False show ?thesis by (cases s) (auto simp: d)
    next
      case False
      with s 1 d \<open>s \<noteq> []\<close> show ?thesis by auto
    qed
  qed (use 1 in simp)
qed

text \<open>The bytes of a piece of a decoded text whose runes are ASCII.\<close>

lemma text_bytes_ascii:
  "set p \<subseteq> set (runes s) \<Longrightarrow> \<forall>x \<in> set p. fst x < 128 \<Longrightarrow> text_bytes p = map (char_of \<circ> fst) p"
  by (induction p) (auto simp: text_bytes_def dest: runes_ascii_chunk)

lemma HasPrefix_iff: "HasPrefix s p \<longleftrightarrow> take (length p) s = p"
  by (induction s p rule: HasPrefix.induct) auto

section \<open>Lemmas: ASCII\<close>

definition ascii :: "string \<Rightarrow> bool" where
  "ascii s \<longleftrightarrow> list_all (\<lambda>c. of_char c < (128::nat)) s"

lemma runes_ascii_string: "ascii s \<Longrightarrow> runes s = map (\<lambda>c. (of_char c, [c])) s"
  by (rule runes_map_ascii) (simp add: ascii_def list_all_iff)

lemma runes_code_points:
  assumes "ascii w" "map fst (runes s) = map of_char w"
  shows "s = w"
proof -
  have "fst x < 128" if "x \<in> set (runes s)" for x
  proof -
    have "fst x \<in> set (map of_char w)" using that assms(2) by (metis image_eqI list.set_map)
    with assms(1) show ?thesis by (auto simp: ascii_def list_all_iff)
  qed
  then have "s = map (char_of \<circ> fst) (runes s)"
    using text_bytes_ascii [of "runes s" s] by simp
  also have "\<dots> = map char_of (map fst (runes s))" by simp
  also have "\<dots> = map char_of (map of_char w :: nat list)" by (simp only: assms(2))
  also have "\<dots> = w" by (simp add: comp_def)
  finally show ?thesis .
qed

lemma MatchString_lit: "ascii w \<Longrightarrow> MatchString (lit w) s \<longleftrightarrow> s = w"
proof -
  assume a: "ascii w"
  have "MatchString (lit w) s \<longleftrightarrow> map fst (runes s) = map of_char w"
    by (auto simp: MatchString_iff matches_lit)
  also have "\<dots> \<longleftrightarrow> s = w"
    using runes_code_points [OF a] runes_ascii_string [OF a] by (auto simp: comp_def)
  finally show ?thesis .
qed

lemma ascii_append [simp]: "ascii (s @ t) \<longleftrightarrow> ascii s \<and> ascii t"
  by (simp add: ascii_def)

end
