(* ===== verification/Go_Num.thy ===== *)
theory Go_Num
  imports Complex_Main Prelude
begin

text \<open>
  What the program uses of Go's numbers: the 64-bit \<open>int\<close>, \<open>float64\<close> with its comparisons and
  its conversion to \<open>int\<close>, and package strconv: \<open>ParseInt\<close>, \<open>Atoi\<close>, \<open>ParseFloat\<close>
  and the shortest decimal formats.  The versions are those of the Go release of the
  continuous-integration file (.travis.yml: 1.10), where base prefixes are \<open>0x\<close> and
  \<open>0\<close>, and neither digit separators nor hexadecimal floating-point numbers exist.  An
  \<open>int\<close> is a mathematical integer: every one of the program is a bounded count or the result
  of a conversion below, which is within 64 bits.
\<close>

section \<open>float64\<close>

text \<open>
  The values of binary64: not-a-number, the infinities (the flag says negative), the two zeros
  and the non-zero finite numbers, each given by its exact rational value.
\<close>

datatype float64 = FNaN | FInf bool | FZero bool | FNum rat

definition float_of_int :: "int \<Rightarrow> float64" where
  "float_of_int i = (if i = 0 then FZero False else FNum (of_int i))"

text \<open>The order of IEEE 754: a comparison with not-a-number is false.\<close>

fun float_less :: "float64 \<Rightarrow> float64 \<Rightarrow> bool" where
  "float_less FNaN y = False"
| "float_less x FNaN = False"
| "float_less (FInf n) (FInf m) = (n \<and> \<not> m)"
| "float_less (FInf n) y = n"
| "float_less x (FInf m) = (\<not> m)"
| "float_less (FZero _) (FZero _) = False"
| "float_less (FZero _) (FNum r) = (0 < r)"
| "float_less (FNum r) (FZero _) = (r < 0)"
| "float_less (FNum r) (FNum q) = (r < q)"

fun float_le :: "float64 \<Rightarrow> float64 \<Rightarrow> bool" where
  "float_le FNaN y = False"
| "float_le x FNaN = False"
| "float_le x y = (\<not> float_less y x)"

text \<open>Truncation towards zero.\<close>

definition trunc_rat :: "rat \<Rightarrow> int" where
  "trunc_rat r = (if r < 0 then - \<lfloor>- r\<rfloor> else \<lfloor>r\<rfloor>)"

text \<open>
  The conversion \<open>int(f)\<close>.  Go truncates towards zero; a value outside the range of the type is
  converted as the processor does it, and amd64 answers the least \<open>int64\<close>.
\<close>

definition int_of_float :: "float64 \<Rightarrow> int" where
  "int_of_float f = (case f of
      FZero _ \<Rightarrow> 0
    | FNum r \<Rightarrow> (let i = trunc_rat r in
        if - (2 ^ 63) \<le> i \<and> i < 2 ^ 63 then i else - (2 ^ 63))
    | _ \<Rightarrow> - (2 ^ 63))"

section \<open>Rounding to binary64\<close>

fun nbits :: "nat \<Rightarrow> nat" where
  "nbits n = (if n = 0 then 0 else Suc (nbits (n div 2)))"

declare nbits.simps [simp del]

definition pow_int :: "rat \<Rightarrow> int \<Rightarrow> rat" where
  "pow_int b e = (if 0 \<le> e then b ^ nat e else 1 / b ^ nat (- e))"

text \<open>\<open>\<lfloor>log\<^sub>2 r\<rfloor>\<close> of a positive rational, from the sizes of its numerator and denominator.\<close>

definition floor_log2 :: "rat \<Rightarrow> int" where
  "floor_log2 r = (let (p, q) = quotient_of r; k = int (nbits (nat p)) - int (nbits (nat q))
     in if pow_int 2 k \<le> r then k else k - 1)"

definition round_half_even :: "rat \<Rightarrow> int" where
  "round_half_even r = (let f = \<lfloor>r\<rfloor>; d = r - of_int f in
     if d < 1 / 2 then f else if 1 / 2 < d then f + 1 else if even f then f else f + 1)"

text \<open>
  Round to nearest, ties to even: 53 bits of precision, least exponent -1074, and infinity from
  \<open>2^1024\<close> on.
\<close>

definition round64_pos :: "bool \<Rightarrow> rat \<Rightarrow> float64" where
  "round64_pos neg r =
     (let e = max (-1074) (floor_log2 r - 52);
          v = of_int (round_half_even (r / pow_int 2 e)) * pow_int 2 e
      in if v = 0 then FZero neg
         else if 2 ^ 1024 \<le> v then FInf neg
         else FNum (if neg then - v else v))"

definition round64 :: "bool \<Rightarrow> rat \<Rightarrow> float64" where
  "round64 neg r = (if r = 0 then FZero neg else round64_pos neg r)"

section \<open>strconv: integers\<close>

datatype num_error_kind = ErrSyntax | ErrRange

text \<open>A \<open>*strconv.NumError\<close>: the function, the string it was given and the kind.\<close>

datatype num_error = NumError string string num_error_kind

definition digit_value :: "char \<Rightarrow> nat option" where
  "digit_value c = (let b = of_char c :: nat in
     if 48 \<le> b \<and> b \<le> 57 then Some (b - 48)
     else if 97 \<le> b \<and> b \<le> 122 then Some (b - 97 + 10)
     else if 65 \<le> b \<and> b \<le> 90 then Some (b - 65 + 10)
     else None)"

text \<open>
  The digit loop of \<open>ParseUint\<close>: it stops at the first character that is no digit of the base
  (a syntax error) or as soon as the value exceeds the maximum (a range error).
\<close>

fun parse_digits :: "nat \<Rightarrow> nat \<Rightarrow> nat \<Rightarrow> string \<Rightarrow> num_error_kind + nat" where
  "parse_digits base maxv n [] = Inr n"
| "parse_digits base maxv n (c # cs) = (case digit_value c of
      None \<Rightarrow> Inl ErrSyntax
    | Some d \<Rightarrow>
        if base \<le> d then Inl ErrSyntax
        else if maxv < n * base + d then Inl ErrRange
        else parse_digits base maxv (n * base + d) cs)"

definition ParseUint :: "string \<Rightarrow> nat \<Rightarrow> nat \<Rightarrow> num_error_kind + nat" where
  "ParseUint s base bitSize =
     (if s = [] then Inl ErrSyntax
      else if base \<noteq> 0 then parse_digits base (2 ^ bitSize - 1) 0 s
      else if hd s = CHR ''0'' \<and> 1 < length s \<and> (s ! 1 = CHR ''x'' \<or> s ! 1 = CHR ''X'') then
        (if length s < 3 then Inl ErrSyntax
         else parse_digits 16 (2 ^ bitSize - 1) 0 (drop 2 s))
      else if hd s = CHR ''0'' then parse_digits 8 (2 ^ bitSize - 1) 0 (tl s)
      else parse_digits 10 (2 ^ bitSize - 1) 0 s)"

text \<open>
  \<open>ParseInt\<close> of a bit size of at least 1: an optional sign, then \<open>ParseUint\<close>, then the signed
  range.  With a range error the function also returns the nearest bound, which \<open>Atoi\<close>'s caller
  keeps: the value is part of the answer.
\<close>

definition ParseInt :: "string \<Rightarrow> nat \<Rightarrow> nat \<Rightarrow> int \<times> num_error option" where
  "ParseInt s base bitSize =
     (let neg = (s \<noteq> [] \<and> hd s = CHR ''-'');
          u = (if s \<noteq> [] \<and> (hd s = CHR ''+'' \<or> hd s = CHR ''-'') then tl s else s);
          err = (\<lambda>k. Some (NumError ''ParseInt'' s k));
          cutoff = 2 ^ (bitSize - 1) :: int
      in case ParseUint u base bitSize of
          Inl ErrSyntax \<Rightarrow> (0, err ErrSyntax)
        | Inl ErrRange \<Rightarrow> (if neg then - cutoff else cutoff - 1, err ErrRange)
        | Inr un \<Rightarrow>
            if \<not> neg \<and> cutoff \<le> int un then (cutoff - 1, err ErrRange)
            else if neg \<and> cutoff < int un then (- cutoff, err ErrRange)
            else (if neg then - int un else int un, None))"

text \<open>\<open>Atoi\<close> is \<open>ParseInt\<close> in base 10 at the width of \<open>int\<close>; here its error is dropped.\<close>

definition Atoi_value :: "string \<Rightarrow> int" where
  "Atoi_value s = fst (ParseInt s 10 64)"

section \<open>strconv: floating-point numbers\<close>

definition to_lower :: "char \<Rightarrow> char" where
  "to_lower c = (let b = of_char c :: nat in if 65 \<le> b \<and> b \<le> 90 then char_of (b + 32) else c)"

definition special_float :: "string \<Rightarrow> float64 option" where
  "special_float s = (let l = map to_lower s in
     if l = ''nan'' then Some FNaN
     else if l \<in> {''inf'', ''+inf'', ''infinity'', ''+infinity''} then Some (FInf False)
     else if l \<in> {''-inf'', ''-infinity''} then Some (FInf True)
     else None)"

definition is_digit :: "char \<Rightarrow> bool" where
  "is_digit c \<longleftrightarrow> 48 \<le> (of_char c :: nat) \<and> (of_char c :: nat) \<le> 57"

definition digits_value :: "string \<Rightarrow> nat" where
  "digits_value ds = foldl (\<lambda>n c. 10 * n + (of_char c - 48)) 0 ds"

text \<open>The exponent accumulator of \<open>readFloat\<close> stops growing once it has reached 10000.\<close>

definition exponent_value :: "string \<Rightarrow> nat" where
  "exponent_value ds = foldl (\<lambda>e c. if e < 10000 then 10 * e + (of_char c - 48) else e) 0 ds"

text \<open>
  The decimal syntax: sign, digits with at most one point and at least one digit, optional
  exponent with at least one digit.  \<open>Some (negative, value)\<close>, or \<open>None\<close> for a syntax error.
\<close>

definition split_exponent :: "string \<Rightarrow> int option" where
  "split_exponent s = (case s of
      [] \<Rightarrow> Some 0
    | c # t \<Rightarrow>
        if c = CHR ''e'' \<or> c = CHR ''E'' then
          (let neg = (t \<noteq> [] \<and> hd t = CHR ''-'');
               ds = (if t \<noteq> [] \<and> (hd t = CHR ''+'' \<or> hd t = CHR ''-'') then tl t else t)
           in if ds \<noteq> [] \<and> list_all is_digit ds
              then Some (if neg then - int (exponent_value ds) else int (exponent_value ds))
              else None)
        else None)"

definition read_float :: "string \<Rightarrow> (bool \<times> rat) option" where
  "read_float s =
     (let neg = (s \<noteq> [] \<and> hd s = CHR ''-'');
          u = (if s \<noteq> [] \<and> (hd s = CHR ''+'' \<or> hd s = CHR ''-'') then tl s else s);
          ip = takeWhile is_digit u;
          r1 = dropWhile is_digit u;
          dot = (r1 \<noteq> [] \<and> hd r1 = CHR ''.'');
          fp = (if dot then takeWhile is_digit (tl r1) else []);
          r2 = (if dot then dropWhile is_digit (tl r1) else r1)
      in if ip @ fp = [] then None
         else (case split_exponent r2 of
             None \<Rightarrow> None
           | Some e \<Rightarrow>
               Some (neg, of_nat (digits_value (ip @ fp)) * pow_int 10 (e - int (length fp)))))"

definition ParseFloat :: "string \<Rightarrow> num_error + float64" where
  "ParseFloat s = (case special_float s of
      Some f \<Rightarrow> Inr f
    | None \<Rightarrow> (case read_float s of
          None \<Rightarrow> Inl (NumError ''ParseFloat'' s ErrSyntax)
        | Some (neg, r) \<Rightarrow> (case round64 neg r of
              FInf _ \<Rightarrow> Inl (NumError ''ParseFloat'' s ErrRange)
            | f \<Rightarrow> Inr f)))"

section \<open>Shortest decimal formats\<close>

fun ndigits :: "nat \<Rightarrow> nat" where
  "ndigits n = (if n = 0 then 0 else Suc (ndigits (n div 10)))"

declare ndigits.simps [simp del]

definition floor_log10 :: "rat \<Rightarrow> int" where
  "floor_log10 r = (let (p, q) = quotient_of r; k = int (ndigits (nat p)) - int (ndigits (nat q))
     in if pow_int 10 k \<le> r then k else k - 1)"

text \<open>
  The decimal with \<open>n\<close> significant digits that is nearest to a positive number among the two
  neighbours that round back to it, as \<open>mantissa * 10^exponent\<close>.
\<close>

definition decimal_candidate :: "rat \<Rightarrow> nat \<Rightarrow> (int \<times> int) option" where
  "decimal_candidate r n =
     (let x = floor_log10 r - int n + 1;
          d = \<lfloor>r / pow_int 10 x\<rfloor>;
          m = round_half_even (r / pow_int 10 x);
          other = (if m = d then d + 1 else d);
          ok = (\<lambda>c. round64 False (of_int c * pow_int 10 x) = FNum r)
      in if ok m then Some (m, x) else if ok other then Some (other, x) else None)"

fun strip_zeros :: "nat \<Rightarrow> int \<Rightarrow> nat \<times> int" where
  "strip_zeros m x = (if m \<noteq> 0 \<and> m mod 10 = 0 then strip_zeros (m div 10) (x + 1) else (m, x))"

declare strip_zeros.simps [simp del]

text \<open>
  The digits of the shortest decimal that rounds back to a positive number, and the position of
  the decimal point relative to their start (\<open>0.d\<^sub>1d\<^sub>2\<dots> * 10^dp\<close>).  Seventeen digits are
  enough for binary64.
\<close>

definition shortest_digits :: "rat \<Rightarrow> string \<times> int" where
  "shortest_digits r =
     (let (m, x) = (case List.map_filter (decimal_candidate r) [1..<18] of
              c # _ \<Rightarrow> c | [] \<Rightarrow> (0, 0));
          (m', x') = strip_zeros (nat m) x;
          ds = show_nat m'
      in (ds, int (length ds) + x'))"

definition format_f :: "string \<times> int \<Rightarrow> string" where
  "format_f = (\<lambda>(ds, dp).
     (if 0 < dp then take (nat dp) (ds @ replicate (nat dp) CHR ''0'') else ''0'')
     @ (if dp < int (length ds)
        then ''.'' @ replicate (nat (- dp)) CHR ''0'' @ drop (nat dp) ds else []))"

definition format_e :: "string \<times> int \<Rightarrow> string" where
  "format_e = (\<lambda>(ds, dp).
     let e = dp - 1; en = show_nat (nat \<bar>e\<bar>)
     in take 1 ds @ (if 1 < length ds then ''.'' @ tl ds else []) @ ''e''
        @ (if e < 0 then ''-'' else ''+'') @ (if length en < 2 then ''0'' @ en else en))"

text \<open>\<open>%v\<close> of a \<open>float64\<close>: the format \<open>g\<close> with the shortest precision.\<close>

definition format_v :: "float64 \<Rightarrow> string" where
  "format_v f = (case f of
      FNaN \<Rightarrow> ''NaN''
    | FInf neg \<Rightarrow> if neg then ''-Inf'' else ''+Inf''
    | FZero neg \<Rightarrow> if neg then ''-0'' else ''0''
    | FNum r \<Rightarrow>
        (let d = shortest_digits \<bar>r\<bar>; e = snd d - 1
         in (if r < 0 then ''-'' else [])
            @ (if e < - 4 \<or> 6 \<le> e then format_e d else format_f d)))"

section \<open>Lemmas\<close>

lemma trunc_rat_of_int [simp]: "trunc_rat (of_int i) = i"
  by (simp add: trunc_rat_def flip: of_int_minus)

text \<open>Truncation goes towards zero by less than one.\<close>

lemma trunc_rat_bounds: "\<bar>of_int (trunc_rat r)\<bar> \<le> \<bar>r\<bar> \<and> \<bar>r - of_int (trunc_rat r)\<bar> < 1"
proof (cases "r < 0")
  case True
  have "of_int \<lfloor>- r\<rfloor> \<le> - r" "- r < of_int \<lfloor>- r\<rfloor> + 1" "0 \<le> \<lfloor>- r\<rfloor>"
    using True by (simp, linarith, simp)
  with True show ?thesis
    by (simp add: trunc_rat_def) (use of_int_floor_le [of "- r"] in linarith)
next
  case False
  have "of_int \<lfloor>r\<rfloor> \<le> r" "r < of_int \<lfloor>r\<rfloor> + 1" "0 \<le> \<lfloor>r\<rfloor>"
    using False by (simp, linarith, simp)
  with False show ?thesis by (simp add: trunc_rat_def)
qed

lemma int_of_float_range: "- (2 ^ 63) \<le> int_of_float f \<and> int_of_float f < 2 ^ 63"
  by (simp add: int_of_float_def Let_def split: float64.split)

lemma int_of_float_of_int:
  "- (2 ^ 63) \<le> i \<Longrightarrow> i < 2 ^ 63 \<Longrightarrow> int_of_float (float_of_int i) = i"
  by (simp add: int_of_float_def float_of_int_def)

lemma float_le_FNum: "float_le (FNum a) (FNum b) \<longleftrightarrow> a \<le> b"
  by auto

lemma nbits_bounds: "0 < n \<Longrightarrow> 2 ^ (nbits n - 1) \<le> n \<and> n < 2 ^ nbits n \<and> 0 < nbits n"
proof (induction n rule: nbits.induct)
  case (1 n)
  show ?case
  proof (cases "n = 1")
    case True
    then show ?thesis by (simp add: nbits.simps)
  next
    case False
    with 1 have m: "0 < n div 2" by auto
    let ?k = "nbits (n div 2)"
    from 1 m have IH: "2 ^ (?k - 1) \<le> n div 2" "n div 2 < 2 ^ ?k" "0 < ?k" by auto
    have n: "nbits n = Suc ?k" using 1(2) by (simp add: nbits.simps [of n])
    have "2 * 2 ^ (?k - 1) = (2::nat) ^ ?k"
      using IH(3) by (metis power_Suc Suc_diff_1)
    with IH have "2 ^ ?k \<le> n" "n < 2 * 2 ^ ?k" by linarith+
    with n show ?thesis by simp
  qed
qed

lemma floor_log2_of_nat:
  assumes "0 < n"
  shows "\<exists>k. floor_log2 (of_nat n) = int k \<and> 2 ^ k \<le> n \<and> n < 2 ^ Suc k"
proof -
  let ?b = "nbits n"
  note b = nbits_bounds [OF assms]
  have q: "quotient_of (of_nat n :: rat) = (int n, 1)"
    using quotient_of_int [of "int n"] by (simp add: of_rat_def Rat.of_int_def)
  have one: "nbits (Suc 0) = Suc 0" by (simp add: nbits.simps)
  have big: "\<not> (2::rat) ^ nat (int ?b - 1) \<le> of_nat n \<Longrightarrow> False"
    using b by (metis int_ops(6) nat_int of_nat_le_iff of_nat_numeral of_nat_power
        One_nat_def Suc_leI nat_1 nat_diff_distrib' of_nat_0_le_iff zero_le_one)
  have "floor_log2 (of_nat n) = int (?b - 1)"
    using b big q by (auto simp: floor_log2_def pow_int_def one of_nat_diff Let_def)
  then show ?thesis using b by (intro exI [of _ "?b - 1"]) simp
qed

text \<open>Every positive integer below \<open>2^53\<close> is a \<open>float64\<close>.\<close>

lemma round64_of_nat:
  assumes "0 < n" "n < 2 ^ 53"
  shows "round64 neg (of_nat n) = FNum (if neg then - of_nat n else of_nat n)"
proof -
  obtain k where k: "floor_log2 (of_nat n) = int k" "2 ^ k \<le> n" "n < 2 ^ Suc k"
    using floor_log2_of_nat [OF assms(1)] by blast
  have k52: "k \<le> 52"
  proof (rule ccontr)
    assume "\<not> k \<le> 52"
    then have "(2::nat) ^ 53 \<le> 2 ^ k" by (intro power_increasing) auto
    with k(2) assms(2) show False by linarith
  qed
  let ?p = "pow_int 2 (int k - 52)"
  have p: "?p = 1 / 2 ^ (52 - k)"
    using k52 by (cases "k = 52") (auto simp: pow_int_def nat_diff_distrib')
  have quot: "of_nat n / ?p = of_int (int n * 2 ^ (52 - k))"
    by (simp add: p)
  have "round_half_even (of_nat n / ?p) = int n * 2 ^ (52 - k)"
    by (simp only: quot round_half_even_def floor_of_int) (simp add: Let_def)
  then have v: "of_int (round_half_even (of_nat n / ?p)) * ?p = of_nat n"
    by (simp add: p)
  have "(of_nat n :: rat) < 2 ^ 1024"
  proof -
    have "n < 2 ^ 1024" using assms(2) by (rule less_le_trans) simp
    then have "of_nat n < (of_nat (2 ^ 1024) :: rat)" by (simp only: of_nat_less_iff)
    then show ?thesis by simp
  qed
  moreover have "max (-1074) (floor_log2 (of_nat n) - 52) = int k - 52"
    using k(1) by simp
  moreover have "(of_nat n :: rat) \<noteq> 0" using assms(1) by simp
  ultimately show ?thesis
    unfolding round64_def round64_pos_def Let_def by (simp only: v) auto
qed

section \<open>Lemmas: numbers in decimal\<close>

lemma digit_value_digit: "d < 10 \<Longrightarrow> digit_value (char_of (48 + d)) = Some d"
  by (simp add: digit_value_def of_char_of Let_def)

lemma parse_digits_append:
  "parse_digits base mx n (s @ t) = (case parse_digits base mx n s of Inl e \<Rightarrow> Inl e | Inr k \<Rightarrow> parse_digits base mx k t)"
  by (induction s arbitrary: n) (auto split: option.split)

lemma parse_digits_show_nat: "n \<le> mx \<Longrightarrow> parse_digits 10 mx 0 (show_nat n) = Inr n"
proof (induction n rule: less_induct)
  case (less n)
  show ?case
  proof (cases "n < 10")
    case True
    with less.prems show ?thesis by (subst show_nat.simps) (simp add: digit_value_digit)
  next
    case False
    have "parse_digits 10 mx 0 (show_nat (n div 10)) = Inr (n div 10)"
      by (rule less.IH) (use False less.prems in auto)
    moreover have "digit_value (char_of (48 + n mod 10)) = Some (n mod 10)"
      by (rule digit_value_digit) simp
    ultimately show ?thesis
      using False less.prems by (subst show_nat.simps) (simp add: parse_digits_append)
  qed
qed

lemma show_nat_nonempty [simp]: "show_nat n \<noteq> []"
  by (subst show_nat.simps) simp

lemma show_nat_digits: "c \<in> set (show_nat n) \<Longrightarrow> 48 \<le> (of_char c :: nat) \<and> (of_char c :: nat) \<le> 57"
proof (induction n rule: less_induct)
  case (less n)
  have d: "(of_char (char_of (48 + n mod 10)) :: nat) = 48 + n mod 10" by (simp add: of_char_of)
  show ?case
  proof (cases "n < 10")
    case True
    with less.prems show ?thesis by (subst (asm) show_nat.simps) (simp add: of_char_of)
  next
    case False
    then have "c \<in> set (show_nat (n div 10)) \<or> c = char_of (48 + n mod 10)"
      using less.prems by (subst (asm) show_nat.simps) auto
    then show ?thesis using less.IH [of "n div 10"] False d by auto
  qed
qed

lemma show_nat_head: "0 < n \<Longrightarrow> hd (show_nat n) \<noteq> CHR ''0''"
proof (induction n rule: less_induct)
  case (less n)
  show ?case
  proof (cases "n < 10")
    case True
    have "char_of (48 + n) \<noteq> CHR ''0''"
    proof
      assume "char_of (48 + n) = CHR ''0''"
      from arg_cong [OF this, of "of_char :: char \<Rightarrow> nat"] True less.prems show False
        by (simp add: of_char_of)
    qed
    then show ?thesis using True by (subst show_nat.simps) simp
  next
    case False
    then show ?thesis using less.IH [of "n div 10"] by (subst show_nat.simps) simp
  qed
qed

lemma show_nat_0: "show_nat 0 = ''0''"
  by (subst show_nat.simps) (simp, code_simp)

lemma ParseInt_show_nat: "n < 2 ^ 63 \<Longrightarrow> ParseInt (show_nat n) 0 64 = (int n, None)"
proof -
  assume n: "n < 2 ^ 63"
  have h: "hd (show_nat n) \<in> set (show_nat n)" by simp
  have "hd (show_nat n) \<noteq> CHR ''+''" "hd (show_nat n) \<noteq> CHR ''-''"
    using show_nat_digits [OF h] by auto
  moreover have "ParseUint (show_nat n) 0 64 = Inr n"
  proof (cases "n = 0")
    case True
    then show ?thesis by (simp add: ParseUint_def show_nat_0)
  next
    case False
    with show_nat_head [of n] parse_digits_show_nat [of n "2 ^ 64 - 1"] n show ?thesis
      by (simp add: ParseUint_def)
  qed
  ultimately show ?thesis using n by (simp add: ParseInt_def)
qed

end
