(* ===== verification/Json.thy ===== *)
theory Json
  imports Go_Text Go_Num "HOL-Library.List_Lexorder" "HOL-Library.Char_ord"
begin

text \<open>
  What the program uses of package encoding/json: the values that \<open>Unmarshal\<close> stores in a
  \<open>map[string]interface{}\<close>, and the text that \<open>Marshal\<close> writes for such values and for the
  message structs.  A Go map is an association list whose lookup is \<open>map_of\<close>; \<open>JInt\<close> and
  \<open>JStruct\<close> stand for the \<open>int\<close> fields and the structs of outgoing messages and are never
  produced by \<open>Unmarshal\<close>.
\<close>

datatype jval =
    JNull
  | JBool bool
  | JNum float64
  | JInt int
  | JStr string
  | JArr "jval list"
  | JObj "(string \<times> jval) list"
  | JStruct "(string \<times> jval) list"

type_synonym jobject = "(string \<times> jval) list"

text \<open>Assignment to a map entry: \<open>m[k] = v\<close>.\<close>

fun map_put :: "string \<Rightarrow> 'v \<Rightarrow> (string \<times> 'v) list \<Rightarrow> (string \<times> 'v) list" where
  "map_put k v [] = [(k, v)]"
| "map_put k v ((k', v') # m) = (if k' = k then (k, v) # m else (k', v') # map_put k v m)"

section \<open>Marshal\<close>

definition hex_digit :: "nat \<Rightarrow> char" where
  "hex_digit n = ''0123456789abcdef'' ! (n mod 16)"

definition dquote :: char where "dquote = CHR 0x22"
definition backslash :: char where "backslash = CHR 0x5C"
definition newline :: char where "newline = CHR 0x0A"

text \<open>
  One rune of a string literal: quotes, backslashes, control characters, \<open><\<close>, \<open>>\<close>,
  \<open>&\<close>, the line separators 2028 and 2029 and bytes that are not UTF-8 are escaped.
\<close>

definition quote_rune :: "rune \<times> string \<Rightarrow> string" where
  "quote_rune x = (case x of (r, bs) \<Rightarrow>
     if r < 128 then
       (if r = 34 \<or> r = 92 then backslash # bs
        else if r = 10 then [backslash, CHR ''n'']
        else if r = 13 then [backslash, CHR ''r'']
        else if r = 9 then [backslash, CHR ''t'']
        else if r < 32 \<or> r = 60 \<or> r = 62 \<or> r = 38
          then backslash # ''u00'' @ [hex_digit (r div 16), hex_digit r]
        else bs)
     else if r = RuneError \<and> length bs = 1 then backslash # ''ufffd''
     else if r = 8232 \<or> r = 8233 then backslash # ''u202'' @ [hex_digit r]
     else bs)"

definition quote_string :: "string \<Rightarrow> string" where
  "quote_string s = dquote # concat (map quote_rune (runes s)) @ [dquote]"

definition marshal_float :: "float64 \<Rightarrow> string result" where
  "marshal_float f = (case f of
      FNaN \<Rightarrow> Inl (''json: unsupported value: '' @ format_v f)
    | FInf _ \<Rightarrow> Inl (''json: unsupported value: '' @ format_v f)
    | FZero neg \<Rightarrow> Inr (if neg then ''-0'' else ''0'')
    | FNum r \<Rightarrow>
        (let d = shortest_digits \<bar>r\<bar>; sign = (if r < 0 then ''-'' else []);
             e = format_e d; n = length e
         in if \<bar>r\<bar> < 1 / 10 ^ 6 \<or> 10 ^ 21 \<le> \<bar>r\<bar> then
              Inr (sign @ (if 4 \<le> n \<and> e ! (n - 4) = CHR ''e'' \<and> e ! (n - 3) = CHR ''-''
                              \<and> e ! (n - 2) = CHR ''0''
                           then take (n - 2) e @ [e ! (n - 1)] else e))
            else Inr (sign @ format_f d)))"

text \<open>The parts of an array or object, in order, separated by commas; the first error wins.\<close>

fun join_parts :: "string result list \<Rightarrow> string result" where
  "join_parts [] = Inr []"
| "join_parts [r] = r"
| "join_parts (r # rs) = (case r of Inl e \<Rightarrow> Inl e
     | Inr s \<Rightarrow> (case join_parts rs of Inl e \<Rightarrow> Inl e | Inr t \<Rightarrow> Inr (s @ '','' @ t)))"

definition enclose :: "char \<Rightarrow> char \<Rightarrow> string result \<Rightarrow> string result" where
  "enclose l r res = map_sum id (\<lambda>s. l # s @ [r]) res"

definition field_part :: "string \<times> string result \<Rightarrow> string result" where
  "field_part f = map_sum id (\<lambda>s. quote_string (fst f) @ '':'' @ s) (snd f)"

fun Marshal :: "jval \<Rightarrow> string result"
  and marshal_elems :: "jval list \<Rightarrow> string result list"
  and marshal_fields :: "(string \<times> jval) list \<Rightarrow> (string \<times> string result) list" where
  "Marshal JNull = Inr ''null''"
| "Marshal (JBool b) = Inr (if b then ''true'' else ''false'')"
| "Marshal (JNum f) = marshal_float f"
| "Marshal (JInt i) = Inr (show_int i)"
| "Marshal (JStr s) = Inr (quote_string s)"
| "Marshal (JArr vs) = enclose CHR ''['' CHR '']'' (join_parts (marshal_elems vs))"
| "Marshal (JObj m) = enclose CHR ''{'' CHR ''}''
     (join_parts (map field_part (sort_key fst (marshal_fields m))))"
| "Marshal (JStruct m) = enclose CHR ''{'' CHR ''}''
     (join_parts (map field_part (marshal_fields m)))"
| "marshal_elems [] = []"
| "marshal_elems (v # vs) = Marshal v # marshal_elems vs"
| "marshal_fields [] = []"
| "marshal_fields ((k, v) # m) = (k, Marshal v) # marshal_fields m"

section \<open>Unmarshal\<close>

definition is_ws :: "char \<Rightarrow> bool" where
  "is_ws c \<longleftrightarrow> c = CHR '' '' \<or> c = CHR 0x09 \<or> c = CHR 0x0A \<or> c = CHR 0x0D"

definition skip_ws :: "string \<Rightarrow> string" where
  "skip_ws s = dropWhile is_ws s"

text \<open>Four hexadecimal digits (\<open>getu4\<close>).\<close>

definition hex_value :: "char \<Rightarrow> nat option" where
  "hex_value c = (case digit_value c of Some d \<Rightarrow> if d < 16 then Some d else None | None \<Rightarrow> None)"

definition hex4 :: "string \<Rightarrow> (nat \<times> string) option" where
  "hex4 s = (case s of
      a # b # c # d # t \<Rightarrow> (case (hex_value a, hex_value b, hex_value c, hex_value d) of
          (Some x, Some y, Some z, Some w) \<Rightarrow> Some (((x * 16 + y) * 16 + z) * 16 + w, t)
        | _ \<Rightarrow> None)
    | _ \<Rightarrow> None)"

text \<open>
  The rune of a \<open>\uXXXX\<close> escape and what follows it: a high surrogate consumes the low
  surrogate escape after it, any other surrogate is the replacement rune.
\<close>

definition unicode_escape :: "string \<Rightarrow> (rune \<times> string) option" where
  "unicode_escape s = (case hex4 s of
      None \<Rightarrow> None
    | Some (r, t) \<Rightarrow>
        if r < 55296 \<or> 57343 < r then Some (r, t)
        else (case t of
            b # u # t' \<Rightarrow>
              (case (if b = backslash \<and> u = CHR ''u'' then hex4 t' else None) of
                  Some (r2, t'') \<Rightarrow>
                    if r < 56320 \<and> 56320 \<le> r2 \<and> r2 < 57344
                    then Some ((r - 55296) * 1024 + (r2 - 56320) + 65536, t'')
                    else Some (RuneError, t)
                | None \<Rightarrow> Some (RuneError, t))
          | _ \<Rightarrow> Some (RuneError, t)))"

definition simple_escape :: "char \<Rightarrow> char option" where
  "simple_escape c =
     (if c = dquote \<or> c = backslash \<or> c = CHR ''/'' then Some c
      else if c = CHR ''b'' then Some CHR 0x08
      else if c = CHR ''f'' then Some CHR 0x0C
      else if c = CHR ''n'' then Some CHR 0x0A
      else if c = CHR ''r'' then Some CHR 0x0D
      else if c = CHR ''t'' then Some CHR 0x09
      else None)"

lemma hex4_length: "hex4 s = Some (r, t) \<Longrightarrow> length t < length s"
  by (auto simp: hex4_def split: list.splits option.splits)

lemma unicode_escape_length: "unicode_escape s = Some (r, t) \<Longrightarrow> length t < length s"
  by (auto simp: unicode_escape_def dest!: hex4_length split: option.splits list.splits if_splits)

text \<open>The characters of a string literal after its opening quote, and the rest after its closing quote.\<close>

function string_chars :: "string \<Rightarrow> (string \<times> string) option" where
  "string_chars s = (case s of
      [] \<Rightarrow> None
    | c # t \<Rightarrow>
        if c = dquote then Some ([], t)
        else if of_char c < (32::nat) then None
        else if c = backslash then (case t of
            [] \<Rightarrow> None
          | e # t' \<Rightarrow> (case simple_escape e of
                Some x \<Rightarrow> map_option (\<lambda>(cs, r). (x # cs, r)) (string_chars t')
              | None \<Rightarrow>
                  if e = CHR ''u'' then (case unicode_escape t' of
                      None \<Rightarrow> None
                    | Some (r, t'') \<Rightarrow>
                        map_option (\<lambda>(cs, q). (EncodeRune r @ cs, q)) (string_chars t''))
                  else None))
        else if of_char c < (128::nat) then map_option (\<lambda>(cs, r). (c # cs, r)) (string_chars t)
        else (let (r, w) = DecodeRune (map of_char s)
              in map_option (\<lambda>(cs, q). (EncodeRune r @ cs, q)) (string_chars (drop w s))))"
  by pat_completeness auto
termination
proof (relation "measure length", goal_cases)
  case (5 s c t p r w)
  then show ?case using DecodeRune_width [of "map of_char s"] by (auto simp: prod_eq_iff)
qed (auto dest!: unicode_escape_length)

declare string_chars.simps [simp del]

text \<open>A number literal and the rest: \<open>-?(0|[1-9][0-9]*)(\.[0-9]+)?([eE][+-]?[0-9]+)?\<close>.\<close>

definition digits1 :: "string \<Rightarrow> (string \<times> string) option" where
  "digits1 s = (if takeWhile is_digit s = [] then None
     else Some (takeWhile is_digit s, dropWhile is_digit s))"

definition int_part :: "string \<Rightarrow> (string \<times> string) option" where
  "int_part s = (case s of [] \<Rightarrow> None
    | c # t \<Rightarrow> if c = CHR ''0'' then Some ([c], t) else digits1 s)"

definition frac_part :: "string \<Rightarrow> (string \<times> string) option" where
  "frac_part s = (case s of
      [] \<Rightarrow> Some ([], [])
    | c # t \<Rightarrow> if c = CHR ''.'' then map_option (\<lambda>(d, r). (c # d, r)) (digits1 t)
        else Some ([], s))"

definition exp_part :: "string \<Rightarrow> (string \<times> string) option" where
  "exp_part s = (case s of
      [] \<Rightarrow> Some ([], [])
    | c # t \<Rightarrow>
        if c = CHR ''e'' \<or> c = CHR ''E'' then (case t of
            [] \<Rightarrow> None
          | g # t' \<Rightarrow>
              if g = CHR ''+'' \<or> g = CHR ''-''
              then map_option (\<lambda>(d, r). (c # g # d, r)) (digits1 t')
              else map_option (\<lambda>(d, r). (c # d, r)) (digits1 t))
        else Some ([], s))"

definition number_literal :: "string \<Rightarrow> (string \<times> string) option" where
  "number_literal s =
     (let (sign, u) = (if s \<noteq> [] \<and> hd s = CHR ''-'' then (''-'', tl s) else ([], s))
      in case int_part u of
          None \<Rightarrow> None
        | Some (i, r1) \<Rightarrow> (case frac_part r1 of
              None \<Rightarrow> None
            | Some (f, r2) \<Rightarrow> (case exp_part r2 of
                  None \<Rightarrow> None
                | Some (e, r3) \<Rightarrow> Some (sign @ i @ f @ e, r3))))"

definition parse_number :: "string \<Rightarrow> (jval \<times> string) option" where
  "parse_number s = (case number_literal s of
      None \<Rightarrow> None
    | Some (l, r) \<Rightarrow> (case ParseFloat l of Inl _ \<Rightarrow> None | Inr f \<Rightarrow> Some (JNum f, r)))"

text \<open>
  The value grammar.  The first argument bounds the depth of the recursion; \<open>Unmarshal\<close> gives
  twice the length of the text and one more, which is never exhausted.
\<close>

fun parse_value :: "nat \<Rightarrow> string \<Rightarrow> (jval \<times> string) option"
  and parse_elems :: "nat \<Rightarrow> string \<Rightarrow> (jval list \<times> string) option"
  and parse_members :: "nat \<Rightarrow> jobject \<Rightarrow> string \<Rightarrow> (jobject \<times> string) option" where
  "parse_value 0 s = None"
| "parse_value (Suc n) s = (case skip_ws s of
      [] \<Rightarrow> None
    | c # t \<Rightarrow>
        if c = CHR ''{'' then (case skip_ws t of
            [] \<Rightarrow> None
          | d # t' \<Rightarrow> if d = CHR ''}'' then Some (JObj [], t')
              else map_option (\<lambda>(m, r). (JObj m, r)) (parse_members n [] t))
        else if c = CHR ''['' then (case skip_ws t of
            [] \<Rightarrow> None
          | d # t' \<Rightarrow> if d = CHR '']'' then Some (JArr [], t')
              else map_option (\<lambda>(vs, r). (JArr vs, r)) (parse_elems n t))
        else if c = dquote then map_option (\<lambda>(cs, r). (JStr cs, r)) (string_chars t)
        else if HasPrefix (c # t) ''null'' then Some (JNull, drop 3 t)
        else if HasPrefix (c # t) ''true'' then Some (JBool True, drop 3 t)
        else if HasPrefix (c # t) ''false'' then Some (JBool False, drop 4 t)
        else parse_number (c # t))"
| "parse_elems 0 s = None"
| "parse_elems (Suc n) s = (case parse_value n s of
      None \<Rightarrow> None
    | Some (v, r) \<Rightarrow> (case skip_ws r of
          [] \<Rightarrow> None
        | c # t \<Rightarrow>
            if c = CHR '','' then map_option (\<lambda>(vs, q). (v # vs, q)) (parse_elems n t)
            else if c = CHR '']'' then Some ([v], t)
            else None))"
| "parse_members 0 m s = None"
| "parse_members (Suc n) m s = (case skip_ws s of
      [] \<Rightarrow> None
    | c # t \<Rightarrow>
        if c \<noteq> dquote then None
        else (case string_chars t of
            None \<Rightarrow> None
          | Some (k, r) \<Rightarrow> (case skip_ws r of
                [] \<Rightarrow> None
              | d # t' \<Rightarrow>
                  if d \<noteq> CHR '':'' then None
                  else (case parse_value n t' of
                      None \<Rightarrow> None
                    | Some (v, r') \<Rightarrow> (case skip_ws r' of
                          [] \<Rightarrow> None
                        | e # t'' \<Rightarrow>
                            if e = CHR '','' then parse_members n (map_put k v m) t''
                            else if e = CHR ''}'' then Some (map_put k v m, t'')
                            else None)))))"

text \<open>
  \<open>json.Unmarshal(data, &m)\<close> for \<open>m map[string]interface{}\<close>: the text is one value, which must
  be an object, or \<open>null\<close>, which leaves the nil map.
\<close>

definition Unmarshal :: "byte list \<Rightarrow> jobject option" where
  "Unmarshal bs = (let s = string_of bs in
     case parse_value (2 * length s + 1) s of
       None \<Rightarrow> None
     | Some (v, r) \<Rightarrow>
         if skip_ws r \<noteq> [] then None
         else (case v of JObj m \<Rightarrow> Some m | JNull \<Rightarrow> Some [] | _ \<Rightarrow> None))"

section \<open>The parser consumes its input, and its fuel is never exhausted\<close>

lemma skip_ws_length: "length (skip_ws s) \<le> length s"
  by (simp add: skip_ws_def length_dropWhile_le)

lemma skip_ws_Cons: "skip_ws s = c # t \<Longrightarrow> length t < length s"
  using skip_ws_length [of s] by simp

text \<open>A literal ends here, or it continues on a shorter text.\<close>

lemma string_chars_step:
  assumes "string_chars s = Some (cs, r)"
  shows "(\<exists>c. s = c # r) \<or> (\<exists>u cs'. length u < length s \<and> string_chars u = Some (cs', r))"
proof (cases s)
  case Nil
  with assms show ?thesis by (simp add: string_chars.simps)
next
  case (Cons c t)
  obtain x w where d: "DecodeRune (map of_char s) = (x, w)" by fastforce
  have w: "length (drop w s) < length s"
    using DecodeRune_width [of "map of_char s"] d Cons by simp
  consider "c = dquote" | "c \<noteq> dquote" "c = backslash" "\<not> of_char c < (32::nat)"
    | "c \<noteq> dquote" "c \<noteq> backslash" "of_char c < (128::nat)" "\<not> of_char c < (32::nat)"
    | "c \<noteq> dquote" "c \<noteq> backslash" "\<not> of_char c < (128::nat)"
    | "c \<noteq> dquote" "of_char c < (32::nat)" by blast
  then show ?thesis
  proof cases
    case 2
    with assms Cons obtain e t' where t: "t = e # t'"
      by (subst (asm) string_chars.simps) (auto split: list.splits)
    have "\<exists>u cs'. length u \<le> length t' \<and> string_chars u = Some (cs', r)"
      using assms Cons 2 t
      by (subst (asm) string_chars.simps)
        (auto split: option.splits if_splits dest!: unicode_escape_length intro: less_imp_le)
    with Cons t show ?thesis by fastforce
  next
    case 4
    with assms Cons d obtain cs' where "string_chars (drop w s) = Some (cs', r)"
      by (subst (asm) string_chars.simps) auto
    with w show ?thesis by blast
  qed (use assms Cons in \<open>subst (asm) string_chars.simps, force\<close>)+
qed

lemma string_chars_length: "string_chars s = Some (cs, r) \<Longrightarrow> length r < length s"
proof (induction "length s" arbitrary: s cs rule: less_induct)
  case less
  from string_chars_step [OF less.prems] show ?case
  proof (elim disjE exE conjE)
    fix u cs'
    assume "length u < length s" "string_chars u = Some (cs', r)"
    with less.hyps [of u cs'] show ?case by simp
  qed simp
qed

lemma digits1_length: "digits1 s = Some (d, r) \<Longrightarrow> length r < length s"
proof -
  assume "digits1 s = Some (d, r)"
  then have "s = d @ r" "d \<noteq> []" by (auto simp: digits1_def split: if_splits)
  then show ?thesis by simp
qed

lemma int_part_length: "int_part s = Some (d, r) \<Longrightarrow> length r < length s"
  by (auto simp: int_part_def dest: digits1_length split: list.splits if_splits)

lemma frac_part_length: "frac_part s = Some (d, r) \<Longrightarrow> length r \<le> length s"
  by (auto simp: frac_part_def dest!: digits1_length split: list.splits if_splits)

lemma exp_part_length: "exp_part s = Some (d, r) \<Longrightarrow> length r \<le> length s"
  by (auto simp: exp_part_def dest!: digits1_length split: list.splits if_splits)

lemma number_literal_length: "number_literal s = Some (l, r) \<Longrightarrow> length r < length s"
proof -
  define u where "u = (if s \<noteq> [] \<and> hd s = CHR ''-'' then tl s else s)"
  have u: "length u \<le> length s" by (simp add: u_def)
  assume "number_literal s = Some (l, r)"
  then obtain i r1 f r2 e where p: "int_part u = Some (i, r1)" "frac_part r1 = Some (f, r2)"
      "exp_part r2 = Some (e, r)"
    by (auto simp: number_literal_def u_def split: option.splits if_splits)
  from int_part_length [OF p(1)] frac_part_length [OF p(2)] exp_part_length [OF p(3)] u
  show ?thesis by linarith
qed

lemma parse_number_length: "parse_number s = Some (v, r) \<Longrightarrow> length r < length s"
  by (auto simp: parse_number_def dest: number_literal_length split: option.splits sum.splits)

lemma parse_lengths:
  "(\<forall>s v r. parse_value n s = Some (v, r) \<longrightarrow> length r < length s)
   \<and> (\<forall>s vs r. parse_elems n s = Some (vs, r) \<longrightarrow> length r < length s)
   \<and> (\<forall>s m m' r. parse_members n m s = Some (m', r) \<longrightarrow> length r < length s)"
proof (induction n)
  case (Suc n)
  have v: "parse_value n s = Some (v, r) \<Longrightarrow> length r < length s"
    and e: "parse_elems n s = Some (vs, r) \<Longrightarrow> length r < length s"
    and m: "parse_members n m s = Some (m', r) \<Longrightarrow> length r < length s" for s v r vs m m'
    using Suc.IH by blast+
  have "length r < length s" if a: "parse_value (Suc n) s = Some (v, r)" for s v r
  proof -
    from a obtain c t where ws: "skip_ws s = c # t" by (auto split: list.splits)
    have "length r < length (c # t)"
      using a ws
      by (auto split: list.splits if_splits dest!: skip_ws_Cons string_chars_length
          parse_number_length e m)
    with skip_ws_length [of s] ws show ?thesis by simp
  qed
  moreover have "length r < length s" if a: "parse_elems (Suc n) s = Some (vs, r)" for s vs r
  proof -
    from a obtain v' r' c t where "parse_value n s = Some (v', r')" "skip_ws r' = c # t"
      by (auto split: option.splits list.splits)
    with a show ?thesis
      by (auto split: if_splits dest!: skip_ws_Cons v e)
  qed
  moreover have "length r < length s" if a: "parse_members (Suc n) m s = Some (m', r)" for s m m' r
  proof -
    from a obtain c t k r1 d t1 v1 r2 x t2 where
      x: "skip_ws s = c # t" "string_chars t = Some (k, r1)" "skip_ws r1 = d # t1"
        "parse_value n t1 = Some (v1, r2)" "skip_ws r2 = x # t2"
      by (auto split: option.splits list.splits if_splits)
    have "length t2 < length s"
      using skip_ws_Cons [OF x(1)] string_chars_length [OF x(2)] skip_ws_Cons [OF x(3)]
        v [OF x(4)] skip_ws_Cons [OF x(5)] by linarith
    moreover have "length r \<le> length t2"
      using a x by (auto split: if_splits dest!: m)
    ultimately show ?thesis by simp
  qed
  ultimately show ?case by blast
qed simp

lemmas parse_value_length = parse_lengths [THEN conjunct1, rule_format]

text \<open>
  Any two amounts of fuel above the bound give the same result, so \<open>None\<close> always means that the
  text is not in the grammar.
\<close>

lemma parse_fuel:
  "(\<forall>s k. 2 * length s < n \<longrightarrow> 2 * length s < k \<longrightarrow> parse_value n s = parse_value k s)
   \<and> (\<forall>s k. 2 * length s + 1 < n \<longrightarrow> 2 * length s + 1 < k \<longrightarrow> parse_elems n s = parse_elems k s)
   \<and> (\<forall>s k m. 2 * length s + 1 < n \<longrightarrow> 2 * length s + 1 < k
        \<longrightarrow> parse_members n m s = parse_members k m s)"
proof (induction n)
  case (Suc n)
  have v: "2 * length s < n \<Longrightarrow> 2 * length s < k \<Longrightarrow> parse_value n s = parse_value k s"
    and e: "2 * length s + 1 < n \<Longrightarrow> 2 * length s + 1 < k \<Longrightarrow> parse_elems n s = parse_elems k s"
    and m: "2 * length s + 1 < n \<Longrightarrow> 2 * length s + 1 < k
      \<Longrightarrow> parse_members n m s = parse_members k m s" for s k m
    using Suc.IH by blast+
  have "parse_value (Suc n) s = parse_value k' s"
    if a: "2 * length s < Suc n" "2 * length s < k'" for s k'
  proof -
    obtain k where k: "k' = Suc k" using a by (cases k') auto
    show ?thesis
    proof (cases "skip_ws s")
      case (Cons c t)
      have l: "2 * length t + 1 < n" "2 * length t + 1 < k"
        using skip_ws_Cons [OF Cons] a k by auto
      show ?thesis by (simp add: k Cons e [OF l] m [OF l] split: list.split)
    qed (simp add: k)
  qed
  moreover have "parse_elems (Suc n) s = parse_elems k' s"
    if a: "2 * length s + 1 < Suc n" "2 * length s + 1 < k'" for s k'
  proof -
    obtain k where k: "k' = Suc k" using a by (cases k') auto
    have v': "parse_value n s = parse_value k s" using a k by (intro v) auto
    show ?thesis
    proof (cases "parse_value k s")
      case (Some x)
      have "parse_elems n t = parse_elems k t" if "skip_ws (snd x) = c # t" for c t
        using parse_value_length [of k s "fst x" "snd x"] Some skip_ws_Cons [OF that] a k
        by (intro e) auto
      then show ?thesis by (simp add: k v' Some split: prod.split list.split)
    qed (simp add: k v')
  qed
  moreover have "parse_members (Suc n) m s = parse_members k' m s"
    if a: "2 * length s + 1 < Suc n" "2 * length s + 1 < k'" for s k' m
  proof -
    obtain k where k: "k' = Suc k" using a by (cases k') auto
    have v': "parse_value n t1 = parse_value k t1"
      if "skip_ws s = c # t" "string_chars t = Some (y, r1)" "skip_ws r1 = d # t1" for c t y r1 d t1
      using skip_ws_Cons [OF that(1)] string_chars_length [OF that(2)] skip_ws_Cons [OF that(3)] a k
      by (intro v) auto
    have m': "parse_members n q t2 = parse_members k q t2"
      if "skip_ws s = c # t" "string_chars t = Some (y, r1)" "skip_ws r1 = d # t1"
        "parse_value k t1 = Some (w, r2)" "skip_ws r2 = x # t2" for c t y r1 d t1 w r2 x t2 q
      using skip_ws_Cons [OF that(1)] string_chars_length [OF that(2)] skip_ws_Cons [OF that(3)]
        parse_value_length [OF that(4)] skip_ws_Cons [OF that(5)] a k
      by (intro m) auto
    show ?thesis
      by (auto simp: k v' m' split: list.split option.split)
  qed
  ultimately show ?case by blast
qed simp

lemma Unmarshal_fuel:
  "2 * length bs < n \<Longrightarrow> parse_value (2 * length (string_of bs) + 1) (string_of bs)
     = parse_value n (string_of bs)"
  using parse_fuel [of "2 * length (string_of bs) + 1"] by (auto simp: string_of_def)

section \<open>Which values Marshal encodes\<close>

lemma length_quote_rune: "bs \<noteq> [] \<Longrightarrow> length (quote_rune (r, bs)) \<le> 6 * length bs"
  by (cases bs) (auto simp: quote_rune_def)

lemma length_quote_string: "length (quote_string s) \<le> 6 * length s + 2"
proof -
  have "length (concat (map quote_rune (runes s))) \<le> 6 * length s"
  proof (induction s rule: runes.induct)
    case (1 s)
    show ?case
    proof (cases "s = []")
      case False
      obtain r w where d: "DecodeRune (map of_char s) = (r, w)" by fastforce
      have w: "1 \<le> w" "w \<le> length s"
        using DecodeRune_width [of "map of_char s"] False d by auto
      have "length (concat (map quote_rune (runes (drop w s)))) \<le> 6 * length (drop w s)"
        using 1 [OF False d [symmetric] refl] .
      moreover have "length (quote_rune (r, take w s)) \<le> 6 * length (take w s)"
        by (rule length_quote_rune) (use w False in auto)
      moreover have "runes s = (r, take w s) # runes (drop w s)"
        using False d by (subst runes.simps) simp
      ultimately show ?thesis using w by simp
    qed simp
  qed
  then show ?thesis by (simp add: quote_string_def)
qed

definition plain_char :: "char \<Rightarrow> bool" where
  "plain_char c \<longleftrightarrow> (let n = (of_char c :: nat) in 32 \<le> n \<and> n < 128
     \<and> n \<noteq> 34 \<and> n \<noteq> 92 \<and> n \<noteq> 60 \<and> n \<noteq> 62 \<and> n \<noteq> 38)"

lemma quote_string_plain: "list_all plain_char s \<Longrightarrow> quote_string s = dquote # s @ [dquote]"
proof -
  assume a: "list_all plain_char s"
  then have "runes s = map (\<lambda>c. (of_char c, [c])) s"
    by (intro runes_map_ascii) (auto simp: list_all_iff plain_char_def Let_def)
  moreover have "concat (map quote_rune (map (\<lambda>c. (of_char c, [c])) s)) = s"
    using a by (induction s) (auto simp: plain_char_def quote_rune_def Let_def)
  ultimately show ?thesis by (simp add: quote_string_def)
qed

fun finite_numbers :: "jval \<Rightarrow> bool" where
  "finite_numbers (JNum FNaN) = False"
| "finite_numbers (JNum (FInf _)) = False"
| "finite_numbers (JArr vs) = (\<forall>v \<in> set vs. finite_numbers v)"
| "finite_numbers (JObj m) = (\<forall>v \<in> snd ` set m. finite_numbers v)"
| "finite_numbers (JStruct m) = (\<forall>v \<in> snd ` set m. finite_numbers v)"
| "finite_numbers _ = True"

definition is_ok :: "'a result \<Rightarrow> bool" where
  "is_ok r \<longleftrightarrow> (\<exists>v. r = Inr v)"

lemma is_ok_simps [simp]: "is_ok (Inr v)" "\<not> is_ok (Inl e)"
  by (simp_all add: is_ok_def)

lemma is_ok_join_parts [simp]: "is_ok (join_parts rs) \<longleftrightarrow> (\<forall>r \<in> set rs. is_ok r)"
proof (induction rs rule: join_parts.induct)
  case (3 r r2 rs)
  then show ?case by (cases r; cases "join_parts (r2 # rs)") (auto simp: is_ok_def)
qed simp_all

lemma is_ok_map_sum [simp]: "is_ok (map_sum id f r) \<longleftrightarrow> is_ok r"
  by (cases r) simp_all

lemma is_ok_enclose [simp]: "is_ok (enclose l r res) \<longleftrightarrow> is_ok res"
  by (simp add: enclose_def)

lemma is_ok_field_part [simp]: "is_ok (field_part f) \<longleftrightarrow> is_ok (snd f)"
  by (simp add: field_part_def)

lemma Marshal_total_aux:
  "is_ok (Marshal v) \<longleftrightarrow> finite_numbers v"
  "(\<forall>r \<in> set (marshal_elems vs). is_ok r) \<longleftrightarrow> (\<forall>v \<in> set vs. finite_numbers v)"
  "(\<forall>f \<in> set (marshal_fields m). is_ok (snd f)) \<longleftrightarrow> (\<forall>v \<in> snd ` set m. finite_numbers v)"
proof (induction v and vs and m rule: Marshal_marshal_elems_marshal_fields.induct)
  case (3 f)
  then show ?case by (cases f) (auto simp: marshal_float_def Let_def)
qed (auto simp: set_sort)

lemmas Marshal_total = Marshal_total_aux(1) [unfolded is_ok_def]

end
