(* ===== verification/Readutil.thy ===== *)
theory Readutil
  imports Json
begin

text \<open>
  src/readutil.go: reading typed fields out of a decoded JSON object or out of the table of
  command-line arguments.  The readers of messages fail with the text of the Go error, which
  ends up in KICK messages; the readers of arguments fail with a structured error, which the
  program only logs.
\<close>

definition quoted :: "string \<Rightarrow> string" where
  "quoted s = CHR 0x27 # s @ [CHR 0x27]"

definition missing_field :: "string \<Rightarrow> string" where
  "missing_field field = ''Field '' @ quoted field @ '' is missing''"

definition ReadString :: "jobject \<Rightarrow> string \<Rightarrow> string result" where
  "ReadString data field = (case map_of data field of
      None \<Rightarrow> Inl (missing_field field)
    | Some (JStr s) \<Rightarrow> Inr s
    | Some _ \<Rightarrow> Inl (''Non-string value for field '' @ quoted field))"

definition ReadInt :: "jobject \<Rightarrow> string \<Rightarrow> int result" where
  "ReadInt data field = (case map_of data field of
      None \<Rightarrow> Inl (missing_field field)
    | Some (JNum f) \<Rightarrow> Inr (int_of_float f)
    | Some _ \<Rightarrow> Inl (''Non-integral value for field '' @ quoted field))"

definition ReadObject :: "jobject \<Rightarrow> string \<Rightarrow> jobject result" where
  "ReadObject data field = (case map_of data field of
      None \<Rightarrow> Inl (missing_field field)
    | Some (JObj m) \<Rightarrow> Inr m
    | Some _ \<Rightarrow> Inl (''Non-object value for field '' @ quoted field))"

definition ReadArray :: "jobject \<Rightarrow> string \<Rightarrow> jval list result" where
  "ReadArray data field = (case map_of data field of
      None \<Rightarrow> Inl (missing_field field)
    | Some (JArr vs) \<Rightarrow> Inr vs
    | Some _ \<Rightarrow> Inl (''Non-array value for field '' @ quoted field))"

datatype arg_error =
    ArgMissing string
  | ArgNonString string
  | ArgBadNumber string num_error
  | ArgTooSmall string
  | ArgTooBig string

definition ReadIntInString ::
  "jobject \<Rightarrow> string \<Rightarrow> nat \<Rightarrow> int \<Rightarrow> int \<Rightarrow> arg_error + int" where
  "ReadIntInString data field bitSize minValue maxValue = (case map_of data field of
      None \<Rightarrow> Inl (ArgMissing field)
    | Some (JStr s) \<Rightarrow> (case ParseInt s 0 bitSize of
          (_, Some err) \<Rightarrow> Inl (ArgBadNumber field err)
        | (intValue, None) \<Rightarrow>
            if intValue < minValue then Inl (ArgTooSmall field)
            else if maxValue < intValue then Inl (ArgTooBig field)
            else Inr intValue)
    | Some _ \<Rightarrow> Inl (ArgNonString field))"

text \<open>The argument \<open>bitSize\<close>, which is 64 in every call, is left out: \<open>ParseFloat\<close> is the one for binary64.\<close>

definition ReadFloatInString ::
  "jobject \<Rightarrow> string \<Rightarrow> float64 \<Rightarrow> float64 \<Rightarrow> arg_error + float64" where
  "ReadFloatInString data field minValue maxValue = (case map_of data field of
      None \<Rightarrow> Inl (ArgMissing field)
    | Some (JStr s) \<Rightarrow> (case ParseFloat s of
          Inl err \<Rightarrow> Inl (ArgBadNumber field err)
        | Inr floatValue \<Rightarrow>
            if float_less floatValue minValue then Inl (ArgTooSmall field)
            else if float_less maxValue floatValue then Inl (ArgTooBig field)
            else Inr floatValue)
    | Some _ \<Rightarrow> Inl (ArgNonString field))"

section \<open>When the readers succeed\<close>

lemma ReadString_Inr: "ReadString data field = Inr s \<longleftrightarrow> map_of data field = Some (JStr s)"
  by (auto simp: ReadString_def split: option.splits jval.splits)

lemma ReadInt_Inr:
  "ReadInt data field = Inr i \<longleftrightarrow> (\<exists>f. map_of data field = Some (JNum f) \<and> i = int_of_float f)"
  by (auto simp: ReadInt_def split: option.splits jval.splits)

lemma ReadObject_Inr: "ReadObject data field = Inr m \<longleftrightarrow> map_of data field = Some (JObj m)"
  by (auto simp: ReadObject_def split: option.splits jval.splits)

lemma ReadArray_Inr: "ReadArray data field = Inr vs \<longleftrightarrow> map_of data field = Some (JArr vs)"
  by (auto simp: ReadArray_def split: option.splits jval.splits)

lemmas reader_simps = ReadString_Inr ReadInt_Inr ReadObject_Inr ReadArray_Inr

lemma ReadIntInString_Inr:
  "ReadIntInString data field bitSize lo hi = Inr i \<longleftrightarrow>
     (\<exists>s. map_of data field = Some (JStr s) \<and> ParseInt s 0 bitSize = (i, None) \<and> lo \<le> i \<and> i \<le> hi)"
  by (auto simp: ReadIntInString_def split: option.splits jval.splits prod.splits if_splits)

lemma ReadFloatInString_Inr:
  "ReadFloatInString data field lo hi = Inr f \<longleftrightarrow>
     (\<exists>s. map_of data field = Some (JStr s) \<and> ParseFloat s = Inr f
        \<and> \<not> float_less f lo \<and> \<not> float_less hi f)"
  by (auto simp: ReadFloatInString_def split: option.splits jval.splits sum.splits if_splits)

end
