(* ===== verification/Messages.thy ===== *)
theory Messages
  imports Readutil
begin

text \<open>
  src/messages.go and src/version.go: the messages of the metaprotocol.  Every struct is a
  record; a struct that is sent has an encoder that lists its fields under their JSON names in
  declaration order; a message that is received has a reader that checks it field by field in
  the order of the code and fails with the text of the first error.

  \<open>PlayersInfo\<close> is a slice of pointers in the code: the information of a player is shared
  between the messages that mention it and is dereferenced only when a message is encoded.  A
  pointer is a \<open>pref\<close>, and the encoders take the store it points into.
\<close>

section \<open>Version\<close>

definition VersionMajor :: int where "VersionMajor = 2"
definition VersionMinor :: int where "VersionMinor = 0"
definition VersionPatch :: int where "VersionPatch = 0"

definition Version :: string where
  "Version = show_int VersionMajor @ ''.'' @ show_int VersionMinor @ ''.'' @ show_int VersionPatch"

section \<open>Types\<close>

record MessageLogin =
  login_nickname :: string
  login_role :: string
  login_version :: string

record MessageLoginAck =
  lack_MessageType :: string
  lack_MetaprotocolVersion :: string

record PlayerInformation =
  pi_PlayerID :: int
  pi_Nickname :: string
  pi_RemoteAddress :: string
  pi_IsConnected :: bool

type_synonym pref = nat

record MessageGameStarts =
  gst_MessageType :: string
  gst_PlayerID :: int
  gst_NbPlayers :: int
  gst_NbSpecialPlayers :: int
  gst_NbTurnsMax :: int
  gst_DelayFirstTurn :: float64
  gst_DelayTurns :: float64
  gst_InitialGameState :: jobject
  gst_PlayersInfo :: "pref list"

record MessageGameEnds =
  gen_MessageType :: string
  gen_WinnerPlayerID :: int
  gen_GameState :: jobject

record MessageTurn =
  turn_MessageType :: string
  turn_TurnNumber :: int
  turn_GameState :: jobject
  turn_PlayersInfo :: "pref list"

record MessageTurnAck =
  tack_turnNumber :: int
  tack_actions :: "jval list"

record MessageDoInit =
  di_MessageType :: string
  di_NbPlayers :: int
  di_NbSpecialPlayers :: int
  di_NbTurnsMax :: int

record MessageDoInitAck =
  dia_InitialGameState :: jobject

record MessageDoTurnPlayerAction =
  pa_PlayerID :: int
  pa_TurnNumber :: int
  pa_Actions :: "jval list"

record MessageDoTurn =
  dt_MessageType :: string
  dt_PlayerActions :: "MessageDoTurnPlayerAction list"

record MessageDoTurnAck =
  dta_WinnerPlayerID :: int
  dta_GameState :: jobject

record MessageKick =
  kick_MessageType :: string
  kick_KickReason :: string

section \<open>Encoders\<close>

definition MessageLoginAck_json :: "MessageLoginAck \<Rightarrow> jval" where
  "MessageLoginAck_json m = JStruct
     [(''message_type'', JStr (lack_MessageType m)),
      (''metaprotocol_version'', JStr (lack_MetaprotocolVersion m))]"

definition PlayerInformation_json :: "PlayerInformation \<Rightarrow> jval" where
  "PlayerInformation_json p = JStruct
     [(''player_id'', JInt (pi_PlayerID p)),
      (''nickname'', JStr (pi_Nickname p)),
      (''remote_address'', JStr (pi_RemoteAddress p)),
      (''is_connected'', JBool (pi_IsConnected p))]"

definition MessageGameStarts_json ::
  "(pref \<Rightarrow> PlayerInformation) \<Rightarrow> MessageGameStarts \<Rightarrow> jval" where
  "MessageGameStarts_json infos m = JStruct
     [(''message_type'', JStr (gst_MessageType m)),
      (''player_id'', JInt (gst_PlayerID m)),
      (''nb_players'', JInt (gst_NbPlayers m)),
      (''nb_special_players'', JInt (gst_NbSpecialPlayers m)),
      (''nb_turns_max'', JInt (gst_NbTurnsMax m)),
      (''milliseconds_before_first_turn'', JNum (gst_DelayFirstTurn m)),
      (''milliseconds_between_turns'', JNum (gst_DelayTurns m)),
      (''initial_game_state'', JObj (gst_InitialGameState m)),
      (''players_info'', JArr (map (PlayerInformation_json \<circ> infos) (gst_PlayersInfo m)))]"

definition MessageGameEnds_json :: "MessageGameEnds \<Rightarrow> jval" where
  "MessageGameEnds_json m = JStruct
     [(''message_type'', JStr (gen_MessageType m)),
      (''winner_player_id'', JInt (gen_WinnerPlayerID m)),
      (''game_state'', JObj (gen_GameState m))]"

definition MessageTurn_json :: "(pref \<Rightarrow> PlayerInformation) \<Rightarrow> MessageTurn \<Rightarrow> jval" where
  "MessageTurn_json infos m = JStruct
     [(''message_type'', JStr (turn_MessageType m)),
      (''turn_number'', JInt (turn_TurnNumber m)),
      (''game_state'', JObj (turn_GameState m)),
      (''players_info'', JArr (map (PlayerInformation_json \<circ> infos) (turn_PlayersInfo m)))]"

definition MessageDoInit_json :: "MessageDoInit \<Rightarrow> jval" where
  "MessageDoInit_json m = JStruct
     [(''message_type'', JStr (di_MessageType m)),
      (''nb_players'', JInt (di_NbPlayers m)),
      (''nb_special_players'', JInt (di_NbSpecialPlayers m)),
      (''nb_turns_max'', JInt (di_NbTurnsMax m))]"

definition MessageDoTurnPlayerAction_json :: "MessageDoTurnPlayerAction \<Rightarrow> jval" where
  "MessageDoTurnPlayerAction_json a = JStruct
     [(''player_id'', JInt (pa_PlayerID a)),
      (''turn_number'', JInt (pa_TurnNumber a)),
      (''actions'', JArr (pa_Actions a))]"

definition MessageDoTurn_json :: "MessageDoTurn \<Rightarrow> jval" where
  "MessageDoTurn_json m = JStruct
     [(''message_type'', JStr (dt_MessageType m)),
      (''player_actions'', JArr (map MessageDoTurnPlayerAction_json (dt_PlayerActions m)))]"

definition MessageKick_json :: "MessageKick \<Rightarrow> jval" where
  "MessageKick_json m = JStruct
     [(''message_type'', JStr (kick_MessageType m)),
      (''kick_reason'', JStr (kick_KickReason m))]"

section \<open>Readers\<close>

definition checkMessageType :: "jobject \<Rightarrow> string \<Rightarrow> unit result" where
  "checkMessageType data expectedMessageType = (case ReadString data ''message_type'' of
      Inl err \<Rightarrow> Inl err
    | Inr messageType \<Rightarrow>
        if messageType \<noteq> expectedMessageType
        then Inl (''Received '' @ quoted messageType @ '' message type, while ''
                  @ expectedMessageType @ '' was expected'')
        else Inr ())"

text \<open>The expressions \<open>\A\S{1,10}\z\<close> and \<open>\A(?P<Major>\d+)\.(?P<Minor>\d+)\.(?P<Patch>\d+)\z\<close>.\<close>

definition nickname_re :: regex where
  "nickname_re = RRep NonSpace 1 (Some 10)"

definition version_re :: regex where
  "version_re = RSeq (RGroup ''Major'' (RRep Digit 1 None)) (RSeq (lit ''.'')
     (RSeq (RGroup ''Minor'' (RRep Digit 1 None)) (RSeq (lit ''.'')
       (RGroup ''Patch'' (RRep Digit 1 None)))))"

definition valid_roles :: "string list" where
  "valid_roles = [''player'', ''special player'', ''visualization'', ''game logic'']"

definition readLoginMessage :: "jobject \<Rightarrow> MessageLogin result" where
  "readLoginMessage data = (case checkMessageType data ''LOGIN'' of
      Inl err \<Rightarrow> Inl err
    | Inr _ \<Rightarrow> (case ReadString data ''nickname'' of
          Inl err \<Rightarrow> Inl err
        | Inr nickname \<Rightarrow>
            if \<not> MatchString nickname_re nickname then Inl ''Invalid nickname''
            else (case ReadString data ''role'' of
                Inl err \<Rightarrow> Inl err
              | Inr role \<Rightarrow>
                  if role \<notin> set valid_roles then Inl (''Invalid role '' @ quoted role)
                  else (case ReadString data ''metaprotocol_version'' of
                      Inl err \<Rightarrow> Inl err
                    | Inr version \<Rightarrow> (case FindSubmatch version_re version of
                          None \<Rightarrow> Inl ''Invalid metaprotocol version: Not MAJOR.MINOR.PATCH''
                        | Some groups \<Rightarrow>
                            if map_option Atoi_value (map_of groups ''Major'') \<noteq> Some VersionMajor
                            then Inl (''Metaprotocol version mismatch. Major version must be identical but client asks for ''
                                   @ quoted version @ '' while netorcai uses '' @ quoted Version @ ''.'')
                            else Inr \<lparr>login_nickname = nickname, login_role = role,
                                      login_version = version\<rparr>)))))"

definition readTurnAckMessage :: "jobject \<Rightarrow> int \<Rightarrow> MessageTurnAck result" where
  "readTurnAckMessage data expectedTurnNumber = (case checkMessageType data ''TURN_ACK'' of
      Inl err \<Rightarrow> Inl err
    | Inr _ \<Rightarrow> (case ReadInt data ''turn_number'' of
          Inl err \<Rightarrow> Inl err
        | Inr turnNumber \<Rightarrow>
            if turnNumber \<noteq> expectedTurnNumber
            then Inl (''Invalid value (turn_number='' @ show_int turnNumber @ ''): expecting ''
                      @ show_int expectedTurnNumber)
            else (case ReadArray data ''actions'' of
                Inl err \<Rightarrow> Inl err
              | Inr actions \<Rightarrow>
                  Inr \<lparr>tack_turnNumber = turnNumber, tack_actions = actions\<rparr>)))"

definition readDoInitAckMessage :: "jobject \<Rightarrow> MessageDoInitAck result" where
  "readDoInitAckMessage data = (case checkMessageType data ''DO_INIT_ACK'' of
      Inl err \<Rightarrow> Inl err
    | Inr _ \<Rightarrow> (case ReadObject data ''initial_game_state'' of
          Inl err \<Rightarrow> Inl err
        | Inr gameState \<Rightarrow> (case ReadObject gameState ''all_clients'' of
              Inl err \<Rightarrow> Inl err
            | Inr s \<Rightarrow> Inr \<lparr>dia_InitialGameState = s\<rparr>)))"

definition readDoTurnAckMessage :: "jobject \<Rightarrow> int \<Rightarrow> MessageDoTurnAck result" where
  "readDoTurnAckMessage data nbPlayers = (case checkMessageType data ''DO_TURN_ACK'' of
      Inl err \<Rightarrow> Inl err
    | Inr _ \<Rightarrow> (case ReadInt data ''winner_player_id'' of
          Inl err \<Rightarrow> Inl err
        | Inr winner \<Rightarrow>
            if winner < - 1 \<or> nbPlayers \<le> winner
            then Inl (''Invalid winner_player_id: Not in [-1, '' @ show_int nbPlayers @ ''['')
            else (case ReadObject data ''game_state'' of
                Inl err \<Rightarrow> Inl err
              | Inr gameState \<Rightarrow> (case ReadObject gameState ''all_clients'' of
                    Inl err \<Rightarrow> Inl err
                  | Inr s \<Rightarrow> Inr \<lparr>dta_WinnerPlayerID = winner, dta_GameState = s\<rparr>))))"

section \<open>When the readers accept\<close>

lemma checkMessageType_Inr:
  "checkMessageType data t = Inr u \<longleftrightarrow> map_of data ''message_type'' = Some (JStr t)"
  by (auto simp: checkMessageType_def ReadString_def split: option.splits jval.splits)

definition digits :: "string \<Rightarrow> bool" where
  "digits s \<longleftrightarrow> s \<noteq> [] \<and> list_all is_digit s"

lemma digit_piece:
  assumes "set p \<subseteq> set (runes s)" "Suc 0 \<le> length p" "\<forall>x \<in> set p. in_class Digit (fst x)"
  shows "digits (text_bytes p)"
proof -
  have "text_bytes p = map (char_of \<circ> fst) p"
    using assms by (intro text_bytes_ascii) auto
  moreover have "is_digit (char_of (fst x))" if "x \<in> set p" for x
    using assms(3) that by (auto simp: is_digit_def)
  ultimately show ?thesis
    using assms(2) by (auto simp: digits_def list_all_iff)
qed

lemma version_re_matchE:
  assumes "(p, r, g) \<in> set (matches version_re t)"
  obtains a d1 b d2 c where "p = a @ d1 @ b @ d2 @ c" "map fst d1 = [46]" "map fst d2 = [46]"
    "Suc 0 \<le> length a" "Suc 0 \<le> length b" "Suc 0 \<le> length c"
    "\<forall>x \<in> set (a @ b @ c). in_class Digit (fst x)"
    "g = [(''Major'', text_bytes a), (''Minor'', text_bytes b), (''Patch'', text_bytes c)]"
proof -
  from assms obtain a r1 g1 p2 g2 where
    a: "(a, r1, g1) \<in> set (matches (RGroup ''Major'' (RRep Digit 1 None)) t)"
      "(p2, r, g2) \<in> set (matches (RSeq (lit ''.'')
          (RSeq (RGroup ''Minor'' (RRep Digit 1 None)) (RSeq (lit ''.'')
            (RGroup ''Patch'' (RRep Digit 1 None))))) r1)"
    and p: "p = a @ p2" "g = g1 @ g2"
    unfolding version_re_def matches_seq [of p] by blast
  from a(2) obtain d1 r2 g3 p3 g4 where
    d1: "(d1, r2, g3) \<in> set (matches (lit ''.'') r1)"
      "(p3, r, g4) \<in> set (matches (RSeq (RGroup ''Minor'' (RRep Digit 1 None))
          (RSeq (lit ''.'') (RGroup ''Patch'' (RRep Digit 1 None)))) r2)"
    and p2: "p2 = d1 @ p3" "g2 = g3 @ g4"
    unfolding matches_seq [of p2] by blast
  from d1(2) obtain b r3 g5 p4 g6 where
    b: "(b, r3, g5) \<in> set (matches (RGroup ''Minor'' (RRep Digit 1 None)) r2)"
      "(p4, r, g6) \<in> set (matches (RSeq (lit ''.'') (RGroup ''Patch'' (RRep Digit 1 None))) r3)"
    and p3: "p3 = b @ p4" "g4 = g5 @ g6"
    unfolding matches_seq [of p3] by blast
  from b(2) obtain d2 r4 g7 c g8 where
    c: "(d2, r4, g7) \<in> set (matches (lit ''.'') r3)"
      "(c, r, g8) \<in> set (matches (RGroup ''Patch'' (RRep Digit 1 None)) r4)"
    and p4: "p4 = d2 @ c" "g6 = g7 @ g8"
    unfolding matches_seq [of p4] by blast
  note facts = a(1) d1(1) b(1) c
  show thesis
    by (rule that [of a d1 b d2 c])
      (use facts [unfolded matches_group matches_plus matches_lit] p p2 p3 p4
        in \<open>simp_all del: in_class.simps add: ball_Un\<close>)
qed

lemma FindSubmatch_version:
  assumes "FindSubmatch version_re v = Some g"
  obtains a b c where "v = a @ ''.'' @ b @ ''.'' @ c" "digits a" "digits b" "digits c"
    "g = [(''Major'', a), (''Minor'', b), (''Patch'', c)]"
proof -
  from FindSubmatch_Some [OF assms] obtain a d1 b d2 c where
    m: "runes v = a @ d1 @ b @ d2 @ c" "map fst d1 = [46]" "map fst d2 = [46]"
      "Suc 0 \<le> length a" "Suc 0 \<le> length b" "Suc 0 \<le> length c"
      "\<forall>x \<in> set (a @ b @ c). in_class Digit (fst x)"
      "g = [(''Major'', text_bytes a), (''Minor'', text_bytes b), (''Patch'', text_bytes c)]"
    by (rule version_re_matchE)
  have sub: "set a \<subseteq> set (runes v)" "set b \<subseteq> set (runes v)" "set c \<subseteq> set (runes v)"
    "set d1 \<subseteq> set (runes v)" "set d2 \<subseteq> set (runes v)"
    using m(1) by auto
  have dot: "text_bytes d1 = ''.''" "text_bytes d2 = ''.''"
    using m(2,3) text_bytes_ascii [OF sub(4)] text_bytes_ascii [OF sub(5)]
    by (auto simp: map_eq_Cons_conv char_of_def bit_0)
  have "text_bytes (runes v) = text_bytes (a @ d1 @ b @ d2 @ c)" by (simp only: m(1))
  then have "v = text_bytes a @ ''.'' @ text_bytes b @ ''.'' @ text_bytes c"
    by (simp add: dot)
  moreover have "digits (text_bytes a)" "digits (text_bytes b)" "digits (text_bytes c)"
    using m(4-7) sub by (auto intro!: digit_piece simp del: in_class.simps)
  ultimately show thesis using that m(8) by blast
qed

lemma version_re_accepts:
  assumes "digits a" "digits b" "digits c"
  shows "FindSubmatch version_re (a @ ''.'' @ b @ ''.'' @ c) \<noteq> None"
proof -
  let ?r = "map (\<lambda>c. (of_char c :: nat, [c]))"
  have ascii: "of_char x < (128::nat)" if "x \<in> set (a @ ''.'' @ b @ ''.'' @ c)" for x
    using assms that by (auto simp: digits_def list_all_iff is_digit_def)
  have r: "runes (a @ ''.'' @ b @ ''.'' @ c) = ?r a @ ?r ''.'' @ ?r b @ ?r ''.'' @ ?r c"
    by (subst runes_map_ascii) (use ascii in auto)
  have grp: "(?r x, y, [(n, text_bytes (?r x))])
      \<in> set (matches (RGroup n (RRep Digit 1 None)) (?r x @ y))" if "digits x" for n x y
    unfolding matches_group matches_plus
    using that by (auto simp: digits_def list_all_iff is_digit_def Suc_le_eq)
  have dot: "(?r ''.'', y, []) \<in> set (matches (lit ''.'') (?r ''.'' @ y))" for y
    unfolding matches_lit by simp
  have "\<exists>p g. (p, [], g) \<in> set (matches version_re (?r a @ ?r ''.'' @ ?r b @ ?r ''.'' @ ?r c @ []))"
    unfolding version_re_def
    by (rule exI, rule exI, rule matches_seqI [OF grp [OF assms(1)] matches_seqI [OF dot
        matches_seqI [OF grp [OF assms(2)] matches_seqI [OF dot grp [OF assms(3)]]]]])
  then show ?thesis unfolding FindSubmatch_None r by simp
qed

text \<open>What the version check of a LOGIN accepts.\<close>

definition version_ok :: "string \<Rightarrow> bool" where
  "version_ok v \<longleftrightarrow> (\<exists>a b c. v = a @ ''.'' @ b @ ''.'' @ c
     \<and> digits a \<and> digits b \<and> digits c \<and> Atoi_value a = VersionMajor)"

lemma version_split_unique:
  assumes "a @ ''.'' @ r = a' @ ''.'' @ r'" "digits a" "digits a'"
  shows "a = a'"
proof -
  have "takeWhile is_digit (a @ ''.'' @ r) = a" "takeWhile is_digit (a' @ ''.'' @ r') = a'"
    using assms(2,3) by (auto simp: digits_def list_all_iff is_digit_def takeWhile_append2)
  with assms(1) show ?thesis by metis
qed

lemma version_check_iff:
  "(\<exists>g. FindSubmatch version_re v = Some g
      \<and> map_option Atoi_value (map_of g ''Major'') = Some VersionMajor) \<longleftrightarrow> version_ok v"
proof
  assume "\<exists>g. FindSubmatch version_re v = Some g
      \<and> map_option Atoi_value (map_of g ''Major'') = Some VersionMajor"
  then show "version_ok v"
  proof (elim exE conjE FindSubmatch_version)
    fix g a b c
    assume "map_option Atoi_value (map_of g ''Major'') = Some VersionMajor"
      "v = a @ ''.'' @ b @ ''.'' @ c" "digits a" "digits b" "digits c"
      "g = [(''Major'', a), (''Minor'', b), (''Patch'', c)]"
    then show ?thesis unfolding version_ok_def by (intro exI [of _ a] exI [of _ b] exI [of _ c]) simp
  qed
next
  assume "version_ok v"
  then obtain a b c where v: "v = a @ ''.'' @ b @ ''.'' @ c" "digits a" "digits b" "digits c"
      "Atoi_value a = VersionMajor" by (auto simp: version_ok_def)
  with version_re_accepts obtain g where g: "FindSubmatch version_re v = Some g" by blast
  then obtain a' b' c' where v': "v = a' @ ''.'' @ b' @ ''.'' @ c'" "digits a'"
      "g = [(''Major'', a'), (''Minor'', b'), (''Patch'', c')]"
    by (rule FindSubmatch_version)
  have "a = a'" using version_split_unique v v' by metis
  with g v v' show "\<exists>g. FindSubmatch version_re v = Some g
      \<and> map_option Atoi_value (map_of g ''Major'') = Some VersionMajor" by simp
qed

definition nickname_ok :: "string \<Rightarrow> bool" where
  "nickname_ok s \<longleftrightarrow> 1 \<le> length (runes s) \<and> length (runes s) \<le> 10
     \<and> list_all (\<lambda>x. fst x \<notin> {9, 10, 12, 13, 32}) (runes s)"

lemma nickname_re_iff: "MatchString nickname_re s \<longleftrightarrow> nickname_ok s"
  by (auto simp: nickname_re_def nickname_ok_def MatchString_rep list_all_iff)

lemma readLoginMessage_iff:
  "readLoginMessage data = Inr m \<longleftrightarrow>
     map_of data ''message_type'' = Some (JStr ''LOGIN'')
     \<and> map_of data ''nickname'' = Some (JStr (login_nickname m)) \<and> nickname_ok (login_nickname m)
     \<and> map_of data ''role'' = Some (JStr (login_role m)) \<and> login_role m \<in> set valid_roles
     \<and> map_of data ''metaprotocol_version'' = Some (JStr (login_version m))
     \<and> version_ok (login_version m)"
proof -
  have "readLoginMessage data = Inr m \<longleftrightarrow>
     checkMessageType data ''LOGIN'' = Inr ()
     \<and> ReadString data ''nickname'' = Inr (login_nickname m)
     \<and> MatchString nickname_re (login_nickname m)
     \<and> ReadString data ''role'' = Inr (login_role m) \<and> login_role m \<in> set valid_roles
     \<and> ReadString data ''metaprotocol_version'' = Inr (login_version m)
     \<and> (\<exists>g. FindSubmatch version_re (login_version m) = Some g
          \<and> map_option Atoi_value (map_of g ''Major'') = Some VersionMajor)"
    unfolding readLoginMessage_def
    by (cases m) (auto split: sum.splits option.splits if_splits)
  then show ?thesis
    by (simp only: checkMessageType_Inr ReadString_Inr nickname_re_iff version_check_iff)
qed

section \<open>Properties\<close>

text \<open>
  C24. A LOGIN message is accepted exactly when it has the type LOGIN, a nickname of one to ten
  characters none of which is an ASCII space, one of the four roles, and a version of the form
  MAJOR.MINOR.PATCH whose major number is that of the program; the accepted message carries the
  three fields unchanged.
\<close>

theorem readLoginMessage_accepts:
  "readLoginMessage data = Inr m \<longleftrightarrow>
     map_of data ''message_type'' = Some (JStr ''LOGIN'')
     \<and> map_of data ''nickname'' = Some (JStr (login_nickname m)) \<and> nickname_ok (login_nickname m)
     \<and> map_of data ''role'' = Some (JStr (login_role m)) \<and> login_role m \<in> set valid_roles
     \<and> map_of data ''metaprotocol_version'' = Some (JStr (login_version m))
     \<and> version_ok (login_version m)"
  by (rule readLoginMessage_iff)

text \<open>
  C25. A TURN_ACK is accepted exactly when it has that type, its turn number, truncated to an
  integer, is the one expected, and its actions are an array; the actions are passed on unchanged.
\<close>

theorem readTurnAckMessage_accepts:
  "readTurnAckMessage data expected = Inr m \<longleftrightarrow>
     map_of data ''message_type'' = Some (JStr ''TURN_ACK'')
     \<and> (\<exists>f. map_of data ''turn_number'' = Some (JNum f) \<and> int_of_float f = expected)
     \<and> map_of data ''actions'' = Some (JArr (tack_actions m)) \<and> tack_turnNumber m = expected"
proof -
  have "readTurnAckMessage data expected = Inr m \<longleftrightarrow>
     checkMessageType data ''TURN_ACK'' = Inr () \<and> ReadInt data ''turn_number'' = Inr expected
     \<and> ReadArray data ''actions'' = Inr (tack_actions m) \<and> tack_turnNumber m = expected"
    unfolding readTurnAckMessage_def by (cases m) (auto split: sum.splits if_splits)
  then show ?thesis
    by (auto simp: checkMessageType_Inr ReadInt_Inr ReadArray_Inr)
qed

lemma readDoTurnAckMessage_Inr:
  "readDoTurnAckMessage data nbPlayers = Inr m \<longleftrightarrow>
     map_of data ''message_type'' = Some (JStr ''DO_TURN_ACK'')
     \<and> (\<exists>f. map_of data ''winner_player_id'' = Some (JNum f)
          \<and> int_of_float f = dta_WinnerPlayerID m)
     \<and> - 1 \<le> dta_WinnerPlayerID m \<and> dta_WinnerPlayerID m < nbPlayers
     \<and> (\<exists>g. map_of data ''game_state'' = Some (JObj g)
          \<and> map_of g ''all_clients'' = Some (JObj (dta_GameState m)))"
proof -
  have "readDoTurnAckMessage data nbPlayers = Inr m \<longleftrightarrow>
     checkMessageType data ''DO_TURN_ACK'' = Inr ()
     \<and> ReadInt data ''winner_player_id'' = Inr (dta_WinnerPlayerID m)
     \<and> - 1 \<le> dta_WinnerPlayerID m \<and> dta_WinnerPlayerID m < nbPlayers
     \<and> (\<exists>g. ReadObject data ''game_state'' = Inr g
          \<and> ReadObject g ''all_clients'' = Inr (dta_GameState m))"
    unfolding readDoTurnAckMessage_def by (cases m) (auto split: sum.splits if_splits)
  then show ?thesis
    by (auto simp: checkMessageType_Inr ReadInt_Inr ReadObject_Inr)
qed

lemma readDoInitAckMessage_Inr:
  "readDoInitAckMessage data = Inr m \<longleftrightarrow>
     map_of data ''message_type'' = Some (JStr ''DO_INIT_ACK'')
     \<and> (\<exists>g. map_of data ''initial_game_state'' = Some (JObj g)
          \<and> map_of g ''all_clients'' = Some (JObj (dia_InitialGameState m)))"
proof -
  have "readDoInitAckMessage data = Inr m \<longleftrightarrow>
     checkMessageType data ''DO_INIT_ACK'' = Inr ()
     \<and> (\<exists>g. ReadObject data ''initial_game_state'' = Inr g
          \<and> ReadObject g ''all_clients'' = Inr (dia_InitialGameState m))"
    unfolding readDoInitAckMessage_def by (cases m) (auto split: sum.splits)
  then show ?thesis by (auto simp: checkMessageType_Inr ReadObject_Inr)
qed

end
