(* ===== verification/Network.thy ===== *)
theory Network
  imports Messages
begin

text \<open>
  src/network.go: the framing of messages on a TCP connection.  A message is a 32-bit
  little-endian size followed by that many bytes.  The reading side is \<open>io.ReadFull\<close> on the
  bytes the peer sends before its side of the connection ends; the writing side is a
  \<open>bufio.Writer\<close> of 4096 bytes over a connection that may stop taking bytes.  The state of a
  client (type \<open>Client\<close>) is a record; its field \<open>cl_outbox\<close> is a history variable: the messages
  for which \<open>sendMessage\<close> reported success, each with its encoded content.
\<close>

unbundle bit_operations_syntax

type_synonym u32 = "32 word"

section \<open>encoding/binary, little endian\<close>

definition Uint32 :: "byte list \<Rightarrow> u32" where
  "Uint32 b = ucast (b ! 0) OR push_bit 8 (ucast (b ! 1)) OR push_bit 16 (ucast (b ! 2))
     OR push_bit 24 (ucast (b ! 3))"

definition PutUint32 :: "u32 \<Rightarrow> byte list" where
  "PutUint32 v = [ucast v, ucast (drop_bit 8 v), ucast (drop_bit 16 v), ucast (drop_bit 24 v)]"

section \<open>The reading side\<close>

text \<open>
  What a reader will still receive: the bytes, and how the stream ends (the peer closes it, or
  reading fails with an error).
\<close>

datatype read_end = EOF | ReadFailed string

record input =
  in_bytes :: "byte list"
  in_end :: read_end

text \<open>\<open>io.ReadFull\<close> into a buffer of \<open>n\<close> bytes.\<close>

definition ReadFull :: "nat \<Rightarrow> input \<Rightarrow> string + byte list \<times> input" where
  "ReadFull n st =
     (if n \<le> length (in_bytes st)
      then Inr (take n (in_bytes st), st\<lparr>in_bytes := drop n (in_bytes st)\<rparr>)
      else Inl (case in_end st of
             EOF \<Rightarrow> if in_bytes st = [] then ''EOF'' else ''unexpected EOF''
           | ReadFailed e \<Rightarrow> e))"

record ClientMessage =
  msg_content :: jobject
  msg_err :: "string option"

definition failed_message :: "string \<Rightarrow> ClientMessage" where
  "failed_message e = \<lparr>msg_content = [], msg_err = Some e\<rparr>"

definition good_message :: "jobject \<Rightarrow> ClientMessage" where
  "good_message m = \<lparr>msg_content = m, msg_err = None\<rparr>"

text \<open>
  \<open>readClientMessage\<close>: the message put on \<open>incomingMessages\<close>, whether the caller goes on
  reading, and the rest of the stream.
\<close>

definition readClientMessage ::
  "input \<Rightarrow> u32 \<Rightarrow> (u32 \<Rightarrow> string) \<Rightarrow> ClientMessage \<times> bool \<times> input" where
  "readClientMessage st maximumAllowedSize errorOnTooBigMessage = (case ReadFull 4 st of
      Inl err \<Rightarrow> (failed_message (''Remote endpoint closed? Read error: '' @ err), False, st)
    | Inr (contentSizeBuf, st1) \<Rightarrow>
        (let contentSize = Uint32 contentSizeBuf in
         if maximumAllowedSize < contentSize
         then (failed_message (errorOnTooBigMessage contentSize), False, st1)
         else (case ReadFull (unat contentSize) st1 of
             Inl err \<Rightarrow> (failed_message (''Remote endpoint closed? Read error: '' @ err), False, st1)
           | Inr (contentBuf, st2) \<Rightarrow> (case Unmarshal contentBuf of
                 None \<Rightarrow> (failed_message ''Non-JSON message received'', False, st2)
               | Some m \<Rightarrow> (good_message m, True, st2)))))"

definition first_too_big :: "u32 \<Rightarrow> string" where
  "first_too_big n = ''Received message size of first message is too big: ''
     @ show_nat (unat n) @ '' does not fit in 10 bits''"

definition later_too_big :: "u32 \<Rightarrow> string" where
  "later_too_big n = ''Received message size is too big: ''
     @ show_nat (unat n) @ '' does not fit in 24 bits''"

lemma ReadFull_Inr:
  "ReadFull n st = Inr (bs, st') \<longleftrightarrow> n \<le> length (in_bytes st) \<and> bs = take n (in_bytes st)
     \<and> st' = st\<lparr>in_bytes := drop n (in_bytes st)\<rparr>"
  by (auto simp: ReadFull_def)

lemma readClientMessage_shrinks:
  "readClientMessage st mx f = (m, True, st') \<Longrightarrow> length (in_bytes st') < length (in_bytes st)"
  by (auto simp: readClientMessage_def Let_def ReadFull_Inr
      split: sum.splits prod.splits if_splits option.splits)

text \<open>The loop over the messages after the first: it stops with the first message that fails.\<close>

function read_later_messages :: "input \<Rightarrow> ClientMessage list" where
  "read_later_messages st = (case readClientMessage st 16777215 later_too_big of
     (m, ok, st') \<Rightarrow> if ok then m # read_later_messages st' else [m])"
  by pat_completeness auto
termination
  by (relation "measure (length \<circ> in_bytes)") (auto dest!: sym [of "(_, _, _)"] readClientMessage_shrinks)

declare read_later_messages.simps [simp del]

text \<open>The messages that \<open>readClientMessages\<close> puts on \<open>incomingMessages\<close>, in order.\<close>

definition readClientMessages :: "input \<Rightarrow> ClientMessage list" where
  "readClientMessages st = (case readClientMessage st 1023 first_too_big of
     (m, ok, st') \<Rightarrow> if ok then m # read_later_messages st' else [m])"

section \<open>The writing side\<close>

text \<open>
  A connection takes bytes: \<open>None\<close> if it takes all that is written, \<open>Some (n, e)\<close> if it takes
  \<open>n\<close> more bytes and then fails with the error \<open>e\<close>.
\<close>

record conn_out =
  co_accepted :: "byte list"
  co_limit :: "(nat \<times> string) option"

definition conn_write :: "byte list \<Rightarrow> conn_out \<Rightarrow> nat \<times> string option \<times> conn_out" where
  "conn_write p c = (case co_limit c of
      None \<Rightarrow> (length p, None, c\<lparr>co_accepted := co_accepted c @ p\<rparr>)
    | Some (n, e) \<Rightarrow>
        if length p \<le> n
        then (length p, None, c\<lparr>co_accepted := co_accepted c @ p, co_limit := Some (n - length p, e)\<rparr>)
        else (n, Some e, c\<lparr>co_accepted := co_accepted c @ take n p, co_limit := Some (0, e)\<rparr>))"

record bufio_writer =
  w_buf :: "byte list"
  w_err :: "string option"
  w_conn :: conn_out

definition bufSize :: nat where "bufSize = 4096"

definition Flush :: "bufio_writer \<Rightarrow> bufio_writer" where
  "Flush w =
     (if w_err w \<noteq> None \<or> w_buf w = [] then w
      else (case conn_write (w_buf w) (w_conn w) of
          (n, Some e, c) \<Rightarrow> w\<lparr>w_buf := drop n (w_buf w), w_err := Some e, w_conn := c\<rparr>
        | (n, None, c) \<Rightarrow> w\<lparr>w_buf := [], w_conn := c\<rparr>))"

text \<open>
  The loop of \<open>Writer.Write\<close>: while the data do not fit, write them directly when nothing is
  buffered, or else fill the buffer and flush it.  Its result is the data that fit.
\<close>

function write_loop :: "byte list \<Rightarrow> bufio_writer \<Rightarrow> byte list \<times> bufio_writer" where
  "write_loop p w =
     (if bufSize - length (w_buf w) < length p \<and> w_err w = None then
        (if w_buf w = [] then
           (case conn_write p (w_conn w) of
              (n, e, c) \<Rightarrow> write_loop (drop n p) (w\<lparr>w_conn := c, w_err := e\<rparr>))
         else
           (let n = bufSize - length (w_buf w)
            in write_loop (drop n p) (Flush (w\<lparr>w_buf := w_buf w @ take n p\<rparr>))))
      else (p, w))"
  by pat_completeness auto
termination
proof (relation "measure (\<lambda>(p, w). if w_err w = None
    then 2 * length p + (if w_buf w = [] then 0 else 1) else 0)", goal_cases)
  case 2
  then show ?case
    by (auto simp: conn_write_def split: option.splits if_splits)
next
  case 3
  then show ?case
    by (auto simp: Flush_def split: option.splits prod.splits)
qed simp

declare write_loop.simps [simp del]

definition Write :: "byte list \<Rightarrow> bufio_writer \<Rightarrow> string option \<times> bufio_writer" where
  "Write p w = (case write_loop p w of
     (p', w') \<Rightarrow> (case w_err w' of
         Some e \<Rightarrow> (Some e, w')
       | None \<Rightarrow> (None, w'\<lparr>w_buf := w_buf w' @ p'\<rparr>)))"

definition WriteByte :: "byte \<Rightarrow> bufio_writer \<Rightarrow> string option \<times> bufio_writer" where
  "WriteByte b w =
     (if w_err w \<noteq> None then (w_err w, w)
      else (let w1 = (if bufSize \<le> length (w_buf w) then Flush w else w)
            in case w_err w1 of
                Some e \<Rightarrow> (Some e, w1)
              | None \<Rightarrow> (None, w1\<lparr>w_buf := w_buf w1 @ [b]\<rparr>)))"

definition write_error :: "string \<Rightarrow> string option" where
  "write_error e = Some (''Remote endpoint closed? Write error: '' @ e)"

text \<open>
  The body that \<open>sendMessage\<close> and the client library's \<open>SendBytes\<close> have in common once the size
  is accepted: size, content, line feed, flush.  The error of the flush is not looked at.
\<close>

definition write_frame :: "bufio_writer \<Rightarrow> byte list \<Rightarrow> string option \<times> bufio_writer" where
  "write_frame w content = (case Write (PutUint32 (word_of_nat (length content) + 1)) w of
      (Some e, w1) \<Rightarrow> (write_error e, w1)
    | (None, w1) \<Rightarrow> (case Write content w1 of
          (Some e, w2) \<Rightarrow> (write_error e, w2)
        | (None, w2) \<Rightarrow> (case WriteByte 10 w2 of
              (Some e, w3) \<Rightarrow> (write_error e, w3)
            | (None, w3) \<Rightarrow> (None, Flush w3))))"

section \<open>Clients\<close>

datatype client_state =
    CLIENT_UNLOGGED | CLIENT_LOGGED | CLIENT_READY | CLIENT_THINKING | CLIENT_KICKED

datatype out_msg =
    OLoginAck MessageLoginAck
  | OKick MessageKick
  | OGameStarts MessageGameStarts
  | OTurn MessageTurn
  | OGameEnds MessageGameEnds
  | ODoInit MessageDoInit
  | ODoTurn MessageDoTurn

record Client =
  cl_addr :: string
  cl_nickname :: string
  cl_state :: client_state
  cl_writer :: bufio_writer
  cl_outbox :: "(out_msg \<times> byte list) list"

definition sendMessage :: "Client \<Rightarrow> byte list \<Rightarrow> string option \<times> Client" where
  "sendMessage client content =
     (if 16777215 \<le> length content
      then (Some ''content too big: size does not fit in 24 bits'', client)
      else (case write_frame (cl_writer client) content of
          (err, w) \<Rightarrow> (err, client\<lparr>cl_writer := w\<rparr>)))"

text \<open>
  The pattern of every sender: encode, then send.  A success is recorded in the outbox.
\<close>

definition send_json :: "Client \<Rightarrow> out_msg \<Rightarrow> jval \<Rightarrow> string option \<times> Client" where
  "send_json client m v = (case Marshal v of
      Inl err \<Rightarrow> (Some err, client)
    | Inr json \<Rightarrow> (case sendMessage client (bytes_of json) of
          (Some err, client') \<Rightarrow> (Some err, client')
        | (None, client') \<Rightarrow>
            (None, client'\<lparr>cl_outbox := cl_outbox client' @ [(m, bytes_of json)]\<rparr>)))"

text \<open>A connection just accepted by \<open>RunServer\<close>.\<close>

definition new_client :: "string \<Rightarrow> (nat \<times> string) option \<Rightarrow> Client" where
  "new_client addr limit = \<lparr>cl_addr = addr, cl_nickname = [], cl_state = CLIENT_UNLOGGED,
     cl_writer = \<lparr>w_buf = [], w_err = None, w_conn = \<lparr>co_accepted = [], co_limit = limit\<rparr>\<rparr>,
     cl_outbox = []\<rparr>"

section \<open>Lemmas: frames\<close>

definition frame :: "byte list \<Rightarrow> byte list" where
  "frame content = PutUint32 (word_of_nat (length content) + 1) @ content @ [10]"

lemma Uint32_PutUint32 [simp, wire_simps]: "Uint32 (PutUint32 v) = v"
proof (rule bit_word_eqI)
  fix n
  assume "n < LENGTH(32)"
  then show "bit (Uint32 (PutUint32 v)) n \<longleftrightarrow> bit v n"
    unfolding Uint32_def PutUint32_def
    by (cases "n < 24"; cases "n < 16") (auto simp: bit_simps)
qed

lemma length_PutUint32 [simp, wire_simps]: "length (PutUint32 v) = 4"
  by (simp add: PutUint32_def)

lemma unat_frame_size:
  "length content + 1 < 2 ^ 32 \<Longrightarrow> unat (word_of_nat (length content) + 1 :: u32) = length content + 1"
proof -
  assume a: "length content + 1 < 2 ^ 32"
  have "word_of_nat (length content) + 1 = (word_of_nat (length content + 1) :: u32)" by simp
  then show ?thesis using a by (simp only: unat_of_nat take_bit_eq_mod) simp
qed

lemma frame_read_size:
  "ReadFull 4 (st\<lparr>in_bytes := frame content @ rest\<rparr>) =
     Inr (PutUint32 (word_of_nat (length content) + 1), st\<lparr>in_bytes := content @ [10] @ rest\<rparr>)"
  by (simp add: ReadFull_def frame_def)

text \<open>One frame in front of a stream is read back, and the stream goes on behind it.\<close>

lemma readClientMessage_frame:
  assumes size: "length content + 1 \<le> unat mx" and json: "Unmarshal (content @ [10]) = Some m"
  shows "readClientMessage (st\<lparr>in_bytes := frame content @ rest\<rparr>) mx f
    = (good_message m, True, st\<lparr>in_bytes := rest\<rparr>)"
proof -
  have lt: "length content + 1 < 2 ^ 32"
    using size unsigned_less [of mx, where ?'a = nat] by simp
  note sz = unat_frame_size [OF lt]
  have "\<not> mx < word_of_nat (length content) + 1"
    using size by (simp add: word_less_nat_alt sz)
  then show ?thesis
    unfolding readClientMessage_def frame_read_size
    by (simp add: sz ReadFull_def json)
qed

text \<open>Every answer but the last of the reading loop is a message, and the last is an error.\<close>

lemma readClientMessage_flag:
  "readClientMessage st mx f = (m, ok, st') \<Longrightarrow> ok \<longleftrightarrow> msg_err m = None"
  by (auto simp: readClientMessage_def Let_def failed_message_def good_message_def
      split: sum.splits prod.splits if_splits option.splits)

lemma read_later_messages_shape:
  "\<exists>ms e. read_later_messages st = map good_message ms @ [failed_message e]"
proof (induction st rule: read_later_messages.induct)
  case (1 st)
  obtain m ok st' where r: "readClientMessage st 16777215 later_too_big = (m, ok, st')"
    by (cases "readClientMessage st 16777215 later_too_big") auto
  show ?case
  proof (cases ok)
    case True
    obtain ms e where "read_later_messages st' = map good_message ms @ [failed_message e]"
      using "1.IH" [OF r [symmetric] refl True] by blast
    moreover have "m = good_message (msg_content m)"
      using readClientMessage_flag [OF r] True by (cases m) (auto simp: good_message_def)
    ultimately have "read_later_messages st
        = map good_message (msg_content m # ms) @ [failed_message e]"
      using r True by (subst read_later_messages.simps) simp
    then show ?thesis by blast
  next
    case False
    with r have "\<exists>e. m = failed_message e"
      by (auto simp: readClientMessage_def Let_def
          split: sum.splits prod.splits if_splits option.splits)
    with r False show ?thesis
      by (subst read_later_messages.simps) (auto intro!: exI [of _ "[]"])
  qed
qed

definition end_error :: "read_end \<Rightarrow> string" where
  "end_error e = ''Remote endpoint closed? Read error: '' @
     (case e of EOF \<Rightarrow> ''EOF'' | ReadFailed s \<Rightarrow> s)"

lemma read_later_frames:
  assumes "list_all2 (\<lambda>c m. length c + 1 \<le> 16777215 \<and> Unmarshal (c @ [10]) = Some m) cs ms"
  shows "read_later_messages \<lparr>in_bytes = concat (map frame cs), in_end = e\<rparr>
    = map good_message ms @ [failed_message (end_error e)]"
  using assms
proof (induction rule: list_all2_induct)
  case Nil
  have "ReadFull 4 \<lparr>in_bytes = [], in_end = e\<rparr>
      = Inl (case e of EOF \<Rightarrow> ''EOF'' | ReadFailed s \<Rightarrow> s)"
    by (simp add: ReadFull_def split: read_end.split)
  then show ?case
    by (subst read_later_messages.simps) (simp add: readClientMessage_def end_error_def)
next
  case (Cons c cs m ms)
  have "readClientMessage \<lparr>in_bytes = frame c @ concat (map frame cs), in_end = e\<rparr>
      16777215 later_too_big
    = (good_message m, True, \<lparr>in_bytes = concat (map frame cs), in_end = e\<rparr>)"
    using readClientMessage_frame [where st = "\<lparr>in_bytes = [], in_end = e\<rparr>"] Cons.hyps
    by simp
  with Cons.IH show ?case by (subst read_later_messages.simps) simp
qed

section \<open>Lemmas: the buffered writer\<close>

text \<open>
  No step of the writer loses, repeats or reorders a byte: what the connection took, what is
  buffered and what is still to be written always add up to the same sequence.
\<close>

definition pending :: "bufio_writer \<Rightarrow> byte list" where
  "pending w = co_accepted (w_conn w) @ w_buf w"

lemma conn_write_split:
  "conn_write p c = (n, e, c') \<Longrightarrow> co_accepted c' = co_accepted c @ take n p
     \<and> (e = None \<longrightarrow> n = length p) \<and> (co_limit c = None \<longrightarrow> e = None \<and> co_limit c' = None)"
  by (auto simp: conn_write_def split: option.splits if_splits)

lemma pending_Flush [simp, wire_simps]: "pending (Flush w) = pending w"
  by (auto simp: Flush_def pending_def dest!: conn_write_split split: prod.splits option.splits)

lemma pending_write_loop:
  "write_loop p w = (p', w') \<Longrightarrow> pending w' @ p' = pending w @ p"
proof (induction p w arbitrary: p' w' rule: write_loop.induct)
  case (1 p w)
  show ?case
  proof (cases "bufSize - length (w_buf w) < length p \<and> w_err w = None")
    case loop: True
    show ?thesis
    proof (cases "w_buf w = []")
      case True
      obtain n e c where c: "conn_write p (w_conn w) = (n, e, c)"
        by (cases "conn_write p (w_conn w)") auto
      with loop True 1(3) have "write_loop (drop n p) (w\<lparr>w_conn := c, w_err := e\<rparr>) = (p', w')"
        by (subst (asm) write_loop.simps) simp
      from 1(1) [OF loop True c [symmetric] refl this] conn_write_split [OF c] True
      show ?thesis by (simp add: pending_def)
    next
      case False
      let ?n = "bufSize - length (w_buf w)"
      from loop False 1(3) have
        "write_loop (drop ?n p) (Flush (w\<lparr>w_buf := w_buf w @ take ?n p\<rparr>)) = (p', w')"
        by (subst (asm) write_loop.simps) (simp add: Let_def)
      from 1(2) [OF loop False refl this] show ?thesis
        by (simp add: pending_def [of "w\<lparr>w_buf := _\<rparr>"]) (simp add: pending_def)
    qed
  next
    case False
    with 1(3) show ?thesis by (subst (asm) write_loop.simps) auto
  qed
qed

lemma pending_Write:
  "Write p w = (e, w') \<Longrightarrow> \<exists>r. pending w' @ r = pending w @ p \<and> (e = None \<longrightarrow> r = [])"
proof -
  assume a: "Write p w = (e, w')"
  obtain p1 w1 where l: "write_loop p w = (p1, w1)" by fastforce
  from a l have "(e \<noteq> None \<and> w' = w1) \<or> (e = None \<and> w' = w1\<lparr>w_buf := w_buf w1 @ p1\<rparr>)"
    by (auto simp: Write_def split: option.splits)
  then show ?thesis
    using pending_write_loop [OF l] by (auto simp: pending_def)
qed

lemma pending_WriteByte:
  "WriteByte b w = (e, w') \<Longrightarrow> pending w' = (if e = None then pending w @ [b] else pending w)"
proof -
  assume a: "WriteByte b w = (e, w')"
  define w1 where "w1 = (if bufSize \<le> length (w_buf w) then Flush w else w)"
  have "pending w1 = pending w" by (simp add: w1_def)
  moreover have "(e \<noteq> None \<and> (w' = w1 \<or> w' = w)) \<or> (e = None \<and> w' = w1\<lparr>w_buf := w_buf w1 @ [b]\<rparr>)"
    using a by (auto simp: WriteByte_def w1_def [symmetric] split: option.splits if_splits)
  ultimately show ?thesis by (auto simp: pending_def)
qed

lemma pending_write_frame:
  assumes "write_frame w content = (e, w')"
  shows "\<exists>r. pending w' @ r = pending w @ frame content \<and> (e = None \<longrightarrow> r = [])"
proof -
  let ?h = "PutUint32 (word_of_nat (length content) + 1)"
  obtain e1 w1 where h: "Write ?h w = (e1, w1)" by fastforce
  obtain r1 where r1: "pending w1 @ r1 = pending w @ ?h" "e1 = None \<longrightarrow> r1 = []"
    using pending_Write [OF h] by blast
  show ?thesis
  proof (cases e1)
    case (Some x)
    with assms h have "w' = w1" "e \<noteq> None" by (auto simp: write_frame_def write_error_def)
    with r1 show ?thesis by (auto simp: frame_def intro!: exI [of _ "r1 @ content @ [10]"])
  next
    case None
    obtain e2 w2 where c: "Write content w1 = (e2, w2)" by fastforce
    obtain r2 where r2: "pending w2 @ r2 = pending w1 @ content" "e2 = None \<longrightarrow> r2 = []"
      using pending_Write [OF c] by blast
    have w1: "pending w1 = pending w @ ?h" using r1 None by simp
    show ?thesis
    proof (cases e2)
      case (Some x)
      with assms h None c have "w' = w2" "e \<noteq> None" by (auto simp: write_frame_def write_error_def)
      moreover have "pending w2 @ r2 @ [10] = pending w @ frame content"
        using r2 w1 by (metis append.assoc frame_def)
      ultimately show ?thesis by blast
    next
      case e2: None
      obtain e3 w3 where b: "WriteByte 10 w2 = (e3, w3)" by fastforce
      have w2: "pending w2 = pending w @ ?h @ content" using r2 e2 w1 by simp
      have "pending w' = pending w3" "e = None \<longleftrightarrow> e3 = None"
        using assms h None c e2 b
        by (auto simp: write_frame_def write_error_def split: option.splits)
      then show ?thesis
        using pending_WriteByte [OF b] w2 by (auto simp: frame_def)
    qed
  qed
qed

text \<open>On a connection that takes everything the writer reports no error and holds nothing back.\<close>

definition healthy :: "bufio_writer \<Rightarrow> bool" where
  "healthy w \<longleftrightarrow> w_err w = None \<and> co_limit (w_conn w) = None"

lemma healthy_Flush: "healthy w \<Longrightarrow> healthy (Flush w) \<and> w_buf (Flush w) = []"
  by (auto simp: healthy_def Flush_def conn_write_def)

lemma healthy_buf [simp]: "healthy (w\<lparr>w_buf := b\<rparr>) = healthy w"
  by (simp add: healthy_def)

lemma healthy_write_loop: "write_loop p w = (p', w') \<Longrightarrow> healthy w \<Longrightarrow> healthy w'"
proof (induction p w arbitrary: p' w' rule: write_loop.induct)
  case (1 p w)
  let ?n = "bufSize - length (w_buf w)"
  show ?case
  proof (cases "?n < length p \<and> w_err w = None")
    case loop: True
    show ?thesis
    proof (cases "w_buf w = []")
      case True
      obtain n e c where c: "conn_write p (w_conn w) = (n, e, c)"
        by (cases "conn_write p (w_conn w)") auto
      with loop True 1(3) have "write_loop (drop n p) (w\<lparr>w_conn := c, w_err := e\<rparr>) = (p', w')"
        by (subst (asm) write_loop.simps) simp
      from 1(1) [OF loop True c [symmetric] refl this] conn_write_split [OF c] 1(4)
      show ?thesis by (simp add: healthy_def)
    next
      case False
      from loop False 1(3) have
        "write_loop (drop ?n p) (Flush (w\<lparr>w_buf := w_buf w @ take ?n p\<rparr>)) = (p', w')"
        by (subst (asm) write_loop.simps) (simp add: Let_def)
      from 1(2) [OF loop False refl this] 1(4) show ?thesis by (simp add: healthy_Flush)
    qed
  next
    case False
    with 1(3,4) show ?thesis by (subst (asm) write_loop.simps) auto
  qed
qed

lemma healthy_Write: "Write p w = (e, w') \<Longrightarrow> healthy w \<Longrightarrow> e = None \<and> healthy w'"
proof -
  assume a: "Write p w = (e, w')" and h: "healthy w"
  obtain p1 w1 where l: "write_loop p w = (p1, w1)" by fastforce
  from healthy_write_loop [OF l h] a l show ?thesis
    by (auto simp: Write_def healthy_def)
qed

lemma healthy_WriteByte: "WriteByte b w = (e, w') \<Longrightarrow> healthy w \<Longrightarrow> e = None \<and> healthy w'"
  using healthy_Flush [of w] by (auto simp: WriteByte_def healthy_def Let_def split: if_splits)

lemma write_frame_healthy:
  assumes "healthy w"
  shows "\<exists>w'. write_frame w content = (None, w') \<and> healthy w' \<and> w_buf w' = []
    \<and> co_accepted (w_conn w') = pending w @ frame content"
proof -
  obtain e1 w1 where h: "Write (PutUint32 (word_of_nat (length content) + 1)) w = (e1, w1)"
    by fastforce
  obtain e2 w2 where c: "Write content w1 = (e2, w2)" by fastforce
  obtain e3 w3 where b: "WriteByte 10 w2 = (e3, w3)" by fastforce
  have ok: "e1 = None" "e2 = None" "e3 = None" "healthy w3"
    using healthy_Write [OF h] healthy_Write [OF c] healthy_WriteByte [OF b] assms by auto
  then have f: "write_frame w content = (None, Flush w3)"
    using h c b by (simp add: write_frame_def)
  have "pending (Flush w3) = pending w @ frame content"
    using pending_write_frame [OF f] by auto
  with healthy_Flush [OF ok(4)] f show ?thesis by (auto simp: pending_def)
qed

section \<open>The contract of a sender\<close>

text \<open>
  What the handlers rely on when they send: a success appends exactly that message to the log of
  sent messages, a failure appends nothing, and the rest of the client is untouched.
\<close>

locale message_log =
  fixes send :: "'c \<Rightarrow> 'm \<Rightarrow> 'v \<Rightarrow> string option \<times> 'c"
    and log :: "'c \<Rightarrow> 'm list"
    and view :: "'c \<Rightarrow> 's"
  assumes send_success: "send c m v = (None, c') \<Longrightarrow> log c' = log c @ [m]"
    and send_failure: "send c m v = (Some e, c') \<Longrightarrow> log c' = log c"
    and send_view: "send c m v = (res, c') \<Longrightarrow> view c' = view c"
begin

lemma log_send: "send c m v = (e, c') \<Longrightarrow> log c' = log c @ (if e = None then [m] else [])"
  using send_success send_failure by (cases e) auto

lemma log_filter:
  "send c m v = (e, c') \<Longrightarrow> \<not> P m \<Longrightarrow> filter P (log c') = filter P (log c)"
  by (simp add: log_send)

lemma log_snd:
  "log (snd (send c m v)) = log c @ (if fst (send c m v) = None then [m] else [])"
  using log_send [of c m v "fst (send c m v)" "snd (send c m v)"] by simp

lemma view_snd: "view (snd (send c m v)) = view c"
  using send_view [of c m v "fst (send c m v)" "snd (send c m v)"] by simp

end

definition sent :: "Client \<Rightarrow> out_msg list" where
  "sent c = map fst (cl_outbox c)"

definition identity :: "Client \<Rightarrow> string \<times> string \<times> client_state" where
  "identity c = (cl_addr c, cl_nickname c, cl_state c)"

lemma sendMessage_frame:
  "sendMessage c content = (e, c') \<Longrightarrow> \<exists>w. c' = c\<lparr>cl_writer := w\<rparr>"
  by (auto simp: sendMessage_def split: if_splits prod.splits intro: exI [of _ "cl_writer c"])

lemma send_json_effect:
  "send_json c m v = (e, c') \<Longrightarrow> \<exists>w b. c' = c\<lparr>cl_writer := w,
     cl_outbox := cl_outbox c @ (if e = None then [(m, b)] else [])\<rparr>"
proof (cases "Marshal v")
  case (Inl e')
  assume "send_json c m v = (e, c')"
  with Inl show ?thesis by (auto simp: send_json_def intro: exI [of _ "cl_writer c"])
next
  case (Inr json)
  assume s: "send_json c m v = (e, c')"
  obtain e1 c1 where r: "sendMessage c (bytes_of json) = (e1, c1)" by fastforce
  obtain w where "c1 = c\<lparr>cl_writer := w\<rparr>" using sendMessage_frame [OF r] by blast
  with s Inr r show ?thesis
    by (intro exI [of _ w] exI [of _ "bytes_of json"])
      (auto simp: send_json_def split: option.splits)
qed

interpretation client_log: message_log send_json sent identity
proof
  fix c m v c' e
  show "send_json c m v = (None, c') \<Longrightarrow> sent c' = sent c @ [m]"
    by (auto simp: sent_def dest!: send_json_effect)
  show "send_json c m v = (Some e, c') \<Longrightarrow> sent c' = sent c"
    by (auto simp: sent_def dest!: send_json_effect)
next
  fix c m v c' e
  show "send_json c m v = (e, c') \<Longrightarrow> identity c' = identity c"
    by (auto simp: identity_def dest!: send_json_effect)
qed

text \<open>
  The bytes behind the log: on a connection that takes everything, the stream is exactly the
  concatenation of the frames of the messages of the outbox.
\<close>

definition wire_ok :: "Client \<Rightarrow> bool" where
  "wire_ok c \<longleftrightarrow> healthy (cl_writer c) \<and> w_buf (cl_writer c) = []
     \<and> co_accepted (w_conn (cl_writer c)) = concat (map (frame \<circ> snd) (cl_outbox c))"

lemma wire_ok_new_client: "wire_ok (new_client addr None)"
  by (simp add: wire_ok_def new_client_def healthy_def)

lemma wire_ok_send_json: "wire_ok c \<Longrightarrow> wire_ok (snd (send_json c m v))"
proof -
  assume w: "wire_ok c"
  show ?thesis
  proof (cases "Marshal v")
    case (Inl e)
    with w show ?thesis by (simp add: send_json_def)
  next
    case (Inr json)
    show ?thesis
    proof (cases "16777215 \<le> length json")
      case True
      with w Inr show ?thesis by (simp add: send_json_def sendMessage_def)
    next
      case False
      from w have "healthy (cl_writer c)" by (simp add: wire_ok_def)
      from write_frame_healthy [OF this] obtain w' where
        "write_frame (cl_writer c) (bytes_of json) = (None, w')" "healthy w'" "w_buf w' = []"
        "co_accepted (w_conn w') = pending (cl_writer c) @ frame (bytes_of json)" by blast
      with w Inr False show ?thesis
        by (simp add: send_json_def sendMessage_def wire_ok_def pending_def)
    qed
  qed
qed

lemma send_json_healthy:
  assumes "healthy (cl_writer c)" "Marshal v = Inr json" "length json < 16777215"
  shows "\<exists>w. healthy w \<and> send_json c m v
    = (None, c\<lparr>cl_writer := w, cl_outbox := cl_outbox c @ [(m, bytes_of json)]\<rparr>)"
  using write_frame_healthy [OF assms(1), of "bytes_of json"] assms(2,3)
  by (auto simp: send_json_def sendMessage_def)

section \<open>Properties\<close>

text \<open>
  C6. Framing round trip: whatever messages a peer writes as frames, the first within 1023 bytes
  and the others within 16777215 bytes with their line feed, the reading loop delivers their
  decoded contents, in order, and then one error that says how the stream ended.
\<close>

theorem readClientMessages_frames:
  assumes "length c + 1 \<le> 1023" and "Unmarshal (c @ [10]) = Some m"
    and "list_all2 (\<lambda>c m. length c + 1 \<le> 16777215 \<and> Unmarshal (c @ [10]) = Some m) cs ms"
  shows "readClientMessages \<lparr>in_bytes = concat (map frame (c # cs)), in_end = e\<rparr>
    = map good_message (m # ms) @ [failed_message (end_error e)]"
proof -
  have "readClientMessage \<lparr>in_bytes = frame c @ concat (map frame cs), in_end = e\<rparr>
      1023 first_too_big
    = (good_message m, True, \<lparr>in_bytes = concat (map frame cs), in_end = e\<rparr>)"
    using readClientMessage_frame [where st = "\<lparr>in_bytes = [], in_end = e\<rparr>"] assms(1,2)
    by simp
  with read_later_frames [OF assms(3)] show ?thesis
    by (simp add: readClientMessages_def)
qed

theorem readClientMessages_frames_witness:
  "readClientMessages \<lparr>in_bytes = concat (map frame [bytes_of ''{}'', bytes_of ''null'']), in_end = EOF\<rparr>
    = map good_message [[], []] @ [failed_message (end_error EOF)]"
proof (rule readClientMessages_frames)
  show "length (bytes_of ''{}'') + 1 \<le> 1023" by simp
  show "Unmarshal (bytes_of ''{}'' @ [10]) = Some []" by code_simp
  show "list_all2 (\<lambda>c m. length c + 1 \<le> 16777215 \<and> Unmarshal (c @ [10]) = Some m)
      [bytes_of ''null''] [[]]"
    by (simp, code_simp)
qed

text \<open>
  C23. The reading loop always ends, whatever bytes arrive: it delivers well-formed messages and
  then exactly one error, which is the last thing it puts on the channel.
\<close>

theorem readClientMessages_shape:
  "\<exists>ms e. readClientMessages st = map good_message ms @ [failed_message e]"
proof -
  obtain m ok st' where r: "readClientMessage st 1023 first_too_big = (m, ok, st')"
    by (cases "readClientMessage st 1023 first_too_big") auto
  show ?thesis
  proof (cases ok)
    case True
    obtain ms e where l: "read_later_messages st' = map good_message ms @ [failed_message e]"
      using read_later_messages_shape by blast
    have "m = good_message (msg_content m)"
      using readClientMessage_flag [OF r] True by (cases m) (auto simp: good_message_def)
    with l r True have "readClientMessages st
        = map good_message (msg_content m # ms) @ [failed_message e]"
      by (simp add: readClientMessages_def)
    then show ?thesis by blast
  next
    case False
    with r have "\<exists>e. m = failed_message e"
      by (auto simp: readClientMessage_def Let_def
          split: sum.splits prod.splits if_splits option.splits)
    with r False show ?thesis
      by (auto simp: readClientMessages_def intro!: exI [of _ "[]"])
  qed
qed

text \<open>
  C14. Sending on any connection, however it fails: the bytes the connection takes are always a
  beginning of what it was owed before followed by the frame of the message, so a peer never sees
  bytes of a message out of place; and a send that reports success has queued the whole frame.
\<close>

theorem sendMessage_prefix:
  assumes "length content < 16777215" and "sendMessage c content = (e, c')"
  shows "(\<exists>r. co_accepted (w_conn (cl_writer c')) @ r = pending (cl_writer c) @ frame content)
    \<and> (e = None \<longrightarrow> pending (cl_writer c') = pending (cl_writer c) @ frame content)"
proof -
  from assms have "write_frame (cl_writer c) content = (e, cl_writer c')"
    by (auto simp: sendMessage_def split: prod.splits)
  from pending_write_frame [OF this] obtain r where
    r: "pending (cl_writer c') @ r = pending (cl_writer c) @ frame content" "e = None \<longrightarrow> r = []"
    by blast
  then show ?thesis by (auto simp: pending_def)
qed

text \<open>A client whose connection takes three more bytes and then breaks.\<close>

definition broken_client :: Client where
  "broken_client = new_client ''127.0.0.1:59840'' (Some (3, ''broken pipe''))"

theorem sendMessage_prefix_witness:
  "(\<exists>r. co_accepted (w_conn (cl_writer (snd (sendMessage broken_client (bytes_of ''{}''))))) @ r
      = pending (cl_writer broken_client) @ frame (bytes_of ''{}''))
   \<and> co_accepted (w_conn (cl_writer (snd (sendMessage broken_client (bytes_of ''{}''))))) = [3, 0, 0]"
proof -
  have len: "length (bytes_of ''{}'') < 16777215" by simp
  have "sendMessage broken_client (bytes_of ''{}'')
      = (fst (sendMessage broken_client (bytes_of ''{}'')),
         snd (sendMessage broken_client (bytes_of ''{}'')))" by simp
  from sendMessage_prefix [OF len this]
  have "\<exists>r. co_accepted (w_conn (cl_writer (snd (sendMessage broken_client (bytes_of ''{}''))))) @ r
      = pending (cl_writer broken_client) @ frame (bytes_of ''{}'')" by blast
  moreover have "co_accepted (w_conn (cl_writer
      (snd (sendMessage broken_client (bytes_of ''{}''))))) = [3, 0, 0]"
    by (simp add: broken_client_def new_client_def sendMessage_def write_frame_def Write_def
        write_loop.simps WriteByte_def Flush_def conn_write_def bufSize_def PutUint32_def bytes_of_def)
  ultimately show ?thesis by blast
qed

text \<open>
  C39. The error of the last flush is not reported: a message that fits in the buffer of an idle
  writer is reported as sent even when the connection takes none of its bytes; the failure
  appears only at the next message, which is refused.
\<close>

theorem sendMessage_reports_late:
  assumes "w_buf (cl_writer c) = []" and "w_err (cl_writer c) = None"
    and "co_limit (w_conn (cl_writer c)) = Some (0, why)" and "length content + 5 \<le> bufSize"
    and "length content' < 16777215"
  shows "fst (sendMessage c content) = None
    \<and> co_accepted (w_conn (cl_writer (snd (sendMessage c content)))) = co_accepted (w_conn (cl_writer c))
    \<and> fst (sendMessage (snd (sendMessage c content)) content') = write_error why"
proof -
  have fits: "Write p w = (None, w\<lparr>w_buf := w_buf w @ p\<rparr>)"
    if "length (w_buf w) + length p \<le> bufSize" "w_err w = None" for p w
    using that by (subst Write_def, subst write_loop.simps) auto
  have stuck: "Write p w = (Some e, w)" if "w_err w = Some e" for p w e
    using that by (subst Write_def, subst write_loop.simps) auto
  let ?w = "cl_writer c"
  let ?b = "frame content"
  have "write_frame ?w content = (None, Flush (?w\<lparr>w_buf := ?b\<rparr>))"
    using assms by (simp add: write_frame_def fits WriteByte_def frame_def bufSize_def)
  moreover have "Flush (?w\<lparr>w_buf := ?b\<rparr>) = ?w\<lparr>w_buf := ?b, w_err := Some why,
      w_conn := (w_conn ?w)\<lparr>co_accepted := co_accepted (w_conn ?w), co_limit := Some (0, why)\<rparr>\<rparr>"
    using assms by (auto simp: Flush_def conn_write_def frame_def)
  ultimately show ?thesis
    using assms by (simp add: sendMessage_def write_frame_def stuck bufSize_def)
qed

theorem sendMessage_reports_late_witness:
  "fst (sendMessage (new_client [] (Some (0, ''reset''))) (bytes_of ''{}'')) = None
    \<and> co_accepted (w_conn (cl_writer (snd (sendMessage (new_client [] (Some (0, ''reset'')))
         (bytes_of ''{}'')))))
       = co_accepted (w_conn (cl_writer (new_client [] (Some (0, ''reset'')))))
    \<and> fst (sendMessage (snd (sendMessage (new_client [] (Some (0, ''reset''))) (bytes_of ''{}'')))
         (bytes_of ''{}'')) = write_error ''reset''"
  by (rule sendMessage_reports_late) (simp_all add: new_client_def bufSize_def)

end
