(* ===== verification/Control.thy ===== *)
theory Control
  imports Network
begin

text \<open>
  src/control.go: the state shared by the goroutines (type \<open>GlobalState\<close>), the login manager,
  \<open>Kick\<close>, the automatic start and \<open>Cleanup\<close>.

  A client is known by a number, which stands for the pointer to its \<open>Client\<close> struct and for the
  pointer to the \<open>PlayerOrVisuClient\<close> or \<open>GameLogicClient\<close> made for it at login: the lists of
  the global state hold such numbers.  A region between lock and unlock of the mutex is one
  definition.  A handler does not perform its sends on Go channels: it returns them, in program
  order, as a list of \<open>chan_op\<close>, because whether and when they happen depends on the other
  goroutines.
\<close>

section \<open>State\<close>

type_synonym cid = nat

datatype game_state = GAME_NOT_RUNNING | GAME_RUNNING | GAME_FINISHED

record PlayerOrVisuClient =
  pv_client :: cid
  pv_playerID :: int
  pv_isPlayer :: bool
  pv_isSpecialPlayer :: bool
  pv_playerInfo :: "pref option"

record GlobalState =
  gs_listening :: bool
  gs_prompt :: bool
  gs_GameState :: game_state
  gs_GameLogic :: "cid list"
  gs_Players :: "cid list"
  gs_SpecialPlayers :: "cid list"
  gs_Visus :: "cid list"
  gs_NbPlayersMax :: int
  gs_NbSpecialPlayersMax :: int
  gs_NbVisusMax :: int
  gs_NbTurnsMax :: int
  gs_Autostart :: bool
  gs_Fast :: bool
  gs_MillisecondsBeforeFirstTurn :: float64
  gs_MillisecondsBetweenTurns :: float64

datatype chan_op =
    SendStart cid
  | SendPlayerAction cid MessageDoTurnPlayerAction
  | SendPlayerDisconnected cid int
  | SendGameStarts cid MessageGameStarts
  | SendNewTurn cid MessageTurn
  | SendGameEnds cid MessageGameEnds
  | SendOnExit int
  | SendCanTerminate cid string
  | SendShellExit int

section \<open>Starting the game\<close>

definition areAllExpectedClientsConnected :: "GlobalState \<Rightarrow> bool" where
  "areAllExpectedClientsConnected gs \<longleftrightarrow>
     int (length (gs_Players gs)) = gs_NbPlayersMax gs
     \<and> int (length (gs_SpecialPlayers gs)) = gs_NbSpecialPlayersMax gs
     \<and> int (length (gs_Visus gs)) = gs_NbVisusMax gs
     \<and> length (gs_GameLogic gs) = 1"

definition autostart :: "GlobalState \<Rightarrow> GlobalState \<times> chan_op list" where
  "autostart gs =
     (if gs_Autostart gs \<and> areAllExpectedClientsConnected gs
      then (gs\<lparr>gs_GameState := GAME_RUNNING\<rparr>, [SendStart (hd (gs_GameLogic gs))])
      else (gs, []))"

section \<open>Kick and LOGIN_ACK\<close>

definition Kick :: "Client \<Rightarrow> string \<Rightarrow> Client" where
  "Kick client reason =
     (if cl_state client = CLIENT_KICKED then client
      else (let msg = \<lparr>kick_MessageType = ''KICK'', kick_KickReason = reason\<rparr>
            in snd (send_json (client\<lparr>cl_state := CLIENT_KICKED\<rparr>) (OKick msg) (MessageKick_json msg))))"

definition sendLoginACK :: "Client \<Rightarrow> string option \<times> Client" where
  "sendLoginACK client =
     (let msg = \<lparr>lack_MessageType = ''LOGIN_ACK'', lack_MetaprotocolVersion = Version\<rparr>
      in send_json client (OLoginAck msg) (MessageLoginAck_json msg))"

section \<open>The login manager\<close>

text \<open>What the goroutine of a connection does after its first message.\<close>

datatype login_next =
    LoginRefused
  | RunPlayerOrVisu PlayerOrVisuClient
  | RunGameLogic cid

definition new_player :: "cid \<Rightarrow> bool \<Rightarrow> PlayerOrVisuClient" where
  "new_player c isSpecial = \<lparr>pv_client = c, pv_playerID = - 1, pv_isPlayer = True,
     pv_isSpecialPlayer = isSpecial, pv_playerInfo = None\<rparr>"

definition new_visu :: "cid \<Rightarrow> PlayerOrVisuClient" where
  "new_visu c = \<lparr>pv_client = c, pv_playerID = - 1, pv_isPlayer = False,
     pv_isSpecialPlayer = False, pv_playerInfo = None\<rparr>"

definition denied :: "Client \<Rightarrow> GlobalState \<Rightarrow> string \<Rightarrow> Client \<times> GlobalState \<times> login_next" where
  "denied client gs why = (Kick client (''LOGIN denied: '' @ why), gs, LoginRefused)"

text \<open>
  The region that the login manager runs with the mutex held: the switch over the role.  A role
  outside the four of the switch cannot occur, since \<open>readLoginMessage\<close> refuses it.
\<close>

definition login_manager ::
  "cid \<Rightarrow> Client \<Rightarrow> GlobalState \<Rightarrow> string \<Rightarrow> Client \<times> GlobalState \<times> login_next" where
  "login_manager c client gs role =
     (if role = ''player'' \<or> role = ''special player'' then
        (let isSpecial = (role = ''special player'') in
         if gs_GameState gs \<noteq> GAME_NOT_RUNNING
         then denied client gs ''Game has been started''
         else if \<not> isSpecial \<and> gs_NbPlayersMax gs \<le> int (length (gs_Players gs))
         then denied client gs ''Maximum number of players reached''
         else if isSpecial \<and> gs_NbSpecialPlayersMax gs \<le> int (length (gs_SpecialPlayers gs))
         then denied client gs ''Maximum number of special players reached''
         else (case sendLoginACK client of
             (Some err, client') \<Rightarrow> denied client' gs ''Could not send LOGIN_ACK''
           | (None, client') \<Rightarrow>
               (client'\<lparr>cl_state := CLIENT_LOGGED\<rparr>,
                (if isSpecial then gs\<lparr>gs_SpecialPlayers := gs_SpecialPlayers gs @ [c]\<rparr>
                 else gs\<lparr>gs_Players := gs_Players gs @ [c]\<rparr>),
                RunPlayerOrVisu (new_player c isSpecial))))
      else if role = ''visualization'' then
        (if gs_NbVisusMax gs \<le> int (length (gs_Visus gs))
         then denied client gs ''Maximum number of visus reached''
         else (case sendLoginACK client of
             (Some err, client') \<Rightarrow> denied client' gs ''Could not send LOGIN_ACK''
           | (None, client') \<Rightarrow>
               (client'\<lparr>cl_state := CLIENT_LOGGED\<rparr>,
                gs\<lparr>gs_Visus := gs_Visus gs @ [c]\<rparr>,
                RunPlayerOrVisu (new_visu c))))
      else if role = ''game logic'' then
        (if gs_GameState gs \<noteq> GAME_NOT_RUNNING
         then denied client gs ''Game has been started''
         else if 1 \<le> length (gs_GameLogic gs)
         then denied client gs ''A game logic is already logged in''
         else (case sendLoginACK client of
             (Some err, client') \<Rightarrow> denied client' gs ''Could not send LOGIN_ACK''
           | (None, client') \<Rightarrow>
               (client', gs\<lparr>gs_GameLogic := gs_GameLogic gs @ [c]\<rparr>, RunGameLogic c)))
      else (client, gs, LoginRefused))"

text \<open>
  \<open>handleClient\<close> up to the dedicated function of the role: the first message is checked, the
  login manager decides, and an accepted client may start the game.  The mutex is released before
  \<open>autostart\<close> is called, so that the first part is a definition of its own.
\<close>

definition handleFirstMessage ::
  "cid \<Rightarrow> Client \<Rightarrow> GlobalState \<Rightarrow> ClientMessage \<Rightarrow> Client \<times> GlobalState \<times> login_next" where
  "handleFirstMessage c client gs msg = (case msg_err msg of
      Some err \<Rightarrow> (Kick client (''Invalid first message: '' @ err), gs, LoginRefused)
    | None \<Rightarrow> (case readLoginMessage (msg_content msg) of
          Inl err \<Rightarrow> (Kick client (''Invalid first message: '' @ err), gs, LoginRefused)
        | Inr loginMessage \<Rightarrow>
            login_manager c (client\<lparr>cl_nickname := login_nickname loginMessage\<rparr>) gs (login_role loginMessage)))"

definition handleClient ::
  "cid \<Rightarrow> Client \<Rightarrow> GlobalState \<Rightarrow> ClientMessage
     \<Rightarrow> Client \<times> GlobalState \<times> login_next \<times> chan_op list" where
  "handleClient c client gs msg = (case handleFirstMessage c client gs msg of
      (client', gs', LoginRefused) \<Rightarrow> (client', gs', LoginRefused, [])
    | (client', gs', next) \<Rightarrow>
        (case autostart gs' of (gs'', ops) \<Rightarrow> (client', gs'', next, ops)))"

section \<open>Cleanup\<close>

text \<open>
  The listener is closed, every connected client is told to terminate, and the prompt is torn
  down.  The sends run in goroutines of their own; \<open>Cleanup\<close> waits for all of them.
\<close>

definition Cleanup :: "GlobalState \<Rightarrow> GlobalState \<times> chan_op list" where
  "Cleanup gs =
     (let nonGlClients = gs_Players gs @ gs_SpecialPlayers gs @ gs_Visus gs
      in (gs\<lparr>gs_listening := False, gs_prompt := False\<rparr>,
          map (\<lambda>c. SendCanTerminate c ''netorcai abort'') (nonGlClients @ gs_GameLogic gs)))"

section \<open>Lemmas: Kick\<close>

definition is_kick :: "out_msg \<Rightarrow> bool" where
  "is_kick m \<longleftrightarrow> (case m of OKick _ \<Rightarrow> True | _ \<Rightarrow> False)"

lemma is_kick_simps [simp]:
  "is_kick (OKick k)" "\<not> is_kick (OLoginAck a)" "\<not> is_kick (OGameStarts g)" "\<not> is_kick (OTurn t)"
  "\<not> is_kick (OGameEnds e)" "\<not> is_kick (ODoInit d)" "\<not> is_kick (ODoTurn u)"
  by (simp_all add: is_kick_def)

definition kick_msg :: "string \<Rightarrow> out_msg" where
  "kick_msg reason = OKick \<lparr>kick_MessageType = ''KICK'', kick_KickReason = reason\<rparr>"

lemma is_kick_kick_msg [simp]: "is_kick (kick_msg r)"
  by (simp add: kick_msg_def)

lemma sent_update [simp, model_simps]:
  "sent (c\<lparr>cl_state := s\<rparr>) = sent c" "sent (c\<lparr>cl_nickname := n\<rparr>) = sent c"
  by (simp_all add: sent_def)

lemma Kick_kicked [simp]: "cl_state c = CLIENT_KICKED \<Longrightarrow> Kick c r = c"
  by (simp add: Kick_def)

lemma Kick_effect:
  assumes "cl_state c \<noteq> CLIENT_KICKED"
  shows "\<exists>w b ok. Kick c r = c\<lparr>cl_state := CLIENT_KICKED, cl_writer := w,
    cl_outbox := cl_outbox c @ (if ok then [(kick_msg r, b)] else [])\<rparr>"
proof -
  let ?m = "\<lparr>kick_MessageType = ''KICK'', kick_KickReason = r\<rparr>"
  obtain e c' where s: "send_json (c\<lparr>cl_state := CLIENT_KICKED\<rparr>) (OKick ?m) (MessageKick_json ?m)
      = (e, c')" by fastforce
  obtain w b where "c' = c\<lparr>cl_state := CLIENT_KICKED, cl_writer := w,
      cl_outbox := cl_outbox c @ (if e = None then [(OKick ?m, b)] else [])\<rparr>"
    using send_json_effect [OF s] by auto
  with s assms show ?thesis
    by (intro exI [of _ w] exI [of _ b] exI [of _ "e = None"]) (auto simp: Kick_def kick_msg_def)
qed

lemma cl_state_Kick [simp]: "cl_state (Kick c r) = CLIENT_KICKED"
  by (cases "cl_state c = CLIENT_KICKED") (auto dest: Kick_effect [of _ r])

lemma cl_addr_Kick [simp]: "cl_addr (Kick c r) = cl_addr c"
  by (cases "cl_state c = CLIENT_KICKED") (auto dest: Kick_effect [of _ r])

lemma cl_nickname_Kick [simp]: "cl_nickname (Kick c r) = cl_nickname c"
  by (cases "cl_state c = CLIENT_KICKED") (auto dest: Kick_effect [of _ r])

lemma sent_Kick: "\<exists>ks. sent (Kick c r) = sent c @ ks \<and> (ks = [] \<or> ks = [kick_msg r] \<and> cl_state c \<noteq> CLIENT_KICKED)"
  by (cases "cl_state c = CLIENT_KICKED") (auto simp: sent_def dest: Kick_effect [of _ r])

lemma filter_sent_Kick [simp]:
  "(\<And>k. \<not> P (OKick k)) \<Longrightarrow> filter P (sent (Kick c r)) = filter P (sent c)"
  using sent_Kick [of c r] by (auto simp: kick_msg_def)

lemma wire_ok_state [simp]: "wire_ok (c\<lparr>cl_state := s\<rparr>) = wire_ok c" "wire_ok (c\<lparr>cl_nickname := n\<rparr>) = wire_ok c"
  by (simp_all add: wire_ok_def)

lemma wire_ok_Kick: "wire_ok c \<Longrightarrow> wire_ok (Kick c r)"
  by (simp add: Kick_def wire_ok_send_json Let_def)

section \<open>Lemmas: login\<close>

definition login_ack :: out_msg where
  "login_ack = OLoginAck \<lparr>lack_MessageType = ''LOGIN_ACK'', lack_MetaprotocolVersion = Version\<rparr>"

lemma sendLoginACK_effect:
  "sendLoginACK c = (e, c') \<Longrightarrow> sent c' = sent c @ (if e = None then [login_ack] else [])
     \<and> cl_state c' = cl_state c \<and> cl_addr c' = cl_addr c \<and> cl_nickname c' = cl_nickname c"
  unfolding sendLoginACK_def Let_def
  by (drule send_json_effect) (auto simp: sent_def login_ack_def)

text \<open>The places a login may take, by role: the policy the login manager applies.\<close>

definition free_place :: "GlobalState \<Rightarrow> string \<Rightarrow> bool" where
  "free_place gs role \<longleftrightarrow>
     (role = ''visualization'' \<or> gs_GameState gs = GAME_NOT_RUNNING)
     \<and> (role = ''player'' \<longrightarrow> int (length (gs_Players gs)) < gs_NbPlayersMax gs)
     \<and> (role = ''special player'' \<longrightarrow>
          int (length (gs_SpecialPlayers gs)) < gs_NbSpecialPlayersMax gs)
     \<and> (role = ''visualization'' \<longrightarrow> int (length (gs_Visus gs)) < gs_NbVisusMax gs)
     \<and> (role = ''game logic'' \<longrightarrow> gs_GameLogic gs = [])"

definition seat :: "cid \<Rightarrow> string \<Rightarrow> GlobalState \<Rightarrow> GlobalState" where
  "seat c role gs =
     gs\<lparr>gs_Players := gs_Players gs @ (if role = ''player'' then [c] else []),
        gs_SpecialPlayers := gs_SpecialPlayers gs @ (if role = ''special player'' then [c] else []),
        gs_Visus := gs_Visus gs @ (if role = ''visualization'' then [c] else []),
        gs_GameLogic := gs_GameLogic gs @ (if role = ''game logic'' then [c] else [])\<rparr>"

definition handler_of :: "cid \<Rightarrow> string \<Rightarrow> login_next" where
  "handler_of c role =
     (if role = ''game logic'' then RunGameLogic c
      else if role = ''visualization'' then RunPlayerOrVisu (new_visu c)
      else RunPlayerOrVisu (new_player c (role = ''special player'')))"

lemma handler_of_accepts [simp]: "handler_of c role \<noteq> LoginRefused"
  by (simp add: handler_of_def)

lemma denied_effect:
  "denied c gs why = (c', gs', next) \<Longrightarrow>
     gs' = gs \<and> next = LoginRefused \<and> c' = Kick c (''LOGIN denied: '' @ why)"
  by (auto simp: denied_def)

lemma valid_role_cases:
  assumes "role \<in> set valid_roles"
  obtains "role = ''player''" | "role = ''special player''" | "role = ''visualization''"
    | "role = ''game logic''"
  using assms unfolding valid_roles_def by (simp only: list.set) blast

lemma login_manager_accepts:
  assumes "role \<in> set valid_roles" "free_place gs role" "sendLoginACK client = (None, client1)"
  shows "login_manager c client gs role
    = (if role = ''game logic'' then client1 else client1\<lparr>cl_state := CLIENT_LOGGED\<rparr>,
       seat c role gs, handler_of c role)"
  using assms(2,3)
  by (cases rule: valid_role_cases [OF assms(1)])
    (simp_all add: login_manager_def free_place_def seat_def handler_of_def)

lemma login_manager_unacked:
  assumes "role \<in> set valid_roles" "free_place gs role" "sendLoginACK client = (Some err, client1)"
  shows "login_manager c client gs role = denied client1 gs ''Could not send LOGIN_ACK''"
  using assms(2,3)
  by (cases rule: valid_role_cases [OF assms(1)]) (simp_all add: login_manager_def free_place_def)

lemma login_manager_full:
  assumes "role \<in> set valid_roles" "\<not> free_place gs role"
  shows "\<exists>why. login_manager c client gs role = denied client gs why"
  using assms(2)
  by (cases rule: valid_role_cases [OF assms(1)]; cases "gs_GameState gs = GAME_NOT_RUNNING")
    (simp_all add: login_manager_def free_place_def not_less Suc_le_eq, blast+)

lemma readLoginMessage_role: "readLoginMessage data = Inr m \<Longrightarrow> login_role m \<in> set valid_roles"
  unfolding readLoginMessage_def by (auto split: sum.splits option.splits if_splits)

text \<open>The two outcomes of a first message.\<close>

definition login_accepted :: "Client \<Rightarrow> GlobalState \<Rightarrow> ClientMessage \<Rightarrow> MessageLogin \<Rightarrow> bool" where
  "login_accepted client gs msg m \<longleftrightarrow>
     msg_err msg = None \<and> readLoginMessage (msg_content msg) = Inr m
     \<and> free_place gs (login_role m)
     \<and> fst (sendLoginACK (client\<lparr>cl_nickname := login_nickname m\<rparr>)) = None"

lemma first_message_accepted:
  assumes "login_accepted client gs msg m"
  shows "\<exists>client'. handleFirstMessage c client gs msg
      = (client', seat c (login_role m) gs, handler_of c (login_role m))
    \<and> sent client' = sent client @ [login_ack] \<and> cl_nickname client' = login_nickname m
    \<and> cl_state client' = (if login_role m = ''game logic'' then cl_state client else CLIENT_LOGGED)"
proof -
  let ?c = "client\<lparr>cl_nickname := login_nickname m\<rparr>"
  from assms obtain c1 where ack: "sendLoginACK ?c = (None, c1)"
    by (cases "sendLoginACK ?c") (auto simp: login_accepted_def)
  from assms have m: "msg_err msg = None" "readLoginMessage (msg_content msg) = Inr m"
    "free_place gs (login_role m)" by (simp_all add: login_accepted_def)
  then have "handleFirstMessage c client gs msg = login_manager c ?c gs (login_role m)"
    by (simp add: handleFirstMessage_def)
  with login_manager_accepts [OF readLoginMessage_role [OF m(2)] m(3) ack] show ?thesis
    using sendLoginACK_effect [OF ack] by auto
qed

lemma first_message_refused:
  assumes "\<nexists>m. login_accepted client gs msg m"
  shows "\<exists>client' why. handleFirstMessage c client gs msg = (client', gs, LoginRefused)
    \<and> cl_state client' = CLIENT_KICKED
    \<and> (sent client' = sent client \<or> sent client' = sent client @ [kick_msg why])"
proof (cases "msg_err msg")
  case (Some err)
  then show ?thesis
    using sent_Kick [of client "''Invalid first message: '' @ err"]
    by (auto simp: handleFirstMessage_def)
next
  case None
  show ?thesis
  proof (cases "readLoginMessage (msg_content msg)")
    case (Inl err)
    with None show ?thesis
      using sent_Kick [of client "''Invalid first message: '' @ err"]
      by (auto simp: handleFirstMessage_def)
  next
    case (Inr m)
    let ?c = "client\<lparr>cl_nickname := login_nickname m\<rparr>"
    note role = readLoginMessage_role [OF Inr]
    obtain c1 why where d: "login_manager c ?c gs (login_role m) = denied c1 gs why"
      and c1: "sent c1 = sent client"
    proof (cases "free_place gs (login_role m)")
      case True
      with assms None Inr obtain err c1 where ack: "sendLoginACK ?c = (Some err, c1)"
        by (cases "sendLoginACK ?c") (auto simp: login_accepted_def)
      show ?thesis
        by (rule that [OF login_manager_unacked [OF role True ack]])
          (use sendLoginACK_effect [OF ack] in simp)
    next
      case False
      then show ?thesis
        using login_manager_full [OF role, of gs c ?c] that [of ?c] by auto
    qed
    with None Inr sent_Kick [of c1 "''LOGIN denied: '' @ why"] show ?thesis
      by (auto simp: handleFirstMessage_def denied_def)
  qed
qed

lemma login_accepted_effect:
  assumes "login_accepted client gs msg m"
  shows "\<exists>client'. handleClient c client gs msg
      = (client', fst (autostart (seat c (login_role m) gs)), handler_of c (login_role m),
         snd (autostart (seat c (login_role m) gs)))
    \<and> sent client' = sent client @ [login_ack] \<and> cl_nickname client' = login_nickname m
    \<and> cl_state client' = (if login_role m = ''game logic'' then cl_state client else CLIENT_LOGGED)"
proof -
  obtain client' where f: "handleFirstMessage c client gs msg
      = (client', seat c (login_role m) gs, handler_of c (login_role m))"
    "sent client' = sent client @ [login_ack]" "cl_nickname client' = login_nickname m"
    "cl_state client' = (if login_role m = ''game logic'' then cl_state client else CLIENT_LOGGED)"
    using first_message_accepted [OF assms] by blast
  then have "handleClient c client gs msg = (client', fst (autostart (seat c (login_role m) gs)), handler_of c (login_role m),
         snd (autostart (seat c (login_role m) gs)))"
    by (simp add: handleClient_def split: login_next.split prod.split)
  with f(2-4) show ?thesis by blast
qed

lemma login_refused_effect:
  assumes "\<nexists>m. login_accepted client gs msg m"
  shows "\<exists>client' why. handleClient c client gs msg = (client', gs, LoginRefused, [])
    \<and> cl_state client' = CLIENT_KICKED
    \<and> (sent client' = sent client \<or> sent client' = sent client @ [kick_msg why])"
  using first_message_refused [OF assms, of c] by (auto simp: handleClient_def)

section \<open>Lemmas: the roster\<close>

definition roster :: "GlobalState \<Rightarrow> cid list" where
  "roster gs = gs_GameLogic gs @ gs_Players gs @ gs_SpecialPlayers gs @ gs_Visus gs"

definition roster_ok :: "GlobalState \<Rightarrow> bool" where
  "roster_ok gs \<longleftrightarrow> distinct (roster gs) \<and> length (gs_GameLogic gs) \<le> 1"

definition within_capacity :: "GlobalState \<Rightarrow> bool" where
  "within_capacity gs \<longleftrightarrow> int (length (gs_Players gs)) \<le> gs_NbPlayersMax gs
     \<and> int (length (gs_SpecialPlayers gs)) \<le> gs_NbSpecialPlayersMax gs
     \<and> int (length (gs_Visus gs)) \<le> gs_NbVisusMax gs"

lemma seat_roster:
  "role \<in> set valid_roles \<Longrightarrow> mset (roster (seat c role gs)) = add_mset c (mset (roster gs))"
  by (erule valid_role_cases) (simp_all add: seat_def roster_def)

lemma seat_ok:
  assumes "role \<in> set valid_roles" "free_place gs role" "roster_ok gs" "c \<notin> set (roster gs)"
  shows "roster_ok (seat c role gs)"
proof -
  have "distinct (roster (seat c role gs)) \<longleftrightarrow> distinct (c # roster gs)"
    by (rule mset_eq_imp_distinct_iff) (simp add: seat_roster [OF assms(1)])
  moreover have "length (gs_GameLogic (seat c role gs)) \<le> 1"
    using assms(2,3)
    by (cases rule: valid_role_cases [OF assms(1)])
      (simp_all add: seat_def free_place_def roster_ok_def)
  ultimately show ?thesis using assms(3,4) by (simp add: roster_ok_def)
qed

lemma seat_within_capacity:
  "role \<in> set valid_roles \<Longrightarrow> free_place gs role \<Longrightarrow> within_capacity gs
     \<Longrightarrow> within_capacity (seat c role gs)"
  by (erule valid_role_cases) (simp_all add: seat_def free_place_def within_capacity_def)

lemma seat_lists:
  "gs_Players (seat c role gs) = gs_Players gs @ (if role = ''player'' then [c] else [])"
  "gs_Visus (seat c role gs) = gs_Visus gs @ (if role = ''visualization'' then [c] else [])"
  "gs_GameLogic (seat c role gs) = gs_GameLogic gs @ (if role = ''game logic'' then [c] else [])"
  by (simp_all add: seat_def)

lemma autostart_lists [simp]:
  "gs_Players (fst (autostart gs)) = gs_Players gs" "gs_Visus (fst (autostart gs)) = gs_Visus gs"
  "gs_GameLogic (fst (autostart gs)) = gs_GameLogic gs"
  "gs_SpecialPlayers (fst (autostart gs)) = gs_SpecialPlayers gs"
  by (simp_all add: autostart_def)

lemma autostart_running:
  "snd (autostart gs) \<noteq> [] \<Longrightarrow> gs_GameState (fst (autostart gs)) = GAME_RUNNING"
  by (simp add: autostart_def split: if_splits)

lemma autostart_roster [simp]:
  "roster (fst (autostart gs)) = roster gs" "roster_ok (fst (autostart gs)) = roster_ok gs"
  "within_capacity (fst (autostart gs)) = within_capacity gs"
  "areAllExpectedClientsConnected (fst (autostart gs)) = areAllExpectedClientsConnected gs"
  by (simp_all add: autostart_def roster_def roster_ok_def within_capacity_def
      areAllExpectedClientsConnected_def)

lemma autostart_ops:
  "snd (autostart gs) = (if gs_Autostart gs \<and> areAllExpectedClientsConnected gs
     then [SendStart (hd (gs_GameLogic gs))] else [])"
  by (simp add: autostart_def)

text \<open>No place is free once everybody expected is connected.\<close>

lemma full_house:
  "areAllExpectedClientsConnected gs \<Longrightarrow> role \<in> set valid_roles \<Longrightarrow> \<not> free_place gs role"
  by (erule valid_role_cases) (simp_all add: areAllExpectedClientsConnected_def free_place_def, auto)

section \<open>Sequences of logins\<close>

text \<open>
  Connections whose first messages are handled one after the other: the resulting state and the
  \<open>start\<close> signals, as long as nobody leaves.
\<close>

primrec logins ::
  "(cid \<times> Client \<times> ClientMessage) list \<Rightarrow> GlobalState \<Rightarrow> GlobalState \<times> chan_op list" where
  "logins [] gs = (gs, [])"
| "logins (a # as) gs = (case handleClient (fst a) (fst (snd a)) gs (snd (snd a)) of
     (client, gs', next, ops) \<Rightarrow> (case logins as gs' of (gs'', ops') \<Rightarrow> (gs'', ops @ ops')))"

lemma handleClient_cases:
  assumes "handleClient c client gs msg = (client', gs', next, ops)"
  obtains (refused) "gs' = gs" "next = LoginRefused" "ops = []" "\<nexists>m. login_accepted client gs msg m"
  | (accepted) m where "login_accepted client gs msg m" "login_role m \<in> set valid_roles"
      "free_place gs (login_role m)" "gs' = fst (autostart (seat c (login_role m) gs))"
      "ops = snd (autostart (seat c (login_role m) gs))" "next = handler_of c (login_role m)"
proof (cases "\<exists>m. login_accepted client gs msg m")
  case True
  then obtain m where m: "login_accepted client gs msg m" by blast
  then have "login_role m \<in> set valid_roles" "free_place gs (login_role m)"
    by (auto simp: login_accepted_def dest: readLoginMessage_role)
  with m show ?thesis
    using login_accepted_effect [OF m, of c] assms by (auto intro: accepted)
next
  case False
  then show ?thesis
    using login_refused_effect [OF False, of c] assms by (auto intro: refused)
qed

lemma handleClient_keeps:
  assumes h: "handleClient c client gs msg = (client', gs', next, ops)"
    and "roster_ok gs" "within_capacity gs" "c \<notin> set (roster gs)"
  shows "roster_ok gs' \<and> within_capacity gs' \<and> set (roster gs') \<subseteq> insert c (set (roster gs))
    \<and> (next = LoginRefused \<longrightarrow> gs' = gs) \<and> (next \<noteq> LoginRefused \<longrightarrow> c \<in> set (roster gs'))"
  using h
proof (cases rule: handleClient_cases)
  case refused
  with assms show ?thesis by auto
next
  case (accepted m)
  have "set (roster (seat c (login_role m) gs)) = insert c (set (roster gs))"
    using arg_cong [OF seat_roster [OF accepted(2), of c gs], of set_mset] by simp
  with accepted seat_ok [OF accepted(2,3)] seat_within_capacity [OF accepted(2,3)] assms
  show ?thesis by simp
qed

lemma logins_keeps:
  assumes "roster_ok gs" "within_capacity gs" "distinct (map fst as)"
    and "set (map fst as) \<inter> set (roster gs) = {}"
  shows "roster_ok (fst (logins as gs)) \<and> within_capacity (fst (logins as gs))"
  using assms
proof (induction as arbitrary: gs)
  case (Cons a as)
  obtain cl' gs' nx ops where h: "handleClient (fst a) (fst (snd a)) gs (snd (snd a)) = (cl', gs', nx, ops)"
    by (cases "handleClient (fst a) (fst (snd a)) gs (snd (snd a))") auto
  have k: "roster_ok gs'" "within_capacity gs'" "set (roster gs') \<subseteq> insert (fst a) (set (roster gs))"
    using handleClient_keeps [OF h] Cons.prems by auto
  have "roster_ok (fst (logins as gs')) \<and> within_capacity (fst (logins as gs'))"
  proof (rule Cons.IH)
    have "fst a \<notin> set (map fst as)" "set (map fst as) \<inter> set (roster gs) = {}"
      using Cons.prems(3,4) by simp_all
    with k(3) show "set (map fst as) \<inter> set (roster gs') = {}" by blast
  qed (use k Cons.prems(3) in simp_all)
  with h show ?case by (auto split: prod.split)
qed simp

lemma logins_full: "areAllExpectedClientsConnected gs \<Longrightarrow> logins as gs = (gs, [])"
proof (induction as)
  case (Cons a as)
  obtain cl' gs' nx ops where h: "handleClient (fst a) (fst (snd a)) gs (snd (snd a)) = (cl', gs', nx, ops)"
    by (cases "handleClient (fst a) (fst (snd a)) gs (snd (snd a))") auto
  then have "gs' = gs \<and> ops = []"
    by (cases rule: handleClient_cases) (use full_house [OF Cons.prems] in auto)
  with h Cons show ?case by simp
qed simp

lemma seat_autostart [simp]: "gs_Autostart (seat c role gs) = gs_Autostart gs"
  by (simp add: seat_def)

lemma logins_start:
  assumes "gs_Autostart gs" "\<not> areAllExpectedClientsConnected gs"
  shows "snd (logins as gs) = (if areAllExpectedClientsConnected (fst (logins as gs))
    then [SendStart (hd (gs_GameLogic (fst (logins as gs))))] else [])
   \<and> (areAllExpectedClientsConnected (fst (logins as gs)) \<longrightarrow> gs_GameState (fst (logins as gs)) = GAME_RUNNING)"
  using assms
proof (induction as arbitrary: gs)
  case (Cons a as)
  obtain cl' gs' nx ops where h: "handleClient (fst a) (fst (snd a)) gs (snd (snd a)) = (cl', gs', nx, ops)"
    by (cases "handleClient (fst a) (fst (snd a)) gs (snd (snd a))") auto
  then show ?case
  proof (cases rule: handleClient_cases)
    case refused
    with h Cons show ?thesis by (simp split: prod.split)
  next
    case (accepted m)
    let ?gs = "seat (fst a) (login_role m) gs"
    show ?thesis
    proof (cases "areAllExpectedClientsConnected ?gs")
      case True
      then have "areAllExpectedClientsConnected gs'" using accepted(4) by simp
      from logins_full [OF this] True h accepted(4,5) Cons.prems show ?thesis
        by (auto simp: autostart_def areAllExpectedClientsConnected_def)
    next
      case False
      then have "gs' = ?gs" "ops = []" using accepted(4,5) by (auto simp: autostart_def)
      with h Cons.IH [of gs'] Cons.prems(1) False show ?thesis by (simp split: prod.split)
    qed
  qed
qed simp

section \<open>Examples\<close>

definition login_message :: "string \<Rightarrow> string \<Rightarrow> ClientMessage" where
  "login_message nickname role = good_message
     [(''message_type'', JStr ''LOGIN''), (''nickname'', JStr nickname), (''role'', JStr role),
      (''metaprotocol_version'', JStr Version)]"

text \<open>A server that waits for one player, no visualization and a game logic.\<close>

definition small_server :: GlobalState where
  "small_server = \<lparr>gs_listening = True, gs_prompt = False, gs_GameState = GAME_NOT_RUNNING,
     gs_GameLogic = [], gs_Players = [], gs_SpecialPlayers = [], gs_Visus = [],
     gs_NbPlayersMax = 1, gs_NbSpecialPlayersMax = 0, gs_NbVisusMax = 1, gs_NbTurnsMax = 100,
     gs_Autostart = True, gs_Fast = False, gs_MillisecondsBeforeFirstTurn = FNum 1000,
     gs_MillisecondsBetweenTurns = FNum 1000\<rparr>"

definition bob :: Client where "bob = new_client ''127.0.0.1:40000'' None"

lemma sendLoginACK_healthy:
  assumes h: "healthy (cl_writer c)"
  shows "\<exists>c'. sendLoginACK c = (None, c') \<and> healthy (cl_writer c')"
proof -
  let ?m = "\<lparr>lack_MessageType = ''LOGIN_ACK'', lack_MetaprotocolVersion = Version\<rparr>"
  let ?j = "(''{'' @ quote_string ''message_type'' @ '':'' @ quote_string ''LOGIN_ACK'') @ '',''
      @ quote_string ''metaprotocol_version'' @ '':'' @ quote_string Version @ ''}''"
  have v: "length Version = 5"
    by (simp add: Version_def VersionMajor_def VersionMinor_def VersionPatch_def show_int_def
        show_nat.simps)
  have j: "Marshal (MessageLoginAck_json ?m) = Inr ?j"
    by (simp add: MessageLoginAck_json_def field_part_def enclose_def)
  have l: "length ?j < 16777215"
    using length_quote_string [of "''message_type''"] length_quote_string [of "''LOGIN_ACK''"]
      length_quote_string [of "''metaprotocol_version''"] length_quote_string [of Version] v
    by simp
  from send_json_healthy [OF h j l, of "OLoginAck ?m"] show ?thesis
    unfolding sendLoginACK_def Let_def by (elim exE conjE) simp
qed

text \<open>On a connection that works a refused or removed client is told why.\<close>

lemma Kick_healthy:
  assumes "healthy (cl_writer c)" "cl_state c \<noteq> CLIENT_KICKED" "length r \<le> 1000000"
  shows "sent (Kick c r) = sent c @ [kick_msg r]"
proof -
  let ?m = "\<lparr>kick_MessageType = ''KICK'', kick_KickReason = r\<rparr>"
  let ?j = "(''{'' @ quote_string ''message_type'' @ '':'' @ quote_string ''KICK'') @ '',''
      @ quote_string ''kick_reason'' @ '':'' @ quote_string r @ ''}''"
  have j: "Marshal (MessageKick_json ?m) = Inr ?j"
    by (simp add: MessageKick_json_def field_part_def enclose_def)
  have l: "length ?j < 16777215"
    using length_quote_string [of "''message_type''"] length_quote_string [of "''KICK''"]
      length_quote_string [of "''kick_reason''"] length_quote_string [of r] assms(3)
    by simp
  have "healthy (cl_writer (c\<lparr>cl_state := CLIENT_KICKED\<rparr>))" using assms(1) by simp
  from send_json_healthy [OF this j l, of "OKick ?m"] assms(2) show ?thesis
    by (auto simp: Kick_def sent_def kick_msg_def)
qed

lemma version_ok_Version: "version_ok Version" and length_Version: "length Version = 5"
proof -
  have "version_ok (''2'' @ ''.'' @ ''0'' @ ''.'' @ ''0'')"
  proof (unfold version_ok_def, rule exI [of _ "''2''"], rule exI [of _ "''0''"],
      rule exI [of _ "''0''"], intro conjI)
    show "Atoi_value ''2'' = VersionMajor"
      by (simp add: Atoi_value_def ParseInt_def ParseUint_def digit_value_def VersionMajor_def)
  qed (simp_all add: digits_def is_digit_def)
  moreover have "Version = ''2'' @ ''.'' @ ''0'' @ ''.'' @ ''0''" by code_simp
  ultimately show "version_ok Version" by simp
  show "length Version = 5" by code_simp
qed

lemma example_logins:
  assumes "nickname_ok n" "role \<in> set valid_roles"
  shows "readLoginMessage (msg_content (login_message n role))
    = Inr \<lparr>login_nickname = n, login_role = role, login_version = Version\<rparr>"
  using assms version_ok_Version by (simp add: readLoginMessage_iff login_message_def good_message_def)

text \<open>The server of the examples with its player and its visualization connected.\<close>

definition bob_server :: GlobalState where
  "bob_server = seat 1 ''visualization'' (seat 0 ''player'' small_server)"

lemma bob_accepted:
  assumes "role \<in> set valid_roles" "free_place gs role"
  shows "login_accepted bob gs (login_message ''bob'' role)
     \<lparr>login_nickname = ''bob'', login_role = role, login_version = Version\<rparr>"
proof -
  have "nickname_ok ''bob''" by (simp add: nickname_ok_def)
  moreover have "healthy (cl_writer (bob\<lparr>cl_nickname := ''bob''\<rparr>))"
    by (simp add: bob_def new_client_def healthy_def)
  ultimately show ?thesis
    using assms sendLoginACK_healthy [of "bob\<lparr>cl_nickname := ''bob''\<rparr>"]
    by (auto simp: login_accepted_def example_logins)
      (simp add: login_message_def good_message_def)
qed

lemma bob_logs_in:
  assumes "role \<in> set valid_roles" "free_place gs role"
  shows "\<exists>cl. handleFirstMessage c bob gs (login_message ''bob'' role) = (cl, seat c role gs, handler_of c role)
    \<and> healthy (cl_writer cl) \<and> sent cl = [login_ack]"
proof -
  have "healthy (cl_writer (bob\<lparr>cl_nickname := ''bob''\<rparr>))" by (simp add: bob_def new_client_def healthy_def)
  from sendLoginACK_healthy [OF this] obtain c1 where
    a: "sendLoginACK (bob\<lparr>cl_nickname := ''bob''\<rparr>) = (None, c1)" "healthy (cl_writer c1)" by blast
  have "sent c1 = [login_ack]" using sendLoginACK_effect [OF a(1)] by (simp add: bob_def new_client_def sent_def)
  moreover have "handleFirstMessage c bob gs (login_message ''bob'' role)
      = login_manager c (bob\<lparr>cl_nickname := ''bob''\<rparr>) gs role"
    using bob_accepted [OF assms] by (simp add: login_accepted_def handleFirstMessage_def)
  ultimately show ?thesis using login_manager_accepts [OF assms a(1), of c] a(2) by (auto simp: sent_def)
qed

section \<open>Properties\<close>

text \<open>
  C7. A login that the policy admits: the client has received LOGIN_ACK and nothing else, carries
  its nickname, sits in the list of its role and in no other, goes on in the handler of its role,
  and the game is started by it exactly when it was the last client expected and the automatic
  start is on.
\<close>

theorem handleClient_accepts:
  assumes "login_accepted client gs msg m"
    and "handleClient c client gs msg = (client', gs', next, ops)"
  shows "sent client' = sent client @ [login_ack] \<and> cl_nickname client' = login_nickname m
    \<and> next = handler_of c (login_role m)
    \<and> mset (roster gs') = add_mset c (mset (roster gs))
    \<and> gs_Players gs' = gs_Players gs @ (if login_role m = ''player'' then [c] else [])
    \<and> gs_Visus gs' = gs_Visus gs @ (if login_role m = ''visualization'' then [c] else [])
    \<and> gs_GameLogic gs' = gs_GameLogic gs @ (if login_role m = ''game logic'' then [c] else [])
    \<and> ops = (if gs_Autostart gs \<and> areAllExpectedClientsConnected gs'
             then [SendStart (hd (gs_GameLogic gs'))] else [])
    \<and> (ops \<noteq> [] \<longrightarrow> gs_GameState gs' = GAME_RUNNING)"
proof -
  have role: "login_role m \<in> set valid_roles"
    using assms(1) by (auto simp: login_accepted_def dest: readLoginMessage_role)
  let ?gs = "seat c (login_role m) gs"
  have e: "gs' = fst (autostart ?gs)" "ops = snd (autostart ?gs)"
    "next = handler_of c (login_role m)"
    "sent client' = sent client @ [login_ack]" "cl_nickname client' = login_nickname m"
    using login_accepted_effect [OF assms(1), of c] assms(2) by auto
  have ops: "ops = (if gs_Autostart gs \<and> areAllExpectedClientsConnected gs'
      then [SendStart (hd (gs_GameLogic gs'))] else [])"
    using e(1,2) by (simp add: autostart_ops)
  have "mset (roster gs') = add_mset c (mset (roster gs))"
    using e(1) seat_roster [OF role, of c gs] by simp
  moreover have "ops \<noteq> [] \<longrightarrow> gs_GameState gs' = GAME_RUNNING"
    using e(1,2) autostart_running by blast
  ultimately show ?thesis
    using e(3-5) ops by (simp only: e(1) autostart_lists seat_lists simp_thms)
qed

theorem handleClient_accepts_witness:
  "\<exists>client' gs'. handleClient 2 bob bob_server (login_message ''bob'' ''game logic'')
      = (client', gs', RunGameLogic 2, [SendStart 2])
    \<and> sent client' = [login_ack] \<and> gs_GameLogic gs' = [2] \<and> gs_GameState gs' = GAME_RUNNING"
proof -
  obtain cl gs nx ops where
    h: "handleClient 2 bob bob_server (login_message ''bob'' ''game logic'') = (cl, gs, nx, ops)"
    by (metis prod_cases4)
  have "''game logic'' \<in> set valid_roles" "free_place bob_server ''game logic''"
    by (simp_all add: valid_roles_def free_place_def bob_server_def small_server_def seat_def)
  note p = handleClient_accepts [OF bob_accepted [OF this] h]
  have g: "gs_GameLogic gs = [2]" using p by (simp add: bob_server_def small_server_def seat_def)
  have "gs = fst (autostart (seat 2 ''game logic'' bob_server))"
    using login_accepted_effect [OF bob_accepted [of "''game logic''" bob_server], of 2] h
    by (simp add: valid_roles_def free_place_def bob_server_def small_server_def seat_def)
  moreover have "areAllExpectedClientsConnected (seat 2 ''game logic'' bob_server)"
    by (simp add: areAllExpectedClientsConnected_def bob_server_def small_server_def seat_def)
  ultimately have "areAllExpectedClientsConnected gs" by simp
  with p g h show ?thesis
    by (simp add: handler_of_def bob_server_def small_server_def seat_def bob_def new_client_def
        sent_def)
qed

text \<open>
  C17. Every other first message (unreadable, no valid LOGIN, no free place for the role, or a
  LOGIN_ACK that cannot be sent) leaves the server exactly as it was; the client is marked as
  kicked and has received one KICK or, if that could not be sent either, nothing.
\<close>

theorem handleClient_refuses:
  assumes "\<nexists>m. login_accepted client gs msg m"
    and "handleClient c client gs msg = (client', gs', next, ops)"
  shows "gs' = gs \<and> next = LoginRefused \<and> ops = [] \<and> cl_state client' = CLIENT_KICKED
    \<and> (sent client' = sent client \<or> (\<exists>why. sent client' = sent client @ [kick_msg why]))"
  using login_refused_effect [OF assms(1), of c] assms(2) by auto

theorem handleClient_refuses_witness:
  "\<exists>client'. handleClient 2 bob bob_server (login_message ''bob'' ''player'')
      = (client', bob_server, LoginRefused, []) \<and> cl_state client' = CLIENT_KICKED"
proof -
  obtain cl gs nx ops where
    h: "handleClient 2 bob bob_server (login_message ''bob'' ''player'') = (cl, gs, nx, ops)"
    by (metis prod_cases4)
  have r: "readLoginMessage (msg_content (login_message ''bob'' ''player''))
      = Inr \<lparr>login_nickname = ''bob'', login_role = ''player'', login_version = Version\<rparr>"
    by (rule example_logins) (simp_all add: nickname_ok_def valid_roles_def)
  have "\<not> free_place bob_server ''player''"
    by (simp add: free_place_def bob_server_def small_server_def seat_def)
  with r have "\<nexists>m. login_accepted bob bob_server (login_message ''bob'' ''player'') m"
    by (auto simp: login_accepted_def)
  from handleClient_refuses [OF this h] h show ?thesis by simp
qed

text \<open>
  However many connections arrive, as long as each is a new one: no client is ever in two
  lists or twice in one, there is at most one game logic, and no maximum is exceeded.
\<close>

lemma logins_safe:
  assumes "roster_ok gs" and "within_capacity gs" and "distinct (map fst as)"
    and "set (map fst as) \<inter> set (roster gs) = {}"
  shows "distinct (roster (fst (logins as gs))) \<and> length (gs_GameLogic (fst (logins as gs))) \<le> 1
    \<and> int (length (gs_Players (fst (logins as gs)))) \<le> gs_NbPlayersMax (fst (logins as gs))
    \<and> int (length (gs_SpecialPlayers (fst (logins as gs)))) \<le> gs_NbSpecialPlayersMax (fst (logins as gs))
    \<and> int (length (gs_Visus (fst (logins as gs)))) \<le> gs_NbVisusMax (fst (logins as gs))"
  using logins_keeps [OF assms] by (simp add: roster_ok_def within_capacity_def)

text \<open>
  C26. With the automatic start on, logins that are handled one after the other start the game exactly
  when they complete the expected clients, and then once, on the game logic that is connected.  (Theory
  Server_Race has logins at the same time.)
\<close>

theorem logins_start_once:
  assumes "gs_Autostart gs" and "\<not> areAllExpectedClientsConnected gs"
  shows "snd (logins as gs) = (if areAllExpectedClientsConnected (fst (logins as gs))
      then [SendStart (hd (gs_GameLogic (fst (logins as gs))))] else [])
    \<and> (areAllExpectedClientsConnected (fst (logins as gs))
       \<longrightarrow> gs_GameState (fst (logins as gs)) = GAME_RUNNING)"
  using logins_start [OF assms] .

theorem logins_start_once_witness:
  "snd (logins [] bob_server) = [] \<and>
   snd (logins [(2, bob, login_message ''bob'' ''game logic''),
     (3, bob, login_message ''bob'' ''visualization'')] bob_server) = [SendStart 2]"
proof -
  have a: "gs_Autostart bob_server" "\<not> areAllExpectedClientsConnected bob_server"
    by (simp_all add: areAllExpectedClientsConnected_def bob_server_def small_server_def seat_def)
  let ?gs = "seat 2 ''game logic'' bob_server"
  have full: "areAllExpectedClientsConnected ?gs"
    by (simp add: areAllExpectedClientsConnected_def bob_server_def small_server_def seat_def)
  obtain cl where h: "handleClient 2 bob bob_server (login_message ''bob'' ''game logic'')
      = (cl, fst (autostart ?gs), handler_of 2 ''game logic'', snd (autostart ?gs))"
    using login_accepted_effect [OF bob_accepted [of "''game logic''" bob_server], of 2]
    by (auto simp: valid_roles_def free_place_def bob_server_def small_server_def seat_def)
  have "areAllExpectedClientsConnected (fst (autostart ?gs))" using full by simp
  note ll = logins_full [OF this]
  have l: "fst (logins [(2, bob, login_message ''bob'' ''game logic''),
      (3, bob, login_message ''bob'' ''visualization'')] bob_server) = fst (autostart ?gs)"
    by (subst logins.simps(2)) (simp add: h ll del: logins.simps)
  have "gs_GameLogic bob_server = []" by (simp add: bob_server_def small_server_def seat_def)
  with full have "snd (logins [(2, bob, login_message ''bob'' ''game logic''),
      (3, bob, login_message ''bob'' ''visualization'')] bob_server) = [SendStart 2]"
    using logins_start_once [OF a, of "[(2, bob, login_message ''bob'' ''game logic''),
      (3, bob, login_message ''bob'' ''visualization'')]"]
    unfolding l by (simp add: seat_lists del: logins.simps)
  then show ?thesis by simp
qed

text \<open>
  The automatic start looks at who is connected and not at whether a game is already running:
  when a visualization that left a running game is replaced and everybody expected is connected
  again, the start signal is sent a second time.
\<close>

lemma autostart_again:
  assumes "login_accepted client gs msg m" and "login_role m = ''visualization''"
    and "gs_Autostart gs" and "areAllExpectedClientsConnected (seat c ''visualization'' gs)"
    and "gs_GameState gs = GAME_RUNNING"
    and "handleClient c client gs msg = (client', gs', next, ops)"
  shows "ops = [SendStart (hd (gs_GameLogic gs))]"
  using login_accepted_effect [OF assms(1), of c] assms(2-6)
  by (auto simp: autostart_def seat_lists)

text \<open>
  C29. \<open>Cleanup\<close> tells every connected client, once each, to terminate, and nobody else; it
  closes the listening socket and tears the prompt down.
\<close>

theorem Cleanup_tells_everyone:
  assumes "roster_ok gs" and "Cleanup gs = (gs', ops)"
  shows "length (filter (\<lambda>op. op = SendCanTerminate c ''netorcai abort'') ops)
      = (if c \<in> set (roster gs) then 1 else 0)
    \<and> length ops = length (roster gs) \<and> \<not> gs_listening gs' \<and> \<not> gs_prompt gs'"
proof -
  let ?cs = "gs_Players gs @ gs_SpecialPlayers gs @ gs_Visus gs @ gs_GameLogic gs"
  have ops: "ops = map (\<lambda>c. SendCanTerminate c ''netorcai abort'') ?cs"
    using assms(2) by (auto simp: Cleanup_def)
  have "mset ?cs = mset (roster gs)" by (simp add: roster_def)
  with assms(1) have d: "distinct ?cs"
    using mset_eq_imp_distinct_iff by (metis roster_ok_def)
  have "length (filter (\<lambda>op. op = SendCanTerminate c ''netorcai abort'') ops)
      = length (filter (\<lambda>x. x = c) ?cs)"
    unfolding ops filter_map by (simp add: comp_def)
  also have "\<dots> = card (set (filter (\<lambda>x. x = c) ?cs))"
    by (rule distinct_card [symmetric]) (rule distinct_filter [OF d])
  also have "set (filter (\<lambda>x. x = c) ?cs) = (if c \<in> set (roster gs) then {c} else {})"
    by (auto simp: roster_def)
  finally show ?thesis using ops assms(2) by (auto simp: Cleanup_def roster_def)
qed

theorem Cleanup_tells_everyone_witness:
  "length (filter (\<lambda>op. op = SendCanTerminate 1 ''netorcai abort'') (snd (Cleanup bob_server))) = 1"
proof -
  have r: "roster_ok bob_server"
    by (simp add: roster_ok_def roster_def bob_server_def small_server_def seat_def)
  have "Cleanup bob_server = (fst (Cleanup bob_server), snd (Cleanup bob_server))" by simp
  from Cleanup_tells_everyone [OF r this, of 1] show ?thesis
    by (simp add: roster_def) (simp add: bob_server_def small_server_def seat_def)
qed

end
