(* ===== verification/Player_Visu.thy ===== *)
theory Player_Visu
  imports Control
begin

text \<open>
  src/control_pv.go: the goroutine of a player or a visualization.  One turn of its \<open>select\<close> loop
  is the function \<open>handlePlayerOrVisu\<close> on the event that was selected; the local variables of the
  goroutine, with the state of its client and the place where it waits, are a \<open>pv_thread\<close>.  What
  it shares with the other goroutines (the global state, the store of player information, and the
  fields of its \<open>PlayerOrVisuClient\<close> that the game logic goroutine writes) is a \<open>pv_shared\<close>: an
  argument of every step, so that it may have changed in any way since the step before.
\<close>

section \<open>State and events\<close>

datatype pv_pc = PvLoop | PvFinition | PvReturned

record pv_thread =
  pt_client :: Client
  pt_turnBuffer :: "MessageTurn list"
  pt_lastTurnNumberSent :: int
  pt_glClient :: "cid option"
  pt_pc :: pv_pc

record pv_shared =
  sh_gs :: GlobalState
  sh_infos :: "pref \<Rightarrow> PlayerInformation"
  sh_pv :: PlayerOrVisuClient

datatype pv_event =
    PvCanTerminate string
  | PvGameStarts MessageGameStarts
  | PvGameEnds MessageGameEnds
  | PvNewTurn MessageTurn
  | PvIncoming ClientMessage

text \<open>
  A step may be impossible because the goroutine does not receive from that channel where it is,
  it may end the program by a run-time panic, or it may succeed with the channel operations it
  performs.
\<close>

datatype pv_outcome =
    PvBlocked
  | PvPanicked panic
  | PvStepped pv_shared pv_thread "chan_op list"

definition pv_start :: "Client \<Rightarrow> pv_thread" where
  "pv_start client = \<lparr>pt_client = client, pt_turnBuffer = [], pt_lastTurnNumberSent = - 1,
     pt_glClient = None, pt_pc = PvLoop\<rparr>"

section \<open>Sending\<close>

definition sendGameStarts ::
  "(pref \<Rightarrow> PlayerInformation) \<Rightarrow> Client \<Rightarrow> MessageGameStarts \<Rightarrow> string option \<times> Client" where
  "sendGameStarts infos client msg =
     send_json client (OGameStarts msg) (MessageGameStarts_json infos msg)"

definition sendTurn ::
  "(pref \<Rightarrow> PlayerInformation) \<Rightarrow> Client \<Rightarrow> MessageTurn \<Rightarrow> string option \<times> Client" where
  "sendTurn infos client msg = send_json client (OTurn msg) (MessageTurn_json infos msg)"

definition sendGameEnds :: "Client \<Rightarrow> MessageGameEnds \<Rightarrow> string option \<times> Client" where
  "sendGameEnds client msg = send_json client (OGameEnds msg) (MessageGameEnds_json msg)"

section \<open>Removing a client\<close>

text \<open>The search by client pointer, the swap with the last element and the shorter slice.\<close>

definition remove_from :: "cid \<Rightarrow> cid list \<Rightarrow> cid list" where
  "remove_from c cs = (case find_index (\<lambda>p. p = c) cs of
      None \<Rightarrow> cs
    | Some index \<Rightarrow> swap_remove index cs)"

definition mark_disconnected ::
  "pref option \<Rightarrow> (pref \<Rightarrow> PlayerInformation) \<Rightarrow> (pref \<Rightarrow> PlayerInformation)" where
  "mark_disconnected p infos = (case p of
      None \<Rightarrow> infos
    | Some r \<Rightarrow> infos(r := (infos r)\<lparr>pi_IsConnected := False\<rparr>))"

text \<open>In fast mode the game logic is told that a player left a running game.\<close>

definition tell_disconnected :: "GlobalState \<Rightarrow> int \<Rightarrow> panic + chan_op list" where
  "tell_disconnected gs playerID =
     (if gs_GameState gs = GAME_RUNNING \<and> gs_Fast gs
      then (case gs_GameLogic gs of
          [] \<Rightarrow> Inl IndexOutOfRange
        | gl # _ \<Rightarrow> Inr [SendPlayerDisconnected gl playerID])
      else Inr [])"

definition KickLoggedPlayerOrVisu ::
  "pv_shared \<Rightarrow> Client \<Rightarrow> string \<Rightarrow> panic + pv_shared \<times> Client \<times> chan_op list" where
  "KickLoggedPlayerOrVisu sh client reason =
     (let pv = sh_pv sh; gs = sh_gs sh; c = pv_client pv in
      if pv_isPlayer pv then
        (let infos = mark_disconnected (pv_playerInfo pv) (sh_infos sh) in
         case tell_disconnected gs (pv_playerID pv) of
           Inl p \<Rightarrow> Inl p
         | Inr ops \<Rightarrow>
             Inr (sh\<lparr>sh_infos := infos,
                    sh_gs := (if pv_isSpecialPlayer pv
                      then gs\<lparr>gs_SpecialPlayers := remove_from c (gs_SpecialPlayers gs)\<rparr>
                      else gs\<lparr>gs_Players := remove_from c (gs_Players gs)\<rparr>)\<rparr>,
                  Kick client reason, ops))
      else Inr (sh\<lparr>sh_gs := gs\<lparr>gs_Visus := remove_from c (gs_Visus gs)\<rparr>\<rparr>, Kick client reason, []))"

text \<open>A step that ends with the removal of the client; \<open>ops\<close> are the operations done before.\<close>

definition pv_kicked :: "pv_shared \<Rightarrow> pv_thread \<Rightarrow> Client \<Rightarrow> string \<Rightarrow> chan_op list \<Rightarrow> pv_outcome" where
  "pv_kicked sh th client reason ops = (case KickLoggedPlayerOrVisu sh client reason of
      Inl p \<Rightarrow> PvPanicked p
    | Inr (sh', client', ops') \<Rightarrow>
        PvStepped sh' (th\<lparr>pt_client := client', pt_pc := PvReturned\<rparr>) (ops @ ops'))"

section \<open>The loop\<close>

definition pv_on_game_starts :: "pv_shared \<Rightarrow> pv_thread \<Rightarrow> MessageGameStarts \<Rightarrow> pv_outcome" where
  "pv_on_game_starts sh th gameStarts =
     (case sendGameStarts (sh_infos sh) (pt_client th) gameStarts of
        (Some err, client) \<Rightarrow> pv_kicked sh th client (''Cannot send GAME_STARTS. '' @ err) []
      | (None, client) \<Rightarrow> (case gs_GameLogic (sh_gs sh) of
            [] \<Rightarrow> PvPanicked IndexOutOfRange
          | gl # _ \<Rightarrow>
              PvStepped sh (th\<lparr>pt_client := client\<lparr>cl_state := CLIENT_READY\<rparr>,
                               pt_glClient := Some gl\<rparr>) []))"

definition pv_on_game_ends :: "pv_shared \<Rightarrow> pv_thread \<Rightarrow> MessageGameEnds \<Rightarrow> pv_outcome" where
  "pv_on_game_ends sh th gameEnds = (case sendGameEnds (pt_client th) gameEnds of
      (Some err, client) \<Rightarrow> pv_kicked sh th client (''Cannot send GAME_ENDS. '' @ err) []
    | (None, client) \<Rightarrow>
        PvStepped sh (th\<lparr>pt_client := Kick client ''Game is finished'', pt_pc := PvFinition\<rparr>) [])"

definition pv_on_new_turn :: "pv_shared \<Rightarrow> pv_thread \<Rightarrow> MessageTurn \<Rightarrow> pv_outcome" where
  "pv_on_new_turn sh th turn =
     (if cl_state (pt_client th) = CLIENT_READY then
        (let th1 = th\<lparr>pt_lastTurnNumberSent := turn_TurnNumber turn\<rparr> in
         case sendTurn (sh_infos sh) (pt_client th) turn of
           (Some err, client) \<Rightarrow> pv_kicked sh th1 client (''Cannot send TURN. '' @ err) []
         | (None, client) \<Rightarrow>
             PvStepped sh (th1\<lparr>pt_client := client\<lparr>cl_state := CLIENT_THINKING\<rparr>\<rparr>) [])
      else if cl_state (pt_client th) = CLIENT_THINKING then
        PvStepped sh (th\<lparr>pt_turnBuffer :=
          (if 0 < length (pt_turnBuffer th) then (pt_turnBuffer th)[0 := turn]
           else pt_turnBuffer th @ [turn])\<rparr>) []
      else PvStepped sh th [])"

text \<open>After an accepted TURN_ACK: a buffered turn is sent right away.\<close>

definition pv_after_ack :: "pv_shared \<Rightarrow> pv_thread \<Rightarrow> chan_op list \<Rightarrow> pv_outcome" where
  "pv_after_ack sh th ops = (case pt_turnBuffer th of
      turn # _ \<Rightarrow>
        (let th1 = th\<lparr>pt_lastTurnNumberSent := turn_TurnNumber turn\<rparr> in
         case sendTurn (sh_infos sh) (pt_client th) turn of
           (Some err, client) \<Rightarrow> pv_kicked sh th1 client (''Cannot send TURN. '' @ err) ops
         | (None, client) \<Rightarrow>
             PvStepped sh (th1\<lparr>pt_turnBuffer := [], pt_client := client\<lparr>cl_state := CLIENT_THINKING\<rparr>\<rparr>) ops)
    | [] \<Rightarrow>
        PvStepped sh (th\<lparr>pt_client := (pt_client th)\<lparr>cl_state := CLIENT_READY\<rparr>\<rparr>) ops)"

definition pv_on_incoming :: "pv_shared \<Rightarrow> pv_thread \<Rightarrow> ClientMessage \<Rightarrow> pv_outcome" where
  "pv_on_incoming sh th msg = (case msg_err msg of
      Some err \<Rightarrow> pv_kicked sh th (pt_client th) (''Cannot read TURN_ACK. '' @ err) []
    | None \<Rightarrow> (case readTurnAckMessage (msg_content msg) (pt_lastTurnNumberSent th) of
          Inl err \<Rightarrow> pv_kicked sh th (pt_client th) (''Invalid TURN_ACK received. '' @ err) []
        | Inr turnAckMsg \<Rightarrow>
            if cl_state (pt_client th) \<noteq> CLIENT_THINKING
            then pv_kicked sh th (pt_client th)
                   ''Received a TURN_ACK but the client state is not THINKING'' []
            else if pv_isPlayer (sh_pv sh) then
              (case pt_glClient th of
                 None \<Rightarrow> PvPanicked NilDereference
               | Some gl \<Rightarrow> pv_after_ack sh th
                   [SendPlayerAction gl \<lparr>pa_PlayerID = pv_playerID (sh_pv sh),
                      pa_TurnNumber = tack_turnNumber turnAckMsg,
                      pa_Actions = tack_actions turnAckMsg\<rparr>])
            else pv_after_ack sh th []))"

definition handlePlayerOrVisu :: "pv_shared \<Rightarrow> pv_event \<Rightarrow> pv_thread \<Rightarrow> pv_outcome" where
  "handlePlayerOrVisu sh ev th = (case ev of
      PvCanTerminate kickReason \<Rightarrow>
        PvStepped sh (th\<lparr>pt_client := Kick (pt_client th) kickReason, pt_pc := PvReturned\<rparr>) []
    | PvGameStarts gameStarts \<Rightarrow> pv_on_game_starts sh th gameStarts
    | PvGameEnds gameEnds \<Rightarrow> pv_on_game_ends sh th gameEnds
    | PvNewTurn turn \<Rightarrow> pv_on_new_turn sh th turn
    | PvIncoming msg \<Rightarrow> pv_on_incoming sh th msg)"

text \<open>After GAME_ENDS only two channels are still received from.\<close>

definition waitPlayerOrVisuFinition :: "pv_shared \<Rightarrow> pv_event \<Rightarrow> pv_thread \<Rightarrow> pv_outcome" where
  "waitPlayerOrVisuFinition sh ev th = (case ev of
      PvCanTerminate kickReason \<Rightarrow>
        PvStepped sh (th\<lparr>pt_client := Kick (pt_client th) kickReason, pt_pc := PvReturned\<rparr>) []
    | PvIncoming _ \<Rightarrow> PvStepped sh th []
    | _ \<Rightarrow> PvBlocked)"

definition pv_step :: "pv_shared \<Rightarrow> pv_event \<Rightarrow> pv_thread \<Rightarrow> pv_outcome" where
  "pv_step sh ev th = (case pt_pc th of
      PvLoop \<Rightarrow> handlePlayerOrVisu sh ev th
    | PvFinition \<Rightarrow> waitPlayerOrVisuFinition sh ev th
    | PvReturned \<Rightarrow> PvBlocked)"

text \<open>
  The histories of the goroutine: the events it received, each with the shared state it found,
  the state it reached and the channel operations it performed.
\<close>

inductive pv_trace ::
  "pv_thread \<Rightarrow> (pv_shared \<times> pv_event) list \<Rightarrow> pv_thread \<Rightarrow> chan_op list \<Rightarrow> bool" where
  pv_nil: "pv_trace th [] th []"
| pv_snoc: "pv_trace th0 es th ops \<Longrightarrow> pv_step sh e th = PvStepped sh' th' ops'
    \<Longrightarrow> pv_trace th0 (es @ [(sh, e)]) th' (ops @ ops')"

inductive_cases pv_trace_emptyE: "pv_trace th0 [] th ops"
inductive_cases pv_trace_snocE: "pv_trace th0 (es @ [x]) th ops"

section \<open>Lemmas: removal\<close>

lemma mset_remove_from: "mset (remove_from c cs) = mset cs - {#c#}"
proof (cases "find_index (\<lambda>p. p = c) cs")
  case None
  then have "c \<notin># mset cs" by (auto simp: find_index_None)
  with None show ?thesis by (simp add: remove_from_def diff_single_trivial)
next
  case (Some i)
  from find_index_Some [OF this] have i: "i < length cs" "cs ! i = c" by auto
  from mset_swap_remove [OF i(1)] i(2) Some show ?thesis
    by (metis add_mset_remove_trivial mset.simps(2) option.simps(5) remove_from_def)
qed

lemma distinct_minus: "mset ys = mset xs - {#c#} \<Longrightarrow> distinct xs \<Longrightarrow> distinct ys"
  by (metis distinct_remove1 mset_eq_imp_distinct_iff mset_remove1)

lemma set_minus: "mset ys = mset xs - {#c#} \<Longrightarrow> distinct xs \<Longrightarrow> set ys = set xs - {c}"
  by (metis mset_eq_setD mset_remove1 set_remove1_eq)

text \<open>
  What the server relies on for each of its lists of clients: a login appends, a removal takes
  exactly that client away, whatever the order of the others becomes.
\<close>

locale client_registry =
  fixes members :: "'s \<Rightarrow> 'a list"
    and join :: "'a \<Rightarrow> 's \<Rightarrow> 's"
    and leave :: "'a \<Rightarrow> 's \<Rightarrow> 's"
  assumes members_join: "members (join c s) = members s @ [c]"
    and members_leave: "mset (members (leave c s)) = mset (members s) - {#c#}"
begin

lemma distinct_leave: "distinct (members s) \<Longrightarrow> distinct (members (leave c s))"
  by (rule distinct_minus [OF members_leave])

lemma set_leave: "distinct (members s) \<Longrightarrow> set (members (leave c s)) = set (members s) - {c}"
  by (rule set_minus [OF members_leave])

lemma length_leave: "length (members (leave c s)) \<le> length (members s)"
  using members_leave [of c s] by (metis diff_subset_eq_self size_mset size_mset_mono)

lemma leave_other: "c \<notin> set (members s) \<Longrightarrow> mset (members (leave c s)) = mset (members s)"
  by (simp add: members_leave diff_single_trivial)

lemma leave_again: "distinct (members s) \<Longrightarrow> mset (members (leave c (leave c s))) = mset (members (leave c s))"
  by (rule leave_other) (simp add: set_leave)

end

interpretation players: client_registry gs_Players
  "\<lambda>c gs. gs\<lparr>gs_Players := gs_Players gs @ [c]\<rparr>"
  "\<lambda>c gs. gs\<lparr>gs_Players := remove_from c (gs_Players gs)\<rparr>"
  by unfold_locales (simp_all add: mset_remove_from)

interpretation specialPlayers: client_registry gs_SpecialPlayers
  "\<lambda>c gs. gs\<lparr>gs_SpecialPlayers := gs_SpecialPlayers gs @ [c]\<rparr>"
  "\<lambda>c gs. gs\<lparr>gs_SpecialPlayers := remove_from c (gs_SpecialPlayers gs)\<rparr>"
  by unfold_locales (simp_all add: mset_remove_from)

interpretation visus: client_registry gs_Visus
  "\<lambda>c gs. gs\<lparr>gs_Visus := gs_Visus gs @ [c]\<rparr>"
  "\<lambda>c gs. gs\<lparr>gs_Visus := remove_from c (gs_Visus gs)\<rparr>"
  by unfold_locales (simp_all add: mset_remove_from)

text \<open>The list of the global state that a player or visualization belongs to.\<close>

definition role_list :: "PlayerOrVisuClient \<Rightarrow> GlobalState \<Rightarrow> cid list" where
  "role_list pv = (if \<not> pv_isPlayer pv then gs_Visus
     else if pv_isSpecialPlayer pv then gs_SpecialPlayers else gs_Players)"

definition remove_client :: "PlayerOrVisuClient \<Rightarrow> GlobalState \<Rightarrow> GlobalState" where
  "remove_client pv gs = (let c = pv_client pv in
     if \<not> pv_isPlayer pv then gs\<lparr>gs_Visus := remove_from c (gs_Visus gs)\<rparr>
     else if pv_isSpecialPlayer pv
       then gs\<lparr>gs_SpecialPlayers := remove_from c (gs_SpecialPlayers gs)\<rparr>
     else gs\<lparr>gs_Players := remove_from c (gs_Players gs)\<rparr>)"

interpretation logged: client_registry "role_list pv" 
  "\<lambda>c gs. seat c (if \<not> pv_isPlayer pv then ''visualization''
      else if pv_isSpecialPlayer pv then ''special player'' else ''player'') gs"
  "\<lambda>c. remove_client (pv\<lparr>pv_client := c\<rparr>)" for pv
  by unfold_locales (simp_all add: role_list_def seat_def remove_client_def mset_remove_from)

lemma KickLogged_effect:
  assumes "KickLoggedPlayerOrVisu sh client reason = Inr (sh', client', ops)"
  shows "sh_gs sh' = remove_client (sh_pv sh) (sh_gs sh)" "client' = Kick client reason"
    "sh_infos sh' = (if pv_isPlayer (sh_pv sh)
       then mark_disconnected (pv_playerInfo (sh_pv sh)) (sh_infos sh) else sh_infos sh)"
    "sh_pv sh' = sh_pv sh"
    "ops = (if pv_isPlayer (sh_pv sh) \<and> gs_GameState (sh_gs sh) = GAME_RUNNING \<and> gs_Fast (sh_gs sh)
       then [SendPlayerDisconnected (hd (gs_GameLogic (sh_gs sh))) (pv_playerID (sh_pv sh))] else [])"
  using assms
  by (auto simp: KickLoggedPlayerOrVisu_def tell_disconnected_def remove_client_def Let_def
      split: if_splits sum.splits list.splits)

lemma KickLogged_no_panic:
  "gs_GameLogic (sh_gs sh) \<noteq> [] \<or> gs_GameState (sh_gs sh) \<noteq> GAME_RUNNING
     \<Longrightarrow> \<exists>r. KickLoggedPlayerOrVisu sh client reason = Inr r"
  by (auto simp: KickLoggedPlayerOrVisu_def tell_disconnected_def Let_def split: list.splits)

lemma remove_client_roster:
  assumes "roster_ok gs" "pv_client pv \<in> set (role_list pv gs)"
  shows "roster_ok (remove_client pv gs)"
    "mset (roster (remove_client pv gs)) = mset (roster gs) - {#pv_client pv#}"
proof -
  have sub: "{#pv_client pv#} \<subseteq># mset (role_list pv gs)" using assms(2) by simp
  show m: "mset (roster (remove_client pv gs)) = mset (roster gs) - {#pv_client pv#}"
    using sub
    by (cases "pv_isPlayer pv"; cases "pv_isSpecialPlayer pv")
      (simp_all add: remove_client_def role_list_def roster_def mset_remove_from)
  have "distinct (roster (remove_client pv gs))"
    using distinct_minus [OF m] assms(1) by (simp add: roster_ok_def)
  moreover have "gs_GameLogic (remove_client pv gs) = gs_GameLogic gs"
    by (simp add: remove_client_def Let_def)
  ultimately show "roster_ok (remove_client pv gs)"
    using assms(1) by (simp add: roster_ok_def)
qed

lemma remove_client_within_capacity:
  "within_capacity gs \<Longrightarrow> within_capacity (remove_client pv gs)"
  using players.length_leave [of "pv_client pv" gs] specialPlayers.length_leave [of "pv_client pv" gs]
    visus.length_leave [of "pv_client pv" gs]
  by (auto simp: within_capacity_def remove_client_def Let_def)

section \<open>The client's side of the metaprotocol\<close>

text \<open>
  What a client may see of the server, as docs/metaprotocol.rst has it: LOGIN_ACK, GAME_STARTS,
  TURNs with growing numbers, GAME_ENDS, and at most one KICK, which is the last message.  The
  parameter of \<open>DocPlaying\<close> is the number of the last TURN received, or -1.  Only the messages received are
  looked at: \<open>DocPlaying\<close> is both \<open>listening\<close> and \<open>thinking\<close> of docs/fig/expected_behavior_client.asy, where
  GAME_ENDS leaves \<open>listening\<close> only; the server also sends it to a client that still owes a TURN_ACK.
\<close>

datatype doc_state = DocUnlogged | DocLogged | DocPlaying int | DocOver | DocKicked

fun doc_next :: "doc_state \<Rightarrow> out_msg \<Rightarrow> doc_state option" where
  "doc_next DocUnlogged (OLoginAck _) = Some DocLogged"
| "doc_next DocLogged (OGameStarts _) = Some (DocPlaying (- 1))"
| "doc_next (DocPlaying n) (OTurn t) =
     (if n < turn_TurnNumber t then Some (DocPlaying (turn_TurnNumber t)) else None)"
| "doc_next (DocPlaying _) (OGameEnds _) = Some DocOver"
| "doc_next s (OKick _) = (if s = DocKicked then None else Some DocKicked)"
| "doc_next _ _ = None"

definition doc_run :: "out_msg list \<Rightarrow> doc_state option" where
  "doc_run ms = foldl (\<lambda>s m. Option.bind s (\<lambda>s. doc_next s m)) (Some DocUnlogged) ms"

text \<open>
  What the goroutine of the game logic sends to a client, in the order a client can see it: one
  GAME_STARTS, turns numbered from 0 without gaps, one GAME_ENDS.
\<close>

datatype pv_phase = Before | During int | Over

fun phase_next :: "pv_phase \<Rightarrow> pv_event \<Rightarrow> pv_phase option" where
  "phase_next p (PvCanTerminate _) = Some p"
| "phase_next p (PvIncoming _) = Some p"
| "phase_next Before (PvGameStarts _) = Some (During 0)"
| "phase_next (During n) (PvNewTurn t) = (if turn_TurnNumber t = n then Some (During (n + 1)) else None)"
| "phase_next (During n) (PvGameEnds _) = Some Over"
| "phase_next _ _ = None"

definition phase_after :: "pv_event list \<Rightarrow> pv_phase option" where
  "phase_after es = foldl (\<lambda>p e. Option.bind p (\<lambda>p. phase_next p e)) (Some Before) es"

definition is_turn :: "out_msg \<Rightarrow> bool" where
  "is_turn m \<longleftrightarrow> (case m of OTurn _ \<Rightarrow> True | _ \<Rightarrow> False)"

fun turn_number_of :: "out_msg \<Rightarrow> int" where
  "turn_number_of (OTurn t) = turn_TurnNumber t"
| "turn_number_of _ = 0"

text \<open>The numbers of the turns sent to a client, of the actions forwarded, the messages received.\<close>

definition turns_sent :: "Client \<Rightarrow> int list" where
  "turns_sent c = map turn_number_of (filter is_turn (sent c))"

fun acted :: "chan_op list \<Rightarrow> int list" where
  "acted [] = []"
| "acted (SendPlayerAction _ a # ops) = pa_TurnNumber a # acted ops"
| "acted (_ # ops) = acted ops"

definition received :: "pv_event list \<Rightarrow> nat" where
  "received es = length (filter (\<lambda>e. case e of PvIncoming _ \<Rightarrow> True | _ \<Rightarrow> False) es)"

lemma doc_run_snoc [simp]: "doc_run (ms @ [m]) = Option.bind (doc_run ms) (\<lambda>s. doc_next s m)"
  by (simp add: doc_run_def)

lemma phase_after_simps [simp]:
  "phase_after [] = Some Before"
  "phase_after (es @ [e]) = Option.bind (phase_after es) (\<lambda>p. phase_next p e)"
  by (simp_all add: phase_after_def)

lemma received_simps [simp]:
  "received [] = 0"
  "received (es @ [e]) = (case e of PvIncoming _ \<Rightarrow> Suc (received es) | _ \<Rightarrow> received es)"
  by (auto simp: received_def split: pv_event.split)

lemma is_turn_simps [simp]:
  "is_turn (OTurn t)" "\<not> is_turn (OKick k)" "\<not> is_turn (OLoginAck a)" "\<not> is_turn (OGameStarts g)"
  "\<not> is_turn (OGameEnds e)" "\<not> is_turn (ODoInit d)" "\<not> is_turn (ODoTurn u)"
  by (simp_all add: is_turn_def)

lemma acted_append [simp]: "acted (xs @ ys) = acted xs @ acted ys"
  by (induction xs rule: acted.induct) simp_all

lemma turns_sent_Kick [simp]: "turns_sent (Kick c r) = turns_sent c"
  by (simp add: turns_sent_def)

lemma turns_sent_state [simp]: "turns_sent (c\<lparr>cl_state := s\<rparr>) = turns_sent c"
  by (simp add: turns_sent_def)

lemma send_json_sent:
  "send_json c m v = (e, c') \<Longrightarrow> sent c' = sent c @ (if e = None then [m] else []) \<and> cl_state c' = cl_state c"
  using client_log.log_send client_log.send_view by (fastforce simp: identity_def)

lemmas pv_send_defs = sendGameStarts_def sendTurn_def sendGameEnds_def

lemma doc_run_Kick:
  "doc_run (sent c) = Some s \<Longrightarrow> s \<noteq> DocKicked \<or> cl_state c = CLIENT_KICKED \<Longrightarrow> doc_run (sent (Kick c r)) \<noteq> None"
  using sent_Kick [of c r] by (cases s) (auto simp: kick_msg_def)

section \<open>The invariant of the goroutine\<close>

definition doc_abs :: "pv_thread \<Rightarrow> doc_state" where
  "doc_abs th = (if cl_state (pt_client th) = CLIENT_LOGGED then DocLogged
     else DocPlaying (pt_lastTurnNumberSent th))"

definition last_or :: "int list \<Rightarrow> int" where
  "last_or ns = (if ns = [] then - 1 else last ns)"

text \<open>In the loop: the phase, the state of the client, the turn buffer and the history agree.\<close>

definition pv_in_loop :: "bool \<Rightarrow> pv_phase \<Rightarrow> pv_event list \<Rightarrow> pv_thread \<Rightarrow> chan_op list \<Rightarrow> bool" where
  "pv_in_loop b p es th ops \<longleftrightarrow>
     (let c = pt_client th; ns = turns_sent c; l = pt_lastTurnNumberSent th in
      doc_run (sent c) = Some (doc_abs th) \<and> l = last_or ns
      \<and> acted ops = (if b then take (received es) ns else [])
      \<and> (case p of
          Before \<Rightarrow> cl_state c = CLIENT_LOGGED \<and> ns = [] \<and> pt_turnBuffer th = [] \<and> received es = 0
        | During n \<Rightarrow> 0 \<le> n \<and> pt_glClient th \<noteq> None
            \<and> (cl_state c = CLIENT_READY \<and> pt_turnBuffer th = [] \<and> l = n - 1
                 \<and> length ns = received es
               \<or> cl_state c = CLIENT_THINKING \<and> length ns = Suc (received es)
                 \<and> (pt_turnBuffer th = [] \<and> l = n - 1
                    \<or> (\<exists>t. pt_turnBuffer th = [t] \<and> turn_TurnNumber t = n - 1 \<and> l < n - 1)))
        | Over \<Rightarrow> False))"

text \<open>After the loop: the client is kicked, its history is one of the protocol.\<close>

definition pv_after_loop :: "bool \<Rightarrow> pv_thread \<Rightarrow> chan_op list \<Rightarrow> bool" where
  "pv_after_loop b th ops \<longleftrightarrow>
     cl_state (pt_client th) = CLIENT_KICKED \<and> doc_run (sent (pt_client th)) \<noteq> None
     \<and> (\<exists>k. k \<le> length (turns_sent (pt_client th)) \<and> length (turns_sent (pt_client th)) \<le> Suc k
          \<and> acted ops = (if b then take k (turns_sent (pt_client th)) else []))"

definition pv_inv :: "bool \<Rightarrow> pv_event list \<Rightarrow> pv_thread \<Rightarrow> chan_op list \<Rightarrow> bool" where
  "pv_inv b es th ops \<longleftrightarrow>
     (if pt_pc th = PvLoop then \<exists>p. phase_after es = Some p \<and> pv_in_loop b p es th ops
      else pv_after_loop b th ops)"

lemma pv_kicked_effect:
  assumes "pv_kicked sh th client r ops = PvStepped sh' th' ops'"
  shows "pt_client th' = Kick client r" "pt_pc th' = PvReturned" "acted ops' = acted ops"
proof -
  from assms obtain c o1 where k: "KickLoggedPlayerOrVisu sh client r = Inr (sh', c, o1)"
    "th' = th\<lparr>pt_client := c, pt_pc := PvReturned\<rparr>" "ops' = ops @ o1"
    by (auto simp: pv_kicked_def split: sum.splits prod.splits)
  from KickLogged_effect(2,5) [OF k(1)] k(2,3)
  show "pt_client th' = Kick client r" "pt_pc th' = PvReturned" "acted ops' = acted ops"
    by simp_all
qed

lemma pv_kicked_after_loop:
  assumes "pv_kicked sh th client r ops = PvStepped sh' th' ops'"
    and "doc_run (sent client) = Some s" "s \<noteq> DocKicked"
    and "k \<le> length (turns_sent client)" "length (turns_sent client) \<le> Suc k"
    and "acted (ops0 @ ops) = (if b then take k (turns_sent client) else [])"
  shows "pt_pc th' \<noteq> PvLoop \<and> pv_after_loop b th' (ops0 @ ops')"
proof -
  note e = pv_kicked_effect [OF assms(1)]
  have "doc_run (sent (Kick client r)) \<noteq> None" using doc_run_Kick assms(2,3) by blast
  moreover have "acted (ops0 @ ops') = (if b then take k (turns_sent client) else [])"
    using assms(6) e(3) by simp
  ultimately show ?thesis
    unfolding pv_after_loop_def e(1) turns_sent_Kick using e(2) assms(4,5) by auto
qed

lemma pv_in_loop_doc:
  "pv_in_loop b p es th ops \<Longrightarrow> doc_run (sent (pt_client th)) = Some (doc_abs th)"
  "doc_abs th \<noteq> DocKicked" "doc_abs th \<noteq> DocUnlogged"
  by (simp_all add: pv_in_loop_def Let_def doc_abs_def)

text \<open>A removal from the loop, before or after the current message was forwarded.\<close>

lemma pv_in_loop_counts:
  assumes "pv_in_loop b p es th ops"
  shows "received es \<le> length (turns_sent (pt_client th))"
    "length (turns_sent (pt_client th)) \<le> Suc (received es)"
    "acted ops = (if b then take (received es) (turns_sent (pt_client th)) else [])"
  using assms by (auto simp: pv_in_loop_def Let_def split: pv_phase.splits)

lemma pv_in_loop_kicked:
  assumes inv: "pv_in_loop b p es th ops"
    and kick: "pv_kicked sh th1 client r [] = PvStepped sh' th' ops'"
    and client: "sent client = sent (pt_client th)"
  shows "pt_pc th' \<noteq> PvLoop \<and> pv_after_loop b th' (ops @ ops')"
proof (rule pv_kicked_after_loop [OF kick])
  show "doc_run (sent client) = Some (doc_abs th)" "doc_abs th \<noteq> DocKicked"
    using pv_in_loop_doc(1) [OF inv] pv_in_loop_doc(2) client by simp_all
  have t: "turns_sent client = turns_sent (pt_client th)" by (simp add: turns_sent_def client)
  show "received es \<le> length (turns_sent client)" "length (turns_sent client) \<le> Suc (received es)"
    "acted (ops @ []) = (if b then take (received es) (turns_sent client) else [])"
    using pv_in_loop_counts [OF inv] by (simp_all add: t)
qed

lemma pv_game_starts_step:
  assumes inv: "pv_in_loop b Before es th ops" and pc: "pt_pc th = PvLoop"
    and step: "pv_on_game_starts sh th g = PvStepped sh' th' ops'"
  shows "if pt_pc th' = PvLoop then pv_in_loop b (During 0) (es @ [PvGameStarts g]) th' (ops @ ops')
    else pv_after_loop b th' (ops @ ops')"
proof -
  obtain e c where s: "sendGameStarts (sh_infos sh) (pt_client th) g = (e, c)" by fastforce
  note eff = send_json_sent [OF s [unfolded pv_send_defs]]
  show ?thesis
  proof (cases e)
    case (Some err)
    with step s have "pv_kicked sh th c (''Cannot send GAME_STARTS. '' @ err) [] = PvStepped sh' th' ops'"
      by (simp add: pv_on_game_starts_def)
    from pv_in_loop_kicked [OF inv this] eff Some show ?thesis by simp
  next
    case None
    with step s obtain gl where th': "th' = th\<lparr>pt_client := c\<lparr>cl_state := CLIENT_READY\<rparr>, pt_glClient := Some gl\<rparr>"
      "ops' = []" by (auto simp: pv_on_game_starts_def split: list.splits)
    with inv pc eff None show ?thesis
      by (simp add: pv_in_loop_def Let_def doc_abs_def turns_sent_def last_or_def)
  qed
qed

lemma pv_game_ends_step:
  assumes inv: "pv_in_loop b (During n) es th ops"
    and step: "pv_on_game_ends sh th g = PvStepped sh' th' ops'"
  shows "pt_pc th' \<noteq> PvLoop \<and> pv_after_loop b th' (ops @ ops')"
proof -
  obtain e c where s: "sendGameEnds (pt_client th) g = (e, c)" by fastforce
  note eff = send_json_sent [OF s [unfolded pv_send_defs]]
  show ?thesis
  proof (cases e)
    case (Some err)
    with step s have "pv_kicked sh th c (''Cannot send GAME_ENDS. '' @ err) [] = PvStepped sh' th' ops'"
      by (simp add: pv_on_game_ends_def)
    from pv_in_loop_kicked [OF inv this] eff Some show ?thesis by simp
  next
    case None
    with step s have th': "th' = th\<lparr>pt_client := Kick c ''Game is finished'', pt_pc := PvFinition\<rparr>"
      "ops' = []" by (simp_all add: pv_on_game_ends_def)
    have "doc_abs th = DocPlaying (pt_lastTurnNumberSent th)"
      using inv by (auto simp: pv_in_loop_def Let_def doc_abs_def)
    then have "doc_run (sent c) = Some DocOver"
      using pv_in_loop_doc(1) [OF inv] eff None by simp
    then have "doc_run (sent (Kick c ''Game is finished'')) \<noteq> None" using doc_run_Kick by blast
    moreover have "turns_sent c = turns_sent (pt_client th)" using eff None by (simp add: turns_sent_def)
    ultimately show ?thesis
      using th' pv_in_loop_counts [OF inv] by (auto simp: pv_after_loop_def)
  qed
qed

lemma pv_new_turn_step:
  assumes inv: "pv_in_loop b (During n) es th ops" and pc: "pt_pc th = PvLoop"
    and step: "pv_on_new_turn sh th t = PvStepped sh' th' ops'" and n: "turn_TurnNumber t = n"
  shows "if pt_pc th' = PvLoop then pv_in_loop b (During (n + 1)) (es @ [PvNewTurn t]) th' (ops @ ops')
    else pv_after_loop b th' (ops @ ops')"
proof (cases "cl_state (pt_client th) = CLIENT_READY")
  case ready: True
  obtain e c where s: "sendTurn (sh_infos sh) (pt_client th) t = (e, c)" by fastforce
  note eff = send_json_sent [OF s [unfolded pv_send_defs]]
  show ?thesis
  proof (cases e)
    case (Some err)
    with step s ready have "pv_kicked sh (th\<lparr>pt_lastTurnNumberSent := turn_TurnNumber t\<rparr>) c
        (''Cannot send TURN. '' @ err) [] = PvStepped sh' th' ops'"
      by (simp add: pv_on_new_turn_def)
    from pv_in_loop_kicked [OF inv this] eff Some show ?thesis by simp
  next
    case None
    with step s ready have th': "th' = th\<lparr>pt_lastTurnNumberSent := turn_TurnNumber t,
        pt_client := c\<lparr>cl_state := CLIENT_THINKING\<rparr>\<rparr>" "ops' = []" by (simp_all add: pv_on_new_turn_def)
    with inv pc eff None ready n show ?thesis
      by (simp add: pv_in_loop_def Let_def doc_abs_def turns_sent_def last_or_def)
  qed
next
  case False
  with inv have thinking: "cl_state (pt_client th) = CLIENT_THINKING"
    by (auto simp: pv_in_loop_def Let_def)
  with False step have th': "th' = th\<lparr>pt_turnBuffer := (if 0 < length (pt_turnBuffer th)
      then (pt_turnBuffer th)[0 := t] else pt_turnBuffer th @ [t])\<rparr>" "ops' = []"
    by (simp_all add: pv_on_new_turn_def)
  with inv pc thinking n show ?thesis
    by (auto simp: pv_in_loop_def Let_def doc_abs_def)
qed

lemma take_Suc_last: "length ns = Suc k \<Longrightarrow> take k ns @ [last_or ns] = ns"
  by (cases ns rule: rev_cases) (simp_all add: last_or_def)

lemma pv_after_ack_step:
  assumes inv: "pv_in_loop b (During n) es th ops" and pc: "pt_pc th = PvLoop"
    and thinking: "cl_state (pt_client th) = CLIENT_THINKING"
    and acts: "acted ops1 = (if b then [pt_lastTurnNumberSent th] else [])"
    and step: "pv_after_ack sh th ops1 = PvStepped sh' th' ops'"
  shows "if pt_pc th' = PvLoop then pv_in_loop b (During n) (es @ [PvIncoming m]) th' (ops @ ops')
    else pv_after_loop b th' (ops @ ops')"
proof -
  let ?ns = "turns_sent (pt_client th)"
  have i: "length ?ns = Suc (received es)" "pt_lastTurnNumberSent th = last_or ?ns"
    "acted ops = (if b then take (received es) ?ns else [])"
    "doc_run (sent (pt_client th)) = Some (DocPlaying (pt_lastTurnNumberSent th))" "0 \<le> n"
    "pt_glClient th \<noteq> None"
    using inv thinking by (auto simp: pv_in_loop_def Let_def doc_abs_def)
  have acted: "acted (ops @ ops1) = (if b then ?ns else [])"
    using acts i take_Suc_last [OF i(1)] by simp
  show ?thesis
  proof (cases "pt_turnBuffer th")
    case Nil
    with step have "th' = th\<lparr>pt_client := (pt_client th)\<lparr>cl_state := CLIENT_READY\<rparr>\<rparr>" "ops' = ops1"
      by (simp_all add: pv_after_ack_def)
    with inv pc Nil acted i thinking show ?thesis
      by (auto simp: pv_in_loop_def Let_def doc_abs_def)
  next
    case (Cons t ts)
    with inv thinking have t: "ts = []" "turn_TurnNumber t = n - 1" "pt_lastTurnNumberSent th < n - 1"
      by (auto simp: pv_in_loop_def Let_def)
    obtain e c where s: "sendTurn (sh_infos sh) (pt_client th) t = (e, c)" by fastforce
    note eff = send_json_sent [OF s [unfolded pv_send_defs]]
    show ?thesis
    proof (cases e)
      case (Some err)
      with step s Cons have k: "pv_kicked sh (th\<lparr>pt_lastTurnNumberSent := turn_TurnNumber t\<rparr>) c
          (''Cannot send TURN. '' @ err) ops1 = PvStepped sh' th' ops'"
        by (simp add: pv_after_ack_def)
      have "turns_sent c = ?ns" using eff Some by (simp add: turns_sent_def)
      then show ?thesis
        using pv_kicked_after_loop [OF k, of _ "length ?ns" ops b] eff Some i(4) acted by simp
    next
      case None
      with step s Cons have th': "th' = th\<lparr>pt_lastTurnNumberSent := turn_TurnNumber t,
          pt_turnBuffer := [], pt_client := c\<lparr>cl_state := CLIENT_THINKING\<rparr>\<rparr>" "ops' = ops1"
        by (simp_all add: pv_after_ack_def)
      have "turns_sent c = ?ns @ [turn_TurnNumber t]" using eff None by (simp add: turns_sent_def)
      with th' pc eff None t acted i show ?thesis
        by (simp add: pv_in_loop_def Let_def doc_abs_def last_or_def)
    qed
  qed
qed

lemma pv_incoming_step:
  assumes inv: "pv_in_loop (pv_isPlayer (sh_pv sh)) p es th ops" and pc: "pt_pc th = PvLoop"
    and step: "pv_on_incoming sh th m = PvStepped sh' th' ops'"
  shows "if pt_pc th' = PvLoop
    then pv_in_loop (pv_isPlayer (sh_pv sh)) p (es @ [PvIncoming m]) th' (ops @ ops')
    else pv_after_loop (pv_isPlayer (sh_pv sh)) th' (ops @ ops')"
proof (cases "\<exists>r. pv_kicked sh th (pt_client th) r [] = PvStepped sh' th' ops'")
  case True
  then show ?thesis using pv_in_loop_kicked [OF inv] by auto
next
  case False
  with step obtain a where a: "readTurnAckMessage (msg_content m) (pt_lastTurnNumberSent th) = Inr a"
    and thinking: "cl_state (pt_client th) = CLIENT_THINKING"
    by (auto simp: pv_on_incoming_def split: option.splits sum.splits if_splits)
  have a': "tack_turnNumber a = pt_lastTurnNumberSent th"
    using a by (auto simp: readTurnAckMessage_def split: sum.splits if_splits)
  from inv thinking obtain n where p: "p = During n"
    by (auto simp: pv_in_loop_def Let_def split: pv_phase.splits)
  obtain ops1 where "pv_after_ack sh th ops1 = PvStepped sh' th' ops'"
    "acted ops1 = (if pv_isPlayer (sh_pv sh) then [pt_lastTurnNumberSent th] else [])"
    using step False a a' thinking
    by (auto simp: pv_on_incoming_def split: option.splits if_splits)
  with pv_after_ack_step inv pc thinking p show ?thesis by blast
qed

lemma pv_inv_step:
  assumes inv: "pv_inv b es th ops" and step: "pv_step sh e th = PvStepped sh' th' ops'"
    and driven: "phase_after (es @ [e]) \<noteq> None" and b: "pv_isPlayer (sh_pv sh) = b"
  shows "pv_inv b (es @ [e]) th' (ops @ ops')"
proof (cases "pt_pc th")
  case PvLoop
  with inv obtain p where p: "phase_after es = Some p" and inv': "pv_in_loop b p es th ops"
    by (auto simp: pv_inv_def)
  from driven p obtain p' where p': "phase_next p e = Some p'" by auto
  from PvLoop step have h: "handlePlayerOrVisu sh e th = PvStepped sh' th' ops'"
    by (simp add: pv_step_def)
  have "if pt_pc th' = PvLoop then pv_in_loop b p' (es @ [e]) th' (ops @ ops')
    else pv_after_loop b th' (ops @ ops')"
  proof (cases e)
    case (PvCanTerminate r)
    with h have "th' = th\<lparr>pt_client := Kick (pt_client th) r, pt_pc := PvReturned\<rparr>" "ops' = []"
      by (simp_all add: handlePlayerOrVisu_def)
    moreover have "doc_run (sent (Kick (pt_client th) r)) \<noteq> None"
      using doc_run_Kick pv_in_loop_doc(1) [OF inv'] pv_in_loop_doc(2) by blast
    ultimately show ?thesis using pv_in_loop_counts [OF inv'] by (auto simp: pv_after_loop_def)
  next
    case (PvGameStarts g)
    with p' have "p = Before" "p' = During 0" by (cases p; simp)+
    with PvGameStarts h inv' PvLoop pv_game_starts_step show ?thesis
      by (simp add: handlePlayerOrVisu_def)
  next
    case (PvGameEnds g)
    with p' obtain n where "p = During n" by (cases p) simp_all
    with PvGameEnds h inv' pv_game_ends_step show ?thesis
      by (fastforce simp: handlePlayerOrVisu_def)
  next
    case (PvNewTurn t)
    with p' obtain n where "p = During n" "turn_TurnNumber t = n" "p' = During (n + 1)"
      by (cases p) (simp_all split: if_splits)
    with PvNewTurn h inv' PvLoop pv_new_turn_step show ?thesis
      by (simp add: handlePlayerOrVisu_def)
  next
    case (PvIncoming m)
    from PvIncoming h have "pv_on_incoming sh th m = PvStepped sh' th' ops'"
      by (simp add: handlePlayerOrVisu_def)
    moreover have "pv_in_loop (pv_isPlayer (sh_pv sh)) p es th ops" using inv' b by simp
    ultimately show ?thesis
      using pv_incoming_step [OF _ PvLoop] b PvIncoming p' by fastforce
  qed
  then show ?thesis using p p' by (auto simp: pv_inv_def)
next
  case PvFinition
  then have a: "pv_after_loop b th ops" using inv by (simp add: pv_inv_def)
  have e: "pt_pc th' \<noteq> PvLoop" "pt_client th' = pt_client th" "ops' = []"
    using step PvFinition a
    by (cases e; auto simp: pv_step_def waitPlayerOrVisuFinition_def pv_after_loop_def)+
  from a have "pv_after_loop b th' (ops @ ops')"
    unfolding pv_after_loop_def e append_Nil2 .
  with e(1) show ?thesis by (simp add: pv_inv_def)
qed (use step in \<open>simp add: pv_step_def\<close>)

lemma pv_inv_trace:
  assumes "pv_trace th0 es th ops" "th0 = pv_start c0" "cl_state c0 = CLIENT_LOGGED"
    and "sent c0 = [login_ack]" "\<forall>x \<in> set es. pv_isPlayer (sh_pv (fst x)) = b"
    and "phase_after (map snd es) \<noteq> None"
  shows "pv_inv b (map snd es) th ops"
  using assms
proof (induction rule: pv_trace.induct)
  case (pv_nil th)
  then show ?case
    by (simp add: pv_inv_def pv_start_def pv_in_loop_def doc_abs_def turns_sent_def last_or_def
        login_ack_def doc_run_def)
next
  case (pv_snoc th0 es th ops sh e sh' th' ops')
  have "phase_after (map snd es) \<noteq> None" using pv_snoc.prems(5) by (cases "phase_after (map snd es)") auto
  then have "pv_inv b (map snd es) th ops" using pv_snoc by auto
  from pv_inv_step [OF this pv_snoc(2)] pv_snoc.prems show ?case by simp
qed

text \<open>The shared state a goroutine may find: a game that runs, or is about to start, has a logic.\<close>

definition has_logic :: "pv_shared \<Rightarrow> pv_event \<Rightarrow> bool" where
  "has_logic sh e \<longleftrightarrow> gs_GameLogic (sh_gs sh) \<noteq> []
     \<or> gs_GameState (sh_gs sh) \<noteq> GAME_RUNNING \<and> (\<forall>g. e \<noteq> PvGameStarts g)"

lemma pv_kicked_no_panic:
  "has_logic sh e \<Longrightarrow> pv_kicked sh th client r ops \<noteq> PvPanicked p"
  using KickLogged_no_panic [of sh client r] by (auto simp: has_logic_def pv_kicked_def)

lemma pv_after_ack_no_panic:
  "has_logic sh e \<Longrightarrow> pv_after_ack sh th ops \<noteq> PvPanicked p"
  by (auto simp: pv_after_ack_def Let_def pv_kicked_no_panic split: list.splits prod.splits option.splits)

lemma pv_step_no_panic:
  assumes "pv_inv b es th ops" "has_logic sh e"
  shows "pv_step sh e th \<noteq> PvPanicked p"
proof (cases "pt_pc th")
  case PvLoop
  with assms(1) obtain ph where "pv_in_loop b ph es th ops" by (auto simp: pv_inv_def)
  then have gl: "cl_state (pt_client th) = CLIENT_THINKING \<Longrightarrow> pt_glClient th \<noteq> None"
    by (cases ph) (auto simp: pv_in_loop_def Let_def)
  note k = pv_kicked_no_panic [OF assms(2)] pv_after_ack_no_panic [OF assms(2)]
  show ?thesis
  proof (cases e)
    case (PvIncoming m)
    with PvLoop gl k show ?thesis
      by (auto simp: pv_step_def handlePlayerOrVisu_def pv_on_incoming_def
          split: option.splits sum.splits)
  next
    case (PvGameStarts g)
    with assms(2) have "gs_GameLogic (sh_gs sh) \<noteq> []" by (simp add: has_logic_def)
    with PvLoop PvGameStarts k show ?thesis
      by (auto simp: pv_step_def handlePlayerOrVisu_def pv_on_game_starts_def
          split: option.splits prod.splits list.splits)
  qed (use PvLoop k in \<open>auto simp: pv_step_def handlePlayerOrVisu_def pv_on_game_ends_def
      pv_on_new_turn_def Let_def split: option.splits prod.splits\<close>)
next
  case PvFinition
  then show ?thesis by (simp add: pv_step_def waitPlayerOrVisuFinition_def split: pv_event.split)
qed (simp add: pv_step_def)

lemma doc_run_turns:
  "doc_run ms = Some s \<Longrightarrow> sorted_wrt (<) (map turn_number_of (filter is_turn ms))
     \<and> (s = DocUnlogged \<or> s = DocLogged \<longrightarrow> filter is_turn ms = [])
     \<and> (\<forall>n. s = DocPlaying n \<longrightarrow> (\<forall>m \<in> set ms. is_turn m \<longrightarrow> turn_number_of m \<le> n))"
proof (induction ms arbitrary: s rule: rev_induct)
  case (snoc m ms)
  then obtain s0 where s0: "doc_run ms = Some s0" "doc_next s0 m = Some s"
    by (cases "doc_run ms") auto
  from snoc.IH [OF s0(1)] s0(2) show ?case
    by (cases s0; cases m) (auto simp: sorted_wrt_append filter_empty_conv split: if_splits)
qed (simp add: doc_run_def)

text \<open>
  An execution of the goroutine: it starts with a client that has just received LOGIN_ACK, whose kind
  does not change.  The events are in order when what the game logic goroutine delivers among them is
  GAME_STARTS, the turns 0, 1, 2, ... and GAME_ENDS, in this order.  A history is an execution on events
  in order.
\<close>

definition pv_execution :: "bool \<Rightarrow> (pv_shared \<times> pv_event) list \<Rightarrow> pv_thread \<Rightarrow> chan_op list \<Rightarrow> bool" where
  "pv_execution b es th ops \<longleftrightarrow> (\<exists>c0. cl_state c0 = CLIENT_LOGGED \<and> sent c0 = [login_ack]
     \<and> pv_trace (pv_start c0) es th ops) \<and> (\<forall>x \<in> set es. pv_isPlayer (sh_pv (fst x)) = b)"

definition in_order :: "(pv_shared \<times> pv_event) list \<Rightarrow> bool" where
  "in_order es \<longleftrightarrow> phase_after (map snd es) \<noteq> None"

definition pv_history :: "bool \<Rightarrow> (pv_shared \<times> pv_event) list \<Rightarrow> pv_thread \<Rightarrow> chan_op list \<Rightarrow> bool" where
  "pv_history b es th ops \<longleftrightarrow> pv_execution b es th ops \<and> in_order es"

lemmas pv_history_defs = pv_history_def pv_execution_def in_order_def

lemma pv_history_inv: "pv_history b es th ops \<Longrightarrow> pv_inv b (map snd es) th ops"
  unfolding pv_history_defs using pv_inv_trace by blast

lemma pv_history_cases:
  assumes "pv_history b es th ops"
  obtains (loop) p where "pt_pc th = PvLoop" "phase_after (map snd es) = Some p"
      "pv_in_loop b p (map snd es) th ops"
  | (ended) "pt_pc th \<noteq> PvLoop" "pv_after_loop b th ops"
  using pv_history_inv [OF assms] by (auto simp: pv_inv_def split: if_splits)

lemma pv_history_doc:
  assumes "pv_history b es th ops"
  obtains s where "doc_run (sent (pt_client th)) = Some s" "pt_pc th = PvLoop \<longrightarrow> s = doc_abs th"
  using assms
proof (cases rule: pv_history_cases)
  case (loop p)
  then show ?thesis using pv_in_loop_doc(1) that by blast
next
  case ended
  then show ?thesis using that by (auto simp: pv_after_loop_def)
qed

text \<open>
  The actions forwarded to the game logic are those of the turns the player was sent, in order,
  each once, except that the last turn may still be unanswered; the turn numbers grow.
\<close>

lemma pv_actions_match_turns:
  assumes "pv_history True es th ops"
  shows "(acted ops = turns_sent (pt_client th) \<or> acted ops = butlast (turns_sent (pt_client th)))
    \<and> sorted_wrt (<) (turns_sent (pt_client th))"
proof -
  obtain s where s: "doc_run (sent (pt_client th)) = Some s" using pv_history_doc [OF assms] by blast
  obtain k where k: "k \<le> length (turns_sent (pt_client th))" "length (turns_sent (pt_client th)) \<le> Suc k"
    "acted ops = take k (turns_sent (pt_client th))"
    using assms
  proof (cases rule: pv_history_cases)
    case (loop p)
    then show ?thesis using that pv_in_loop_counts [OF loop(3)] by simp
  next
    case ended
    then show ?thesis using that by (auto simp: pv_after_loop_def)
  qed
  from k(1,2) have "k = length (turns_sent (pt_client th)) \<or> k = length (turns_sent (pt_client th)) - 1"
    by linarith
  with k(3) have "acted ops = turns_sent (pt_client th) \<or> acted ops = butlast (turns_sent (pt_client th))"
    by (auto simp: butlast_conv_take)
  with doc_run_turns [OF s] show ?thesis by (simp add: turns_sent_def)
qed

section \<open>An example\<close>

text \<open>A player, its goroutine, and a game of one turn.\<close>

definition example_shared :: pv_shared where
  "example_shared = \<lparr>sh_gs = bob_server\<lparr>gs_GameLogic := [2], gs_GameState := GAME_RUNNING\<rparr>,
     sh_infos = (\<lambda>_. \<lparr>pi_PlayerID = 0, pi_Nickname = ''bob'', pi_RemoteAddress = ''127.0.0.1:40000'',
       pi_IsConnected = True\<rparr>),
     sh_pv = (new_player 0 False)\<lparr>pv_playerID := 0\<rparr>\<rparr>"

definition example_client :: Client where
  "example_client = bob\<lparr>cl_state := CLIENT_LOGGED, cl_outbox := [(login_ack, [])]\<rparr>"

definition example_starts :: MessageGameStarts where
  "example_starts = \<lparr>gst_MessageType = ''GAME_STARTS'', gst_PlayerID = 0, gst_NbPlayers = 1,
     gst_NbSpecialPlayers = 0, gst_NbTurnsMax = 1000, gst_DelayFirstTurn = FZero False,
     gst_DelayTurns = FZero False, gst_InitialGameState = [], gst_PlayersInfo = []\<rparr>"

definition example_turn :: "int \<Rightarrow> MessageTurn" where
  "example_turn n = \<lparr>turn_MessageType = ''TURN'', turn_TurnNumber = n, turn_GameState = [],
     turn_PlayersInfo = []\<rparr>"

definition answer :: "int \<Rightarrow> ClientMessage" where
  "answer n = good_message [(''message_type'', JStr ''TURN_ACK''),
     (''turn_number'', JNum (if n = 0 then FZero False else FNum (of_int n))), (''actions'', JArr [])]"

definition example_ack :: ClientMessage where
  "example_ack = answer 0"

lemma healthy_update [simp]:
  "healthy (cl_writer (c\<lparr>cl_state := s\<rparr>)) = healthy (cl_writer c)" by simp

lemma example_sends:
  assumes "healthy (cl_writer c)"
  shows "\<exists>c'. sendGameStarts infos c example_starts = (None, c') \<and> healthy (cl_writer c')
      \<and> sent c' = sent c @ [OGameStarts example_starts] \<and> cl_state c' = cl_state c"
    "n = 0 \<or> n = 1 \<Longrightarrow> \<exists>c'. sendTurn infos c (example_turn n) = (None, c') \<and> healthy (cl_writer c')
      \<and> sent c' = sent c @ [OTurn (example_turn n)] \<and> cl_state c' = cl_state c"
proof -
  obtain j1 where "Marshal (MessageGameStarts_json infos example_starts) = Inr j1" "length j1 < 16777215"
    by (simp add: MessageGameStarts_json_def example_starts_def field_part_def enclose_def
        marshal_float_def quote_string_plain plain_char_def show_int_def show_nat.simps)
  from send_json_healthy [OF assms this, of "OGameStarts example_starts"]
  show "\<exists>c'. sendGameStarts infos c example_starts = (None, c') \<and> healthy (cl_writer c')
      \<and> sent c' = sent c @ [OGameStarts example_starts] \<and> cl_state c' = cl_state c"
    by (auto simp: sendGameStarts_def sent_def)
  assume "n = 0 \<or> n = 1"
  then obtain j2 where "Marshal (MessageTurn_json infos (example_turn n)) = Inr j2" "length j2 < 16777215"
    by (elim disjE) (simp_all add: MessageTurn_json_def example_turn_def field_part_def enclose_def
        quote_string_plain plain_char_def show_int_def show_nat.simps)
  from send_json_healthy [OF assms this, of "OTurn (example_turn n)"]
  show "\<exists>c'. sendTurn infos c (example_turn n) = (None, c') \<and> healthy (cl_writer c')
      \<and> sent c' = sent c @ [OTurn (example_turn n)] \<and> cl_state c' = cl_state c"
    by (auto simp: sendTurn_def sent_def)
qed

definition example_events :: "(pv_shared \<times> pv_event) list" where
  "example_events = map (Pair example_shared)
     [PvGameStarts example_starts, PvNewTurn (example_turn 0), PvIncoming example_ack]"

definition example_action :: chan_op where
  "example_action = SendPlayerAction 2 \<lparr>pa_PlayerID = 0, pa_TurnNumber = 0, pa_Actions = []\<rparr>"

text \<open>A player that waits for a turn is sent one and answers it.\<close>

definition awaits_turn :: "pv_thread \<Rightarrow> bool" where
  "awaits_turn th \<longleftrightarrow> pt_pc th = PvLoop \<and> cl_state (pt_client th) = CLIENT_READY \<and> healthy (cl_writer (pt_client th))
     \<and> pt_glClient th = Some 2 \<and> pt_turnBuffer th = []"

lemma example_round:
  assumes "pv_isPlayer (sh_pv sh)" "pv_playerID (sh_pv sh) = 0" "awaits_turn th" "n = 0 \<or> n = 1"
  obtains th2 th3 where "pv_step sh (PvNewTurn (example_turn n)) th = PvStepped sh th2 []"
    "pv_step sh (PvIncoming (answer n)) th2 = PvStepped sh th3 [SendPlayerAction 2 \<lparr>pa_PlayerID = 0, pa_TurnNumber = n, pa_Actions = []\<rparr>]"
    "awaits_turn th3" "sent (pt_client th3) = sent (pt_client th) @ [OTurn (example_turn n)]"
proof -
  have th: "pt_pc th = PvLoop" "cl_state (pt_client th) = CLIENT_READY" "healthy (cl_writer (pt_client th))"
    "pt_glClient th = Some 2" "pt_turnBuffer th = []" using assms(3) by (simp_all add: awaits_turn_def)
  obtain c where c: "sendTurn (sh_infos sh) (pt_client th) (example_turn n) = (None, c)" "healthy (cl_writer c)"
    "sent c = sent (pt_client th) @ [OTurn (example_turn n)]" using example_sends(2) [OF th(3) assms(4)] by blast
  let ?th2 = "th\<lparr>pt_lastTurnNumberSent := n, pt_client := c\<lparr>cl_state := CLIENT_THINKING\<rparr>\<rparr>"
  have s2: "pv_step sh (PvNewTurn (example_turn n)) th = PvStepped sh ?th2 []"
    using c(1) th by (simp add: pv_step_def handlePlayerOrVisu_def pv_on_new_turn_def) (simp add: example_turn_def)
  have "readTurnAckMessage (msg_content (answer n)) n = Inr \<lparr>tack_turnNumber = n, tack_actions = []\<rparr>"
    using assms(4) by (elim disjE) (simp_all add: readTurnAckMessage_def answer_def good_message_def checkMessageType_def
        ReadString_def ReadInt_def ReadArray_def int_of_float_def trunc_rat_def Let_def)
  moreover have "msg_err (answer n) = None" by (simp add: answer_def good_message_def)
  ultimately have "pv_step sh (PvIncoming (answer n)) ?th2 = PvStepped sh (?th2\<lparr>pt_client := c\<lparr>cl_state := CLIENT_READY\<rparr>\<rparr>)
      [SendPlayerAction 2 \<lparr>pa_PlayerID = 0, pa_TurnNumber = n, pa_Actions = []\<rparr>]"
    using assms(1,2) th by (simp add: pv_step_def handlePlayerOrVisu_def pv_on_incoming_def pv_after_ack_def)
  from that [OF s2 this] th c show ?thesis by (simp add: awaits_turn_def)
qed

lemma example_begins:
  assumes "gs_GameLogic (sh_gs sh) = [2]" "healthy (cl_writer cl)"
  obtains th1 where "pv_step sh (PvGameStarts example_starts) (pv_start cl) = PvStepped sh th1 []" "awaits_turn th1"
    "sent (pt_client th1) = sent cl @ [OGameStarts example_starts]"
proof -
  obtain c1 where c1: "sendGameStarts (sh_infos sh) cl example_starts = (None, c1)"
    "healthy (cl_writer c1)" "sent c1 = sent cl @ [OGameStarts example_starts]"
    using example_sends(1) [OF assms(2)] by blast
  let ?th1 = "(pv_start cl)\<lparr>pt_client := c1\<lparr>cl_state := CLIENT_READY\<rparr>, pt_glClient := Some 2\<rparr>"
  have "pv_step sh (PvGameStarts example_starts) (pv_start cl) = PvStepped sh ?th1 []"
    using c1 assms(1) by (simp add: pv_step_def handlePlayerOrVisu_def pv_on_game_starts_def pv_start_def)
  from that [OF this] c1 show ?thesis by (simp add: awaits_turn_def pv_start_def)
qed

lemma example_steps:
  assumes sh: "gs_GameLogic (sh_gs sh) = [2]" "pv_isPlayer (sh_pv sh)" "pv_playerID (sh_pv sh) = 0"
    and cl: "healthy (cl_writer cl)" "sent cl = [login_ack]"
  obtains th1 th2 th3 where
    "pv_step sh (PvGameStarts example_starts) (pv_start cl) = PvStepped sh th1 []"
    "pv_step sh (PvNewTurn (example_turn 0)) th1 = PvStepped sh th2 []"
    "pv_step sh (PvIncoming example_ack) th2 = PvStepped sh th3 [example_action]"
    "pt_pc th1 = PvLoop" "pt_pc th3 = PvLoop" "cl_state (pt_client th3) = CLIENT_READY"
    "sent (pt_client th3) = [login_ack, OGameStarts example_starts, OTurn (example_turn 0)]"
proof -
  obtain th1 where 1: "pv_step sh (PvGameStarts example_starts) (pv_start cl) = PvStepped sh th1 []" "awaits_turn th1"
    "sent (pt_client th1) = sent cl @ [OGameStarts example_starts]" by (rule example_begins [OF sh(1) cl(1)])
  obtain th2 th3 where 2: "pv_step sh (PvNewTurn (example_turn 0)) th1 = PvStepped sh th2 []"
    "pv_step sh (PvIncoming example_ack) th2 = PvStepped sh th3 [example_action]"
    "awaits_turn th3" "sent (pt_client th3) = sent (pt_client th1) @ [OTurn (example_turn 0)]"
    by (rule example_round [OF sh(2,3) 1(2), of 0]) (simp_all add: example_ack_def example_action_def)
  from that [OF 1(1) 2(1,2)] 1(2,3) 2(3,4) cl(2) show ?thesis by (simp add: awaits_turn_def)
qed

lemma example_shared_facts:
  "gs_GameLogic (sh_gs example_shared) = [2]" "pv_isPlayer (sh_pv example_shared)" "pv_playerID (sh_pv example_shared) = 0"
  "healthy (cl_writer example_client)" "sent example_client = [login_ack]"
  by (simp_all add: example_shared_def new_player_def example_client_def bob_def new_client_def healthy_def sent_def)

lemma example_history:
  "\<exists>th. pv_history True example_events th [example_action] \<and> pt_pc th = PvLoop
     \<and> cl_state (pt_client th) = CLIENT_READY
     \<and> sent (pt_client th) = [login_ack, OGameStarts example_starts, OTurn (example_turn 0)]"
proof (rule example_steps [OF example_shared_facts])
  fix th1 th2 th3
  assume s: "pv_step example_shared (PvGameStarts example_starts) (pv_start example_client) = PvStepped example_shared th1 []"
    "pv_step example_shared (PvNewTurn (example_turn 0)) th1 = PvStepped example_shared th2 []"
    "pv_step example_shared (PvIncoming example_ack) th2 = PvStepped example_shared th3 [example_action]"
    and th3: "pt_pc th3 = PvLoop" "cl_state (pt_client th3) = CLIENT_READY"
      "sent (pt_client th3) = [login_ack, OGameStarts example_starts, OTurn (example_turn 0)]"
  have "pv_trace (pv_start example_client) example_events th3 [example_action]"
    using pv_snoc [OF pv_snoc [OF pv_snoc [OF pv_nil s(1)] s(2)] s(3)] by (simp add: example_events_def)
  moreover have "sent example_client = [login_ack]" "cl_state example_client = CLIENT_LOGGED"
    by (simp_all add: example_client_def sent_def)
  moreover have "phase_after (map snd example_events) \<noteq> None"
    by (simp add: example_events_def example_turn_def phase_after_def)
  ultimately have "pv_history True example_events th3 [example_action]"
    unfolding pv_history_defs by (auto simp: example_events_def example_shared_def new_player_def)
  with th3 show ?thesis by blast
qed

section \<open>Properties\<close>

text \<open>
  C4. The goroutine of a player or visualization refines the documented protocol.  Provided that
  GAME_STARTS, the turns and GAME_ENDS are delivered to it in order (which the goroutine of the game
  logic does: \<open>gl_drives_clients\<close>), whatever the client answers, however sends fail and whatever the other
  goroutines do to the shared state, the messages its client has received are a run of the protocol (LOGIN_ACK, GAME_STARTS, TURNs
  with growing numbers, GAME_ENDS, at most one KICK and nothing after it), and while the goroutine
  is in its loop the protocol is in the state that the goroutine's variables say.
\<close>

theorem pv_refines_protocol:
  assumes "pv_execution b es th ops" and "in_order es"
  shows "\<exists>s. doc_run (sent (pt_client th)) = Some s \<and> (pt_pc th = PvLoop \<longrightarrow> s = doc_abs th)
    \<and> (pt_pc th \<noteq> PvLoop \<longrightarrow> cl_state (pt_client th) = CLIENT_KICKED)"
  using pv_history_def [THEN iffD2, OF conjI, OF assms]
proof (cases rule: pv_history_cases)
  case (loop p)
  then show ?thesis using pv_in_loop_doc(1) by blast
next
  case ended
  then show ?thesis by (auto simp: pv_after_loop_def)
qed

theorem pv_refines_protocol_witness:
  "\<exists>th s. pv_execution True example_events th [example_action] \<and> in_order example_events
    \<and> doc_run (sent (pt_client th)) = Some s \<and> s = DocPlaying 0"
proof -
  obtain th where th: "pv_history True example_events th [example_action]"
    "sent (pt_client th) = [login_ack, OGameStarts example_starts, OTurn (example_turn 0)]"
    using example_history by blast
  then have e: "pv_execution True example_events th [example_action]" "in_order example_events" by (simp_all add: pv_history_def)
  from pv_refines_protocol [OF e] obtain s where s: "doc_run (sent (pt_client th)) = Some s" by blast
  then have "s = DocPlaying 0"
    by (simp add: th(2) doc_run_def login_ack_def example_turn_def)
  with e s show ?thesis by blast
qed

text \<open>
  C13. Flow control: while the goroutine is in its loop and the game runs (GAME_STARTS and the first
  turns have been delivered in order, GAME_ENDS has not), a client that is ready has answered every
  TURN it was sent and nothing is buffered for it; a client that is thinking has answered all but
  one, and what is buffered is at most one turn, the newest that exists and newer than the one the
  client is thinking about.
\<close>

theorem pv_flow_control:
  assumes "pv_execution b es th ops" and "pt_pc th = PvLoop" and "phase_after (map snd es) = Some (During n)"
  shows "cl_state (pt_client th) = CLIENT_READY \<and> pt_turnBuffer th = []
      \<and> length (turns_sent (pt_client th)) = received (map snd es) \<and> pt_lastTurnNumberSent th = n - 1
    \<or> cl_state (pt_client th) = CLIENT_THINKING
      \<and> length (turns_sent (pt_client th)) = Suc (received (map snd es))
      \<and> (pt_turnBuffer th = [] \<and> pt_lastTurnNumberSent th = n - 1
         \<or> (\<exists>t. pt_turnBuffer th = [t] \<and> turn_TurnNumber t = n - 1 \<and> pt_lastTurnNumberSent th < n - 1))"
proof -
  have "pv_history b es th ops" using assms(1,3) by (simp add: pv_history_def in_order_def)
  then show ?thesis
  proof (cases rule: pv_history_cases)
    case (loop p)
    with assms(3) show ?thesis by (auto simp: pv_in_loop_def Let_def)
  qed (use assms(2) in simp)
qed

theorem pv_flow_control_witness:
  "\<exists>th. pv_execution True example_events th [example_action]
    \<and> length (turns_sent (pt_client th)) = received (map snd example_events)
    \<and> pt_turnBuffer th = []"
proof -
  obtain th where th: "pv_history True example_events th [example_action]" "pt_pc th = PvLoop"
    "cl_state (pt_client th) = CLIENT_READY" using example_history by blast
  have "phase_after (map snd example_events) = Some (During 1)"
    by (simp add: example_events_def example_turn_def phase_after_def)
  moreover have "pv_execution True example_events th [example_action]" using th(1) by (simp add: pv_history_def)
  ultimately show ?thesis using pv_flow_control [of True example_events th "[example_action]" 1] th by auto
qed

text \<open>
  The goroutine of a player or visualization never ends the program by a run-time panic: the
  pointer to the game logic is set whenever an action is forwarded, and the list of game logics is
  not indexed when it is empty, provided a game that starts or runs has a game logic.
\<close>

lemma pv_never_panics:
  assumes "pv_history b es th ops" and "has_logic sh e"
  shows "pv_step sh e th \<noteq> PvPanicked p"
  by (rule pv_step_no_panic [OF pv_history_inv [OF assms(1)] assms(2)])

text \<open>
  C16. A client that leaves is removed from the list of its role and nobody else is: the roster
  loses exactly that client and stays well formed, no maximum is exceeded, the player's
  information says that it is disconnected, and the game logic is told, with the number of the
  player, exactly when a player leaves a running game in fast mode.
\<close>

theorem KickLogged_removes:
  assumes "roster_ok (sh_gs sh)" and "within_capacity (sh_gs sh)"
    and "pv_client (sh_pv sh) \<in> set (role_list (sh_pv sh) (sh_gs sh))"
    and "KickLoggedPlayerOrVisu sh client reason = Inr (sh', client', ops)"
  shows "roster_ok (sh_gs sh') \<and> within_capacity (sh_gs sh')
    \<and> set (roster (sh_gs sh')) = set (roster (sh_gs sh)) - {pv_client (sh_pv sh)}
    \<and> cl_state client' = CLIENT_KICKED
    \<and> (\<forall>r. pv_isPlayer (sh_pv sh) \<longrightarrow> pv_playerInfo (sh_pv sh) = Some r
         \<longrightarrow> \<not> pi_IsConnected (sh_infos sh' r))
    \<and> ops = (if pv_isPlayer (sh_pv sh) \<and> gs_GameState (sh_gs sh) = GAME_RUNNING \<and> gs_Fast (sh_gs sh)
         then [SendPlayerDisconnected (hd (gs_GameLogic (sh_gs sh))) (pv_playerID (sh_pv sh))] else [])"
proof -
  note e = KickLogged_effect [OF assms(4)]
  note r = remove_client_roster [OF assms(1,3)]
  have "set (roster (sh_gs sh')) = set (roster (sh_gs sh)) - {pv_client (sh_pv sh)}"
    unfolding e(1) by (rule set_minus [OF r(2)]) (use assms(1) in \<open>simp add: roster_ok_def\<close>)
  with e r(1) remove_client_within_capacity [OF assms(2)] show ?thesis
    by (simp add: mark_disconnected_def)
qed

theorem KickLogged_removes_witness:
  "\<exists>sh' client' ops. KickLoggedPlayerOrVisu example_shared bob ''bye'' = Inr (sh', client', ops)
    \<and> set (roster (sh_gs sh')) = {1, 2} \<and> ops = []"
proof -
  obtain sh' client' ops where
    k: "KickLoggedPlayerOrVisu example_shared bob ''bye'' = Inr (sh', client', ops)"
    using KickLogged_no_panic [of example_shared bob "''bye''"] by (auto simp: example_shared_def)
  have r: "roster (sh_gs example_shared) = [2, 0, 1]" "pv_client (sh_pv example_shared) = 0"
    "role_list (sh_pv example_shared) (sh_gs example_shared) = [0]"
    by (simp_all add: example_shared_def roster_def bob_server_def small_server_def seat_def
        role_list_def new_player_def)
  have "roster_ok (sh_gs example_shared)" "within_capacity (sh_gs example_shared)"
    by (simp_all add: roster_ok_def r)
      (simp_all add: within_capacity_def example_shared_def bob_server_def small_server_def seat_def)
  note p = KickLogged_removes [OF this _ k]
  have "pv_client (sh_pv example_shared) \<in> set (role_list (sh_pv example_shared) (sh_gs example_shared))"
    by (simp only: r list.set insert_iff simp_thms)
  note p = p [OF this]
  have "set (roster (sh_gs sh')) = set [2, 0, 1] - {0}"
    using conjunct1 [OF conjunct2 [OF conjunct2 [OF p]]] unfolding r(1,2) .
  also have "\<dots> = {1, 2}" by auto
  finally have "set (roster (sh_gs sh')) = {1, 2}" .
  moreover from p have "ops \<noteq> [] \<longrightarrow> gs_Fast (sh_gs example_shared)" by presburger
  moreover have "\<not> gs_Fast (sh_gs example_shared)"
    by (simp add: example_shared_def bob_server_def small_server_def seat_def)
  ultimately show ?thesis using k by blast
qed

end
