(* ===== verification/Game_Logic.thy ===== *)
theory Game_Logic
  imports Player_Visu "HOL-Library.AList"
begin

text \<open>
  src/control_gl.go: the goroutine of the game logic, which runs the game.  Its local variables,
  the client it serves and the place where it waits are a \<open>gl_thread\<close>; what it shares with the
  other goroutines (the global state, the clients, the \<open>PlayerOrVisuClient\<close> structs and the store
  of player information) is a \<open>gl_shared\<close>.  One step is the receipt of one event; the sends on
  channels it performs are returned in program order.

  \<open>rand.Perm\<close> is a parameter of the event that starts the game: the permutation it returned.  The
  goroutines that send DO_TURN after a delay run concurrently with the loop that started them and
  share its slice of actions: the two statements of such a goroutine are two events, each taken as a
  whole.  \<open>Action_Race\<close> has the steps inside these statements, which the code does not protect from each
  other; the events here are their executions that do not overlap (\<open>undisturbed_actions\<close>).
\<close>

section \<open>State and events\<close>

datatype gl_pc = GlWaitStart | GlWaitInitAck | GlSleepFirst | GlTimers | GlFastAck | GlFastActions
  | GlFinition | GlReturned

record gl_thread =
  gt_client :: Client
  gt_pc :: gl_pc
  gt_allPlayers :: "cid list"
  gt_visus :: "cid list"
  gt_playersInfo :: "pref list"
  gt_initialNbPlayers :: int
  gt_initialNbSpecialPlayers :: int
  gt_nbTurnsMax :: int
  gt_msBeforeFirstTurn :: float64
  gt_msBetweenTurns :: float64
  gt_fast :: bool
  gt_turnNumber :: int
  gt_playerActions :: "MessageDoTurnPlayerAction list"
  gt_connectedPlayers :: "(int \<times> int) list"
  gt_actionReceived :: "(int \<times> bool) list"
  gt_sleeping :: nat
  gt_unreset :: nat

record gl_shared =
  gh_gs :: GlobalState
  gh_clients :: "cid \<Rightarrow> Client"
  gh_pvs :: "cid \<Rightarrow> PlayerOrVisuClient"
  gh_infos :: "pref \<Rightarrow> PlayerInformation"
  gh_next :: pref

datatype gl_event =
    GlStart "nat list"
  | GlCanTerminate string
  | GlIncoming ClientMessage
  | GlInitTimeout
  | GlSlept
  | GlPlayerAction MessageDoTurnPlayerAction
  | GlPlayerDisconnected int
  | GlTimerSend
  | GlTimerReset

datatype gl_outcome =
    GlBlocked
  | GlPanicked panic
  | GlStepped gl_shared gl_thread "chan_op list"

definition gl_start :: "Client \<Rightarrow> gl_thread" where
  "gl_start client = \<lparr>gt_client = client, gt_pc = GlWaitStart, gt_allPlayers = [], gt_visus = [],
     gt_playersInfo = [], gt_initialNbPlayers = 0, gt_initialNbSpecialPlayers = 0,
     gt_nbTurnsMax = 0, gt_msBeforeFirstTurn = FZero False, gt_msBetweenTurns = FZero False,
     gt_fast = False, gt_turnNumber = 0, gt_playerActions = [], gt_connectedPlayers = [],
     gt_actionReceived = [], gt_sleeping = 0, gt_unreset = 0\<rparr>"

definition initialTotalNbPlayers :: "gl_thread \<Rightarrow> int" where
  "initialTotalNbPlayers th = gt_initialNbPlayers th + gt_initialNbSpecialPlayers th"

section \<open>Sending\<close>

definition sendDoInit :: "Client \<Rightarrow> int \<Rightarrow> int \<Rightarrow> int \<Rightarrow> string option \<times> Client" where
  "sendDoInit client nbPlayers nbSpecialPlayers nbTurnsMax =
     (let msg = \<lparr>di_MessageType = ''DO_INIT'', di_NbPlayers = nbPlayers,
        di_NbSpecialPlayers = nbSpecialPlayers, di_NbTurnsMax = nbTurnsMax\<rparr>
      in send_json client (ODoInit msg) (MessageDoInit_json msg))"

definition sendDoTurn ::
  "Client \<Rightarrow> MessageDoTurnPlayerAction list \<Rightarrow> string option \<times> Client" where
  "sendDoTurn client playerActions =
     (let msg = \<lparr>dt_MessageType = ''DO_TURN'', dt_PlayerActions = playerActions\<rparr>
      in send_json client (ODoTurn msg) (MessageDoTurn_json msg))"

text \<open>The callers of \<open>sendDoTurn\<close> do not look at its error.\<close>

definition order_turn :: "gl_thread \<Rightarrow> gl_thread" where
  "order_turn th = th\<lparr>gt_client := snd (sendDoTurn (gt_client th) (gt_playerActions th))\<rparr>"

section \<open>Starting the game\<close>

text \<open>Player identifiers: special players in order from 0, then the players in a random order.\<close>

fun assign_ids :: "(cid \<times> int) list \<Rightarrow> (cid \<Rightarrow> PlayerOrVisuClient) \<Rightarrow> cid \<Rightarrow> PlayerOrVisuClient" where
  "assign_ids [] pvs = pvs"
| "assign_ids ((c, i) # xs) pvs = assign_ids xs (pvs(c := (pvs c)\<lparr>pv_playerID := i\<rparr>))"

text \<open>The loop that allocates the information of the players, at the addresses from \<open>r\<close> on.\<close>

fun make_infos :: "(cid \<Rightarrow> Client) \<Rightarrow> cid list \<Rightarrow> pref \<Rightarrow> (cid \<Rightarrow> PlayerOrVisuClient)
    \<Rightarrow> (pref \<Rightarrow> PlayerInformation)
    \<Rightarrow> (cid \<Rightarrow> PlayerOrVisuClient) \<times> (pref \<Rightarrow> PlayerInformation) \<times> pref list" where
  "make_infos clients [] r pvs infos = (pvs, infos, [])"
| "make_infos clients (player # players) r pvs infos =
     (let info = \<lparr>pi_PlayerID = pv_playerID (pvs player),
                  pi_Nickname = cl_nickname (clients player),
                  pi_RemoteAddress = cl_addr (clients player),
                  pi_IsConnected = True\<rparr>
      in case make_infos clients players (Suc r)
             (pvs(player := (pvs player)\<lparr>pv_playerInfo := Some r\<rparr>)) (infos(r := info)) of
          (pvs', infos', refs) \<Rightarrow> (pvs', infos', r # refs))"

definition game_init :: "nat list \<Rightarrow> gl_shared \<Rightarrow> gl_thread \<Rightarrow> gl_shared \<times> gl_thread" where
  "game_init perm sh th =
     (let gs = gh_gs sh;
          players = gs_Players gs;
          specialPlayers = gs_SpecialPlayers gs;
          allPlayers = players @ specialPlayers;
          nbSpecial = int (length specialPlayers);
          pvs1 = assign_ids (zip specialPlayers (map int [0..<length specialPlayers])) (gh_pvs sh);
          pvs2 = assign_ids (zip players (map (\<lambda>k. int k + nbSpecial) perm)) pvs1
      in case make_infos (gh_clients sh) allPlayers (gh_next sh) pvs2 (gh_infos sh) of
          (pvs3, infos, refs) \<Rightarrow>
            (sh\<lparr>gh_pvs := pvs3, gh_infos := infos, gh_next := gh_next sh + length allPlayers\<rparr>,
             th\<lparr>gt_allPlayers := allPlayers, gt_visus := gs_Visus gs,
                gt_playersInfo := sort_key (\<lambda>r. pi_PlayerID (infos r)) refs,
                gt_initialNbPlayers := int (length players),
                gt_initialNbSpecialPlayers := nbSpecial,
                gt_nbTurnsMax := gs_NbTurnsMax gs,
                gt_msBeforeFirstTurn := gs_MillisecondsBeforeFirstTurn gs,
                gt_msBetweenTurns := gs_MillisecondsBetweenTurns gs,
                gt_fast := gs_Fast gs\<rparr>))"

section \<open>Leaving\<close>

text \<open>The game logic is kicked, the main goroutine is told, and the goroutine waits for it.\<close>

definition gl_exit :: "gl_shared \<Rightarrow> gl_thread \<Rightarrow> Client \<Rightarrow> int \<Rightarrow> chan_op list \<Rightarrow> gl_outcome" where
  "gl_exit sh th client code ops =
     GlStepped sh (th\<lparr>gt_client := client, gt_pc := GlFinition\<rparr>) (ops @ [SendOnExit code])"

definition gl_fail :: "gl_shared \<Rightarrow> gl_thread \<Rightarrow> string \<Rightarrow> gl_outcome" where
  "gl_fail sh th reason = gl_exit sh th (Kick (gt_client th) reason) 1 []"

definition gl_terminate :: "gl_shared \<Rightarrow> gl_thread \<Rightarrow> string \<Rightarrow> gl_outcome" where
  "gl_terminate sh th kickReason =
     GlStepped sh (th\<lparr>gt_client := Kick (gt_client th) kickReason, gt_pc := GlReturned\<rparr>) []"

definition waitGameLogicFinition :: "gl_shared \<Rightarrow> gl_event \<Rightarrow> gl_thread \<Rightarrow> gl_outcome" where
  "waitGameLogicFinition sh ev th = (case ev of
      GlCanTerminate kickReason \<Rightarrow> gl_terminate sh th kickReason
    | GlPlayerAction _ \<Rightarrow> GlStepped sh th []
    | GlPlayerDisconnected _ \<Rightarrow> GlStepped sh th []
    | GlIncoming _ \<Rightarrow> GlStepped sh th []
    | _ \<Rightarrow> GlBlocked)"

section \<open>Messages to the clients\<close>

definition game_starts_msg ::
  "gl_shared \<Rightarrow> gl_thread \<Rightarrow> jobject \<Rightarrow> pref list \<Rightarrow> cid \<Rightarrow> MessageGameStarts" where
  "game_starts_msg sh th initialGameState infos c =
     \<lparr>gst_MessageType = ''GAME_STARTS'',
      gst_PlayerID = pv_playerID (gh_pvs sh c),
      gst_NbPlayers = gt_initialNbPlayers th,
      gst_NbSpecialPlayers = gt_initialNbSpecialPlayers th,
      gst_NbTurnsMax = gt_nbTurnsMax th,
      gst_DelayFirstTurn = gt_msBeforeFirstTurn th,
      gst_DelayTurns = gt_msBetweenTurns th,
      gst_InitialGameState = initialGameState,
      gst_PlayersInfo = infos\<rparr>"

definition game_starts_ops :: "gl_shared \<Rightarrow> gl_thread \<Rightarrow> jobject \<Rightarrow> chan_op list" where
  "game_starts_ops sh th initialGameState =
     map (\<lambda>player. SendGameStarts player (game_starts_msg sh th initialGameState [] player))
       (gt_allPlayers th)
     @ map (\<lambda>visu. SendGameStarts visu (game_starts_msg sh th initialGameState (gt_playersInfo th) visu))
       (gt_visus th)"

definition handleGlForwardTurnToClients :: "MessageDoTurnAck \<Rightarrow> gl_thread \<Rightarrow> chan_op list" where
  "handleGlForwardTurnToClients doTurnAckMsg th =
     (let msg = (\<lambda>infos. \<lparr>turn_MessageType = ''TURN'', turn_TurnNumber = gt_turnNumber th - 1,
            turn_GameState = dta_GameState doTurnAckMsg, turn_PlayersInfo = infos\<rparr>)
      in map (\<lambda>player. SendNewTurn player (msg [])) (gt_allPlayers th)
         @ map (\<lambda>visu. SendNewTurn visu (msg (gt_playersInfo th))) (gt_visus th))"

text \<open>
  At the end of the game the winner is looked up for the log, every client is sent GAME_ENDS and
  the game logic is kicked.
\<close>

definition handleGlGameFinished ::
  "gl_thread \<Rightarrow> MessageDoTurnAck \<Rightarrow> panic + Client \<times> chan_op list" where
  "handleGlGameFinished th doTurnAckMsg =
     (let winner = dta_WinnerPlayerID doTurnAckMsg;
          msg = \<lparr>gen_MessageType = ''GAME_ENDS'', gen_WinnerPlayerID = winner,
                 gen_GameState = dta_GameState doTurnAckMsg\<rparr>
      in if winner \<noteq> - 1 \<and> \<not> (0 \<le> winner \<and> winner < int (length (gt_playersInfo th)))
         then Inl IndexOutOfRange
         else Inr (Kick (gt_client th) ''Game is finished'',
                   map (\<lambda>c. SendGameEnds c msg) (gt_allPlayers th @ gt_visus th)))"

definition gl_finish :: "gl_shared \<Rightarrow> gl_thread \<Rightarrow> MessageDoTurnAck \<Rightarrow> gl_outcome" where
  "gl_finish sh th doTurnAckMsg = (case handleGlGameFinished th doTurnAckMsg of
      Inl p \<Rightarrow> GlPanicked p
    | Inr (client, ops) \<Rightarrow> gl_exit sh th client 0 ops)"

text \<open>A message of the game logic during the game: an error has kicked it already.\<close>

definition handleGLDoTurnAckReception ::
  "Client \<Rightarrow> ClientMessage \<Rightarrow> int \<Rightarrow> Client + MessageDoTurnAck" where
  "handleGLDoTurnAckReception client msg nbTotal = (case msg_err msg of
      Some err \<Rightarrow> Inl (Kick client (''Cannot read DO_TURN_ACK. '' @ err))
    | None \<Rightarrow> (case readDoTurnAckMessage (msg_content msg) nbTotal of
          Inl err \<Rightarrow> Inl (Kick client (''Invalid DO_TURN_ACK message. '' @ err))
        | Inr doTurnAckMsg \<Rightarrow> Inr doTurnAckMsg))"

section \<open>The game with timers\<close>

text \<open>
  A new action replaces the pending one of the same player, if any, and goes to the end: the old
  one is swapped with the last element, which is then overwritten.  This is the value the slice has
  afterwards when no delayed goroutine runs meanwhile; \<open>loop_step\<close> of \<open>Action_Race\<close> has the single statements.
\<close>

definition put_action ::
  "MessageDoTurnPlayerAction \<Rightarrow> MessageDoTurnPlayerAction list \<Rightarrow> MessageDoTurnPlayerAction list" where
  "put_action action playerActions =
     (case find_index (\<lambda>act. pa_PlayerID act = pa_PlayerID action) playerActions of
        None \<Rightarrow> playerActions @ [action]
      | Some actionIndex \<Rightarrow> (swap_last actionIndex playerActions)[length playerActions - 1 := action])"

definition gameLogicGameControlTimers :: "gl_shared \<Rightarrow> gl_event \<Rightarrow> gl_thread \<Rightarrow> gl_outcome" where
  "gameLogicGameControlTimers sh ev th = (case ev of
      GlCanTerminate kickReason \<Rightarrow> gl_terminate sh th kickReason
    | GlPlayerAction action \<Rightarrow>
        GlStepped sh (th\<lparr>gt_playerActions := put_action action (gt_playerActions th)\<rparr>) []
    | GlIncoming msg \<Rightarrow>
        (case handleGLDoTurnAckReception (gt_client th) msg (initialTotalNbPlayers th) of
           Inl client \<Rightarrow> gl_exit sh th client 1 []
         | Inr doTurnAckMsg \<Rightarrow>
             (let th1 = th\<lparr>gt_turnNumber := gt_turnNumber th + 1\<rparr> in
              if gt_turnNumber th1 < gt_nbTurnsMax th1
              then GlStepped sh (th1\<lparr>gt_sleeping := Suc (gt_sleeping th1)\<rparr>)
                     (handleGlForwardTurnToClients doTurnAckMsg th1)
              else gl_finish sh th1 doTurnAckMsg))
    | _ \<Rightarrow> GlBlocked)"

text \<open>
  The two statements of a delayed goroutine, which run whatever the loop has become.  \<open>timer_send\<close> is
  \<open>sendDoTurn\<close> when the loop does not change the slice meanwhile; \<open>delayed_step\<close> of \<open>Action_Race\<close> reads it
  field by field.
\<close>

definition timer_send :: "gl_shared \<Rightarrow> gl_thread \<Rightarrow> gl_outcome" where
  "timer_send sh th = (case gt_sleeping th of
      0 \<Rightarrow> GlBlocked
    | Suc n \<Rightarrow> GlStepped sh ((order_turn th)\<lparr>gt_sleeping := n, gt_unreset := Suc (gt_unreset th)\<rparr>) [])"

definition timer_reset :: "gl_shared \<Rightarrow> gl_thread \<Rightarrow> gl_outcome" where
  "timer_reset sh th = (case gt_unreset th of
      0 \<Rightarrow> GlBlocked
    | Suc n \<Rightarrow> GlStepped sh (th\<lparr>gt_playerActions := [], gt_unreset := n\<rparr>) [])"

section \<open>The game in fast mode\<close>

definition areAllValuesTrue :: "(int \<times> bool) list \<Rightarrow> bool" where
  "areAllValuesTrue playerIDToBoolMap = list_all snd playerIDToBoolMap"

text \<open>The condition of the inner loop: go on waiting for actions, or order the next turn.\<close>

definition fast_wait :: "gl_thread \<Rightarrow> gl_thread" where
  "fast_wait th =
     (if areAllValuesTrue (gt_actionReceived th)
      then (order_turn th)\<lparr>gt_playerActions := [], gt_pc := GlFastAck\<rparr>
      else th\<lparr>gt_pc := GlFastActions\<rparr>)"

definition fast_await_ack :: "gl_shared \<Rightarrow> gl_event \<Rightarrow> gl_thread \<Rightarrow> gl_outcome" where
  "fast_await_ack sh ev th = (case ev of
      GlCanTerminate kickReason \<Rightarrow> gl_terminate sh th kickReason
    | GlIncoming msg \<Rightarrow>
        (case handleGLDoTurnAckReception (gt_client th) msg (initialTotalNbPlayers th) of
           Inl client \<Rightarrow> gl_exit sh th client 1 []
         | Inr doTurnAckMsg \<Rightarrow>
             (let th1 = th\<lparr>gt_turnNumber := gt_turnNumber th + 1\<rparr> in
              if gt_nbTurnsMax th1 \<le> gt_turnNumber th1 then gl_finish sh th1 doTurnAckMsg
              else GlStepped sh
                (fast_wait (th1\<lparr>gt_actionReceived :=
                   map (\<lambda>(playerID, _). (playerID, False)) (gt_connectedPlayers th1)\<rparr>))
                (handleGlForwardTurnToClients doTurnAckMsg th1)))
    | _ \<Rightarrow> GlBlocked)"

definition fast_await_actions :: "gl_shared \<Rightarrow> gl_event \<Rightarrow> gl_thread \<Rightarrow> gl_outcome" where
  "fast_await_actions sh ev th = (case ev of
      GlCanTerminate kickReason \<Rightarrow> gl_terminate sh th kickReason
    | GlPlayerAction action \<Rightarrow>
        GlStepped sh (fast_wait
          (th\<lparr>gt_actionReceived := AList.update (pa_PlayerID action) True (gt_actionReceived th),
             gt_playerActions :=
               (if map_of (gt_connectedPlayers th) (pa_PlayerID action) \<noteq> None
                then gt_playerActions th @ [action] else gt_playerActions th)\<rparr>)) []
    | GlPlayerDisconnected disconnectedPlayerID \<Rightarrow>
        GlStepped sh (fast_wait
          (th\<lparr>gt_actionReceived := AList.update disconnectedPlayerID True (gt_actionReceived th),
             gt_connectedPlayers := AList.delete disconnectedPlayerID (gt_connectedPlayers th)\<rparr>)) []
    | _ \<Rightarrow> GlBlocked)"

text \<open>Entering the game control, once GAME_STARTS has gone to everybody.\<close>

definition game_control :: "gl_thread \<Rightarrow> gl_thread" where
  "game_control th =
     (if gt_fast th
      then (order_turn (th\<lparr>gt_turnNumber := 0, gt_playerActions := []\<rparr>))
             \<lparr>gt_connectedPlayers := map (\<lambda>playerID. (int playerID, 1)) [0..<nat (initialTotalNbPlayers th)],
              gt_pc := GlFastAck\<rparr>
      else th\<lparr>gt_pc := GlSleepFirst\<rparr>)"

section \<open>The handler\<close>

definition gl_wait_start :: "gl_shared \<Rightarrow> gl_event \<Rightarrow> gl_thread \<Rightarrow> gl_outcome" where
  "gl_wait_start sh ev th = (case ev of
      GlStart perm \<Rightarrow> (case game_init perm sh th of
          (sh1, th1) \<Rightarrow>
            (case sendDoInit (gt_client th1) (gt_initialNbPlayers th1)
                (gt_initialNbSpecialPlayers th1) (gt_nbTurnsMax th1) of
               (Some err, client) \<Rightarrow>
                 gl_fail sh1 (th1\<lparr>gt_client := client\<rparr>) (''Cannot send DO_INIT. '' @ err)
             | (None, client) \<Rightarrow>
                 GlStepped sh1 (th1\<lparr>gt_client := client, gt_pc := GlWaitInitAck\<rparr>) []))
    | GlCanTerminate kickReason \<Rightarrow> gl_terminate sh th kickReason
    | GlIncoming msg \<Rightarrow> gl_fail sh th (case msg_err msg of
          None \<Rightarrow> ''Received a game logic message but the game has not started''
        | Some err \<Rightarrow> ''Game logic error. '' @ err)
    | _ \<Rightarrow> GlBlocked)"

definition gl_wait_init_ack :: "gl_shared \<Rightarrow> gl_event \<Rightarrow> gl_thread \<Rightarrow> gl_outcome" where
  "gl_wait_init_ack sh ev th = (case ev of
      GlCanTerminate kickReason \<Rightarrow> gl_terminate sh th kickReason
    | GlIncoming msg \<Rightarrow> (case msg_err msg of
          Some err \<Rightarrow> gl_fail sh th (''Cannot read DO_INIT_ACK. '' @ err)
        | None \<Rightarrow> (case readDoInitAckMessage (msg_content msg) of
              Inl err \<Rightarrow> gl_fail sh th (''Invalid DO_INIT_ACK message. '' @ err)
            | Inr m \<Rightarrow>
                GlStepped sh (game_control th) (game_starts_ops sh th (dia_InitialGameState m))))
    | GlInitTimeout \<Rightarrow> gl_fail sh th ''Did not receive DO_INIT_ACK after 3 seconds.''
    | _ \<Rightarrow> GlBlocked)"

text \<open>After the sleep before the first turn: DO_TURN without actions.\<close>

definition gl_sleep_first :: "gl_shared \<Rightarrow> gl_event \<Rightarrow> gl_thread \<Rightarrow> gl_outcome" where
  "gl_sleep_first sh ev th = (case ev of
      GlSlept \<Rightarrow> GlStepped sh
        ((order_turn (th\<lparr>gt_turnNumber := 0, gt_playerActions := []\<rparr>))\<lparr>gt_pc := GlTimers\<rparr>) []
    | _ \<Rightarrow> GlBlocked)"

definition handleGameLogic :: "gl_shared \<Rightarrow> gl_event \<Rightarrow> gl_thread \<Rightarrow> gl_outcome" where
  "handleGameLogic sh ev th = (case ev of
      GlTimerSend \<Rightarrow> timer_send sh th
    | GlTimerReset \<Rightarrow> timer_reset sh th
    | _ \<Rightarrow> (case gt_pc th of
          GlWaitStart \<Rightarrow> gl_wait_start sh ev th
        | GlWaitInitAck \<Rightarrow> gl_wait_init_ack sh ev th
        | GlSleepFirst \<Rightarrow> gl_sleep_first sh ev th
        | GlTimers \<Rightarrow> gameLogicGameControlTimers sh ev th
        | GlFastAck \<Rightarrow> fast_await_ack sh ev th
        | GlFastActions \<Rightarrow> fast_await_actions sh ev th
        | GlFinition \<Rightarrow> waitGameLogicFinition sh ev th
        | GlReturned \<Rightarrow> GlBlocked))"

text \<open>
  Histories, as for the other goroutines: the shared state may change between the steps, except
  for what only this goroutine writes (which the theorems say when they need it).
\<close>

inductive gl_trace ::
  "gl_thread \<Rightarrow> (gl_shared \<times> gl_event) list \<Rightarrow> gl_thread \<Rightarrow> chan_op list \<Rightarrow> bool" where
  gl_nil: "gl_trace th [] th []"
| gl_snoc: "gl_trace th0 es th ops \<Longrightarrow> handleGameLogic sh e th = GlStepped sh' th' ops'
    \<Longrightarrow> gl_trace th0 (es @ [(sh, e)]) th' (ops @ ops')"

section \<open>Lemmas: identifiers\<close>

text \<open>The documented result of \<open>rand.Perm n\<close>: the numbers below \<open>n\<close>, each once.\<close>

definition is_perm :: "nat list \<Rightarrow> nat \<Rightarrow> bool" where
  "is_perm perm n \<longleftrightarrow> mset perm = mset [0..<n]"

lemma is_perm_length: "is_perm perm n \<Longrightarrow> length perm = n"
  by (metis is_perm_def length_upt minus_nat.diff_0 size_mset)

lemma assign_ids_playerID:
  "distinct (map fst xs) \<Longrightarrow> pv_playerID (assign_ids xs pvs c)
     = (case map_of xs c of Some i \<Rightarrow> i | None \<Rightarrow> pv_playerID (pvs c))"
proof (induction xs arbitrary: pvs)
  case (Cons x xs)
  obtain d i where x: "x = (d, i)" by fastforce
  have "pv_playerID (assign_ids (x # xs) pvs c)
      = (case map_of xs c of Some i \<Rightarrow> i | None \<Rightarrow> pv_playerID ((pvs(d := (pvs d)\<lparr>pv_playerID := i\<rparr>)) c))"
    using Cons.IH Cons.prems by (simp add: x)
  moreover have "map_of xs d = None" using Cons.prems by (simp add: x map_of_eq_None_iff)
  ultimately show ?case by (cases "c = d") (simp_all add: x split: option.split)
qed simp

lemma assign_ids_zip:
  assumes "distinct cs" "length is = length cs"
  shows "map (\<lambda>c. pv_playerID (assign_ids (zip cs is) pvs c)) cs = is"
    "c \<notin> set cs \<Longrightarrow> pv_playerID (assign_ids (zip cs is) pvs c) = pv_playerID (pvs c)"
proof -
  have d: "distinct (map fst (zip cs is))" using assms by simp
  show "map (\<lambda>c. pv_playerID (assign_ids (zip cs is) pvs c)) cs = is"
    using assms by (intro nth_equalityI) (auto simp: assign_ids_playerID [OF d] map_of_zip_nth)
  show "c \<notin> set cs \<Longrightarrow> pv_playerID (assign_ids (zip cs is) pvs c) = pv_playerID (pvs c)"
    using assms by (simp add: assign_ids_playerID [OF d] split: option.split)
      (metis in_set_zipE map_of_SomeD)
qed

definition info_of :: "(cid \<Rightarrow> Client) \<Rightarrow> (cid \<Rightarrow> PlayerOrVisuClient) \<Rightarrow> cid \<Rightarrow> PlayerInformation" where
  "info_of clients pvs c = \<lparr>pi_PlayerID = pv_playerID (pvs c), pi_Nickname = cl_nickname (clients c),
     pi_RemoteAddress = cl_addr (clients c), pi_IsConnected = True\<rparr>"

lemma make_infos_Cons:
  assumes "make_infos clients (p # ps) r pvs infos = (pvs', infos', refs)"
  obtains refs' where "refs = r # refs'"
    "make_infos clients ps (Suc r) (pvs(p := (pvs p)\<lparr>pv_playerInfo := Some r\<rparr>))
       (infos(r := info_of clients pvs p)) = (pvs', infos', refs')"
  using assms by (auto simp: Let_def info_of_def split: prod.splits)

lemma make_infos_refs:
  "make_infos clients ps r pvs infos = (pvs', infos', refs) \<Longrightarrow> refs = [r..<r + length ps]"
proof (induction ps arbitrary: r pvs infos refs)
  case (Cons p ps)
  from Cons.prems obtain refs' where "refs = r # refs'" and
    m: "make_infos clients ps (Suc r) (pvs(p := (pvs p)\<lparr>pv_playerInfo := Some r\<rparr>))
       (infos(r := info_of clients pvs p)) = (pvs', infos', refs')" by (rule make_infos_Cons)
  with Cons.IH [OF m] show ?case by (simp add: upt_conv_Cons del: upt_Suc)
qed simp

lemma make_infos_frame:
  "make_infos clients ps r pvs infos = (pvs', infos', refs) \<Longrightarrow>
     pv_playerID (pvs' c) = pv_playerID (pvs c) \<and> (q < r \<longrightarrow> infos' q = infos q)
     \<and> (c \<notin> set ps \<longrightarrow> pvs' c = pvs c)"
proof (induction ps arbitrary: r pvs infos refs)
  case (Cons p ps)
  from Cons.prems obtain refs' where m: "make_infos clients ps (Suc r)
      (pvs(p := (pvs p)\<lparr>pv_playerInfo := Some r\<rparr>)) (infos(r := info_of clients pvs p))
      = (pvs', infos', refs')" by (rule make_infos_Cons)
  from Cons.IH [OF m] show ?case by (cases "c = p") auto
qed simp

lemmas make_infos_playerID = make_infos_frame [THEN conjunct1]

lemma make_infos_nth:
  "make_infos clients ps r pvs infos = (pvs', infos', refs) \<Longrightarrow> distinct ps \<Longrightarrow> i < length ps
     \<Longrightarrow> infos' (r + i) = info_of clients pvs (ps ! i) \<and> pv_playerInfo (pvs' (ps ! i)) = Some (r + i)"
proof (induction ps arbitrary: r pvs infos refs i)
  case (Cons p ps)
  let ?pvs = "pvs(p := (pvs p)\<lparr>pv_playerInfo := Some r\<rparr>)"
  from Cons.prems(1) obtain refs' where
    m: "make_infos clients ps (Suc r) ?pvs (infos(r := info_of clients pvs p)) = (pvs', infos', refs')"
    by (rule make_infos_Cons)
  show ?case
  proof (cases i)
    case 0
    then show ?thesis
      using make_infos_frame [OF m, of p r] Cons.prems(2) by simp
  next
    case (Suc j)
    have "infos' (Suc r + j) = info_of clients ?pvs (ps ! j)
        \<and> pv_playerInfo (pvs' (ps ! j)) = Some (Suc r + j)"
      by (rule Cons.IH [OF m]) (use Cons.prems Suc in auto)
    moreover have "info_of clients ?pvs (ps ! j) = info_of clients pvs (ps ! j)"
      by (simp add: info_of_def)
    ultimately show ?thesis using Suc by simp
  qed
qed simp

lemma sort_key_values: "map f (sort_key f xs) = sort (map f xs)"
  by (rule properties_for_sort [symmetric]) simp_all

lemma sort_of_range: "mset ns = mset (map int [0..<n]) \<Longrightarrow> sort ns = map int [0..<n]"
  by (rule properties_for_sort) (simp_all add: sorted_map)

lemma shifted_range: "map (\<lambda>k. int k + int m) [0..<n] = map int [m..<n + m]"
  by (rule nth_equalityI) simp_all

text \<open>What the start of the game establishes.\<close>

lemma game_init_ids:
  assumes perm: "is_perm perm (length (gs_Players (gh_gs sh)))"
    and dist: "distinct (gs_Players (gh_gs sh) @ gs_SpecialPlayers (gh_gs sh))"
    and init: "game_init perm sh th = (sh', th')"
  defines "ps \<equiv> gs_Players (gh_gs sh)" and "sps \<equiv> gs_SpecialPlayers (gh_gs sh)"
  shows "map (\<lambda>c. pv_playerID (gh_pvs sh' c)) sps = map int [0..<length sps]"
    "map (\<lambda>c. pv_playerID (gh_pvs sh' c)) ps = map (\<lambda>k. int k + int (length sps)) perm"
    "map (\<lambda>r. pi_PlayerID (gh_infos sh' r)) (gt_playersInfo th') = map int [0..<length (ps @ sps)]"
    "mset (gt_playersInfo th') = mset [gh_next sh..<gh_next sh + length (ps @ sps)]"
    "i < length (ps @ sps) \<Longrightarrow> pv_playerInfo (gh_pvs sh' ((ps @ sps) ! i)) = Some (gh_next sh + i)
       \<and> gh_infos sh' (gh_next sh + i) = info_of (gh_clients sh) (gh_pvs sh') ((ps @ sps) ! i)"
proof -
  let ?pvs1 = "assign_ids (zip sps (map int [0..<length sps])) (gh_pvs sh)"
  let ?pvs2 = "assign_ids (zip ps (map (\<lambda>k. int k + int (length sps)) perm)) ?pvs1"
  obtain pvs3 infos refs where m:
    "make_infos (gh_clients sh) (ps @ sps) (gh_next sh) ?pvs2 (gh_infos sh) = (pvs3, infos, refs)"
    using prod_cases3 by blast
  have sh': "gh_pvs sh' = pvs3" "gh_infos sh' = infos"
    and th': "gt_playersInfo th' = sort_key (\<lambda>r. pi_PlayerID (infos r)) refs"
    using init m by (auto simp: game_init_def Let_def ps_def sps_def)
  have d: "distinct ps" "distinct sps" "set ps \<inter> set sps = {}"
    using dist by (auto simp: ps_def sps_def)
  have ids1: "map (\<lambda>c. pv_playerID (?pvs1 c)) sps = map int [0..<length sps]"
    by (rule assign_ids_zip(1) [OF d(2)]) simp
  have len: "length (map (\<lambda>k. int k + int (length sps)) perm) = length ps"
    using is_perm_length [OF perm] by (simp add: ps_def)
  have "pv_playerID (?pvs2 c) = pv_playerID (?pvs1 c)" if "c \<in> set sps" for c
    by (rule assign_ids_zip(2) [OF d(1) len]) (use that d(3) in auto)
  then have "map (\<lambda>c. pv_playerID (?pvs2 c)) sps = map (\<lambda>c. pv_playerID (?pvs1 c)) sps" by simp
  then show sids: "map (\<lambda>c. pv_playerID (gh_pvs sh' c)) sps = map int [0..<length sps]"
    using ids1 by (simp add: sh' make_infos_playerID [OF m])
  show pids: "map (\<lambda>c. pv_playerID (gh_pvs sh' c)) ps = map (\<lambda>k. int k + int (length sps)) perm"
    using assign_ids_zip(1) [OF d(1) len] by (simp add: sh' make_infos_playerID [OF m])
  note nth = make_infos_nth [OF m, unfolded distinct_append, OF conjI [OF d(1) conjI [OF d(2) d(3)]]]
  then show "i < length (ps @ sps) \<Longrightarrow> pv_playerInfo (gh_pvs sh' ((ps @ sps) ! i)) = Some (gh_next sh + i)
       \<and> gh_infos sh' (gh_next sh + i) = info_of (gh_clients sh) (gh_pvs sh') ((ps @ sps) ! i)"
    by (simp add: sh' info_of_def make_infos_playerID [OF m])
  have refs: "refs = [gh_next sh..<gh_next sh + length (ps @ sps)]" by (rule make_infos_refs [OF m])
  then show "mset (gt_playersInfo th') = mset [gh_next sh..<gh_next sh + length (ps @ sps)]"
    by (simp add: th')
  have "map (\<lambda>r. pi_PlayerID (infos r)) refs = map (\<lambda>c. pv_playerID (gh_pvs sh' c)) (ps @ sps)"
    unfolding refs using nth
    by (intro nth_equalityI)
      (simp_all add: sh' info_of_def make_infos_playerID [OF m] del: map_append)
  also have "\<dots> = map (\<lambda>k. int k + int (length sps)) perm @ map int [0..<length sps]"
    using sids pids by simp
  finally have "mset (map (\<lambda>r. pi_PlayerID (infos r)) refs)
      = image_mset (\<lambda>k. int k + int (length sps)) (mset [0..<length ps]) + mset (map int [0..<length sps])"
    using perm by (simp add: is_perm_def ps_def)
  also have "\<dots> = mset (map int ([0..<length sps] @ [length sps..<length ps + length sps]))"
    by (simp only: mset_map [symmetric] shifted_range mset_append map_append union_commute)
  also have "[0..<length sps] @ [length sps..<length ps + length sps] = [0..<length (ps @ sps)]"
    using upt_add_eq_append [of 0 "length sps" "length ps"] by (simp add: add.commute)
  finally show "map (\<lambda>r. pi_PlayerID (gh_infos sh' r)) (gt_playersInfo th') = map int [0..<length (ps @ sps)]"
    unfolding sh'(2) th' sort_key_values by (rule sort_of_range)
qed

section \<open>Lemmas: the pending actions\<close>

definition action_board :: "MessageDoTurnPlayerAction list \<Rightarrow> int \<rightharpoonup> MessageDoTurnPlayerAction" where
  "action_board acts = map_of (map (\<lambda>a. (pa_PlayerID a, a)) acts)"

definition one_each :: "MessageDoTurnPlayerAction list \<Rightarrow> bool" where
  "one_each acts \<longleftrightarrow> distinct (map pa_PlayerID acts)"

text \<open>
  What the game loop promises of the actions it collects for the next DO_TURN: at most one per
  player, the newest one.
\<close>

definition latest :: "('a \<Rightarrow> 'k) \<Rightarrow> 'a list \<Rightarrow> 'k \<Rightarrow> 'a option \<Rightarrow> 'a option" where
  "latest key as k d = (if filter (\<lambda>a. key a = k) as = [] then d
     else Some (last (filter (\<lambda>a. key a = k) as)))"

locale action_collection =
  fixes put :: "'a \<Rightarrow> 's \<Rightarrow> 's" and empty :: 's
    and view :: "'s \<Rightarrow> 'k \<Rightarrow> 'a option" and ok :: "'s \<Rightarrow> bool" and key :: "'a \<Rightarrow> 'k"
  assumes ok_empty: "ok empty" and view_empty: "view empty k = None"
    and ok_put: "ok s \<Longrightarrow> ok (put a s)"
    and view_put: "ok s \<Longrightarrow> view (put a s) k = (if k = key a then Some a else view s k)"
begin

lemma ok_fold: "ok s \<Longrightarrow> ok (fold put as s)"
  by (induction as arbitrary: s) (simp_all add: ok_put)

lemma view_fold: "ok s \<Longrightarrow> view (fold put as s) k = latest key as k (view s k)"
proof (induction as arbitrary: s)
  case (Cons a as)
  have "view (fold put (a # as) s) k = latest key as k (if k = key a then Some a else view s k)"
    using Cons.IH [OF ok_put [OF Cons.prems]] view_put [OF Cons.prems] by simp
  then show ?case by (simp add: latest_def)
qed (simp add: latest_def)

lemma view_collected: "view (fold put as empty) k = latest key as k None"
  by (simp only: view_fold [OF ok_empty] view_empty)

end

lemma update_last: "xs \<noteq> [] \<Longrightarrow> xs[length xs - 1 := a] = butlast xs @ [a]"
  by (cases xs rule: rev_cases) simp_all

lemma put_action_mset:
  "find_index (\<lambda>x. pa_PlayerID x = pa_PlayerID a) acts = Some i \<Longrightarrow>
     mset (put_action a acts) = add_mset a (mset acts - {#acts ! i#})
     \<and> i < length acts \<and> pa_PlayerID (acts ! i) = pa_PlayerID a"
proof -
  assume f: "find_index (\<lambda>x. pa_PlayerID x = pa_PlayerID a) acts = Some i"
  from find_index_Some [OF f] have i: "i < length acts" "pa_PlayerID (acts ! i) = pa_PlayerID a" by auto
  let ?s = "swap_last i acts"
  have "put_action a acts = butlast ?s @ [a]"
    using f update_last [OF swap_last_nonempty [OF i(1)], of a] by (simp add: put_action_def)
  moreover have "mset acts = add_mset (acts ! i) (mset (butlast ?s))"
    using mset_swap_remove [OF i(1)] by (simp add: swap_remove_def)
  ultimately show ?thesis using i by simp
qed

lemma one_each_put: "one_each acts \<Longrightarrow> one_each (put_action a acts)"
proof (cases "find_index (\<lambda>x. pa_PlayerID x = pa_PlayerID a) acts")
  case None
  then have "put_action a acts = acts @ [a]" by (simp add: put_action_def)
  with None show "one_each acts \<Longrightarrow> ?thesis"
    by (auto simp: one_each_def find_index_None)
next
  case (Some i)
  note m = put_action_mset [OF Some]
  then have "mset acts = add_mset (acts ! i) (mset acts - {#acts ! i#})" by simp
  then have "image_mset pa_PlayerID (mset (put_action a acts)) = image_mset pa_PlayerID (mset acts)"
    using m by (metis image_mset_add_mset)
  then have "mset (map pa_PlayerID (put_action a acts)) = mset (map pa_PlayerID acts)" by simp
  then show "one_each acts \<Longrightarrow> ?thesis"
    unfolding one_each_def using mset_eq_imp_distinct_iff by blast
qed

lemma action_board_iff:
  "one_each acts \<Longrightarrow> action_board acts k = Some b \<longleftrightarrow> b \<in># mset acts \<and> pa_PlayerID b = k"
  by (auto simp: one_each_def action_board_def map_of_eq_Some_iff comp_def)

lemma action_board_put:
  assumes "one_each acts"
  shows "action_board (put_action a acts) k = (if k = pa_PlayerID a then Some a else action_board acts k)"
proof -
  note ok = one_each_put [OF assms, of a]
  have "action_board (put_action a acts) k = Some b \<longleftrightarrow>
      (if k = pa_PlayerID a then b = a else action_board acts k = Some b)" for b
  proof (cases "find_index (\<lambda>x. pa_PlayerID x = pa_PlayerID a) acts")
    case None
    then have "put_action a acts = acts @ [a]" by (simp add: put_action_def)
    with None show ?thesis
      unfolding action_board_iff [OF ok] action_board_iff [OF assms]
      by (auto simp: find_index_None)
  next
    case (Some i)
    note m = put_action_mset [OF Some]
    have "acts ! i \<in># mset acts" using m by simp
    then obtain M where "mset acts = add_mset (acts ! i) M" by (metis mset_add)
    then obtain ys where ys: "mset acts = mset (acts ! i # ys)" using ex_mset [of M] by auto
    then have "mset (map pa_PlayerID acts) = mset (map pa_PlayerID (acts ! i # ys))" by simp
    then have "distinct (map pa_PlayerID (acts ! i # ys))"
      using assms mset_eq_imp_distinct_iff unfolding one_each_def by blast
    then have "pa_PlayerID b \<noteq> pa_PlayerID a" if "b \<in> set ys" for b
      using m that by (metis distinct.simps(2) image_eqI image_set list.simps(9))
    then show ?thesis
      unfolding action_board_iff [OF ok] action_board_iff [OF assms] using m ys by auto
  qed
  then show ?thesis by (metis not_None_eq)
qed

interpretation pending: action_collection put_action "[]" action_board one_each pa_PlayerID
  by unfold_locales (simp_all add: one_each_put action_board_put, simp_all add: one_each_def action_board_def)

end
