(* ===== verification/Game_Invariants.thy ===== *)
theory Game_Invariants
  imports Game_Logic
begin

text \<open>
  Invariants of the goroutine of the game logic over all its histories: what it sends to each
  client follows the order of the protocol and agrees with its turn counter, the bookkeeping of a
  round of the fast mode, and the shape of the actions it sends in a game with timers.
\<close>

section \<open>What the clients are sent\<close>

fun deliver1 :: "cid \<Rightarrow> chan_op \<Rightarrow> pv_event list" where
  "deliver1 c (SendGameStarts d m) = (if d = c then [PvGameStarts m] else [])"
| "deliver1 c (SendNewTurn d m) = (if d = c then [PvNewTurn m] else [])"
| "deliver1 c (SendGameEnds d m) = (if d = c then [PvGameEnds m] else [])"
| "deliver1 c _ = []"

text \<open>The events that the sends of the game logic goroutine are for one client.\<close>

definition deliveries :: "cid \<Rightarrow> chan_op list \<Rightarrow> pv_event list" where
  "deliveries c ops = concat (map (deliver1 c) ops)"

fun exits :: "chan_op list \<Rightarrow> int list" where
  "exits [] = []"
| "exits (SendOnExit n # ops) = n # exits ops"
| "exits (_ # ops) = exits ops"

definition turn_numbers :: "pv_event list \<Rightarrow> int list" where
  "turn_numbers es = concat (map (\<lambda>e. case e of PvNewTurn t \<Rightarrow> [turn_TurnNumber t] | _ \<Rightarrow> []) es)"

lemma deliveries_simps [simp]:
  "deliveries c [] = []" "deliveries c (ops @ ops') = deliveries c ops @ deliveries c ops'"
  "deliveries c (op # ops) = deliver1 c op @ deliveries c ops"
  by (simp_all add: deliveries_def)

lemma exits_append [simp]: "exits (xs @ ys) = exits xs @ exits ys"
  by (induction xs rule: exits.induct) simp_all

lemma deliveries_map:
  assumes "distinct cs" "\<And>x. deliver1 c (f x) = (if x = c then [e] else [])"
  shows "deliveries c (map f cs) = (if c \<in> set cs then [e] else [])"
  using assms(1) by (induction cs) (auto simp: assms(2))

lemma exits_map: "(\<And>x. exits [f x] = []) \<Longrightarrow> exits (map f cs) = []"
  by (induction cs) (simp, metis append_Cons append_Nil exits_append list.simps(9))

lemma turn_numbers_simps [simp]:
  "turn_numbers [] = []" "turn_numbers (xs @ ys) = turn_numbers xs @ turn_numbers ys"
  "turn_numbers (PvNewTurn t # es) = turn_TurnNumber t # turn_numbers es"
  "turn_numbers (PvGameStarts g # es) = turn_numbers es" "turn_numbers (PvGameEnds g' # es) = turn_numbers es"
  by (simp_all add: turn_numbers_def)

definition clients_of :: "gl_thread \<Rightarrow> cid list" where
  "clients_of th = gt_allPlayers th @ gt_visus th"

lemma exits_game_ops [simp]:
  "exits (game_starts_ops sh th s) = []" "exits (handleGlForwardTurnToClients m th) = []"
  "exits (map (\<lambda>c. SendGameEnds c g) cs) = []"
  by (simp_all add: game_starts_ops_def handleGlForwardTurnToClients_def exits_map)

lemma deliveries_game_starts:
  assumes "distinct (clients_of th)"
  shows "\<exists>m. deliveries c (game_starts_ops sh th s) = (if c \<in> set (clients_of th) then [PvGameStarts m] else [])"
proof -
  have d: "distinct (gt_allPlayers th)" "distinct (gt_visus th)" "set (gt_allPlayers th) \<inter> set (gt_visus th) = {}"
    using assms by (auto simp: clients_of_def)
  let ?f = "game_starts_msg sh th s"
  have "deliveries c (map (\<lambda>p. SendGameStarts p (?f i p)) cs) = (if c \<in> set cs then [PvGameStarts (?f i c)] else [])"
    if "distinct cs" for i cs by (rule deliveries_map [OF that]) auto
  with d show ?thesis
    by (auto simp: game_starts_ops_def clients_of_def
        intro: exI [of _ "?f [] c"] exI [of _ "?f (gt_playersInfo th) c"])
qed

lemma deliveries_turn:
  assumes "distinct (clients_of th)"
  shows "\<exists>m. deliveries c (handleGlForwardTurnToClients d th)
      = (if c \<in> set (clients_of th) then [PvNewTurn m] else []) \<and> turn_TurnNumber m = gt_turnNumber th - 1"
proof -
  have d: "distinct (gt_allPlayers th)" "distinct (gt_visus th)" "set (gt_allPlayers th) \<inter> set (gt_visus th) = {}"
    using assms by (auto simp: clients_of_def)
  let ?m = "\<lambda>infos. \<lparr>turn_MessageType = ''TURN'', turn_TurnNumber = gt_turnNumber th - 1,
            turn_GameState = dta_GameState d, turn_PlayersInfo = infos\<rparr>"
  have "deliveries c (map (\<lambda>p. SendNewTurn p (?m i)) cs) = (if c \<in> set cs then [PvNewTurn (?m i)] else [])"
    if "distinct cs" for i cs by (rule deliveries_map [OF that]) auto
  with d show ?thesis
    by (auto simp: handleGlForwardTurnToClients_def Let_def clients_of_def
        intro: exI [of _ "?m []"] exI [of _ "?m (gt_playersInfo th)"])
qed

lemma deliveries_game_ends:
  "distinct cs \<Longrightarrow> deliveries c (map (\<lambda>c. SendGameEnds c g) cs) = (if c \<in> set cs then [PvGameEnds g] else [])"
  by (rule deliveries_map) auto

section \<open>The invariant of the game\<close>

definition in_game :: "gl_pc \<Rightarrow> bool" where
  "in_game pc \<longleftrightarrow> pc \<in> {GlTimers, GlFastAck, GlFastActions}"

text \<open>During the game, what each client was sent is where the turn counter says.\<close>

definition playing :: "gl_thread \<Rightarrow> chan_op list \<Rightarrow> bool" where
  "playing th ops \<longleftrightarrow>
     distinct (clients_of th) \<and> int (length (gt_playersInfo th)) = initialTotalNbPlayers th
     \<and> exits ops = [] \<and> 0 \<le> gt_turnNumber th
     \<and> (gt_turnNumber th < gt_nbTurnsMax th \<or> gt_turnNumber th = 0)
     \<and> (\<forall>c. phase_after (deliveries c ops)
              = Some (if c \<in> set (clients_of th) then During (gt_turnNumber th) else Before)
          \<and> turn_numbers (deliveries c ops)
              = (if c \<in> set (clients_of th) then map int [0..<nat (gt_turnNumber th)] else []))"

text \<open>Afterwards: the main goroutine was told at most once; it was told 0 after a complete game.\<close>

definition over :: "gl_thread \<Rightarrow> chan_op list \<Rightarrow> bool" where
  "over th ops \<longleftrightarrow>
     (\<forall>c. phase_after (deliveries c ops) \<noteq> None)
     \<and> (exits ops = [0] \<and> (\<forall>c \<in> set (clients_of th). phase_after (deliveries c ops) = Some Over
            \<and> (1 \<le> gt_nbTurnsMax th \<longrightarrow>
                turn_numbers (deliveries c ops) = map int [0..<nat (gt_nbTurnsMax th - 1)]))
        \<or> (exits ops = [1] \<or> exits ops = [] \<and> gt_pc th = GlReturned)
          \<and> (\<forall>c. phase_after (deliveries c ops) \<noteq> Some Over))"

definition gl_inv :: "gl_thread \<Rightarrow> chan_op list \<Rightarrow> bool" where
  "gl_inv th ops = (case gt_pc th of
      GlWaitStart \<Rightarrow> ops = [] \<and> gt_turnNumber th = 0
    | GlWaitInitAck \<Rightarrow> ops = [] \<and> gt_turnNumber th = 0 \<and> distinct (clients_of th)
        \<and> int (length (gt_playersInfo th)) = initialTotalNbPlayers th
    | GlSleepFirst \<Rightarrow> playing th ops \<and> gt_turnNumber th = 0
    | GlFinition \<Rightarrow> over th ops
    | GlReturned \<Rightarrow> over th ops
    | _ \<Rightarrow> playing th ops)"

lemma playing_over:
  assumes "playing th ops"
  shows "over (th\<lparr>gt_client := c, gt_pc := GlFinition\<rparr>) (ops @ [SendOnExit 1])"
    "over (th\<lparr>gt_client := c, gt_pc := GlReturned\<rparr>) ops"
  using assms by (auto simp: playing_def over_def split: if_splits)

lemma waiting_over:
  "over (th\<lparr>gt_client := c, gt_pc := GlFinition\<rparr>) [SendOnExit 1]"
  "over (th\<lparr>gt_client := c, gt_pc := GlReturned\<rparr>) []"
  by (simp_all add: over_def)

lemma playing_turn:
  assumes "playing th ops" and th1: "th1 = th\<lparr>gt_turnNumber := gt_turnNumber th + 1\<rparr>"
    and "gt_turnNumber th1 < gt_nbTurnsMax th1"
  shows "playing th1 (ops @ handleGlForwardTurnToClients m th1)"
proof -
  have d: "distinct (clients_of th1)" using assms by (simp add: playing_def clients_of_def)
  have n: "0 \<le> gt_turnNumber th" using assms(1) by (simp add: playing_def)
  have "phase_after (deliveries c (ops @ handleGlForwardTurnToClients m th1))
        = Some (if c \<in> set (clients_of th1) then During (gt_turnNumber th1) else Before)
      \<and> turn_numbers (deliveries c (ops @ handleGlForwardTurnToClients m th1))
        = (if c \<in> set (clients_of th1) then map int [0..<nat (gt_turnNumber th1)] else [])" for c
  proof -
    obtain t where t: "deliveries c (handleGlForwardTurnToClients m th1)
        = (if c \<in> set (clients_of th1) then [PvNewTurn t] else [])" "turn_TurnNumber t = gt_turnNumber th"
      using deliveries_turn [OF d, of c m] by (auto simp: th1)
    have "nat (gt_turnNumber th + 1) = Suc (nat (gt_turnNumber th))" using n by simp
    with t assms(1) n show ?thesis
      by (simp add: playing_def th1 clients_of_def)
  qed
  with assms n d show ?thesis
    by (simp add: playing_def th1 initialTotalNbPlayers_def)
qed

lemma playing_finish:
  assumes "playing th ops" and th1: "th1 = th\<lparr>gt_turnNumber := gt_turnNumber th + 1\<rparr>"
    and "\<not> gt_turnNumber th1 < gt_nbTurnsMax th1"
    and f: "handleGlGameFinished th1 m = Inr (client, ops')"
  shows "over (th1\<lparr>gt_client := client, gt_pc := GlFinition\<rparr>) (ops @ ops' @ [SendOnExit 0])"
proof -
  have d: "distinct (clients_of th)" using assms(1) by (simp add: playing_def)
  obtain g where g: "ops' = map (\<lambda>c. SendGameEnds c g) (clients_of th)"
    using f by (auto simp: handleGlGameFinished_def Let_def th1 clients_of_def split: if_splits)
  have ph: "phase_after (deliveries c (ops @ ops' @ [SendOnExit 0]))
        = Some (if c \<in> set (clients_of th) then Over else Before)
      \<and> turn_numbers (deliveries c (ops @ ops' @ [SendOnExit 0])) = turn_numbers (deliveries c ops)" for c
    using assms(1) by (simp add: g deliveries_game_ends [OF d] playing_def)
  moreover have "turn_numbers (deliveries c ops) = map int [0..<nat (gt_nbTurnsMax th - 1)]"
    if "c \<in> set (clients_of th)" "1 \<le> gt_nbTurnsMax th" for c
  proof -
    have "gt_turnNumber th = gt_nbTurnsMax th - 1" using assms that by (auto simp: playing_def)
    with that assms(1) show ?thesis by (simp add: playing_def)
  qed
  moreover have "exits (ops @ ops' @ [SendOnExit 0]) = [0]" using assms(1) by (simp add: g playing_def)
  ultimately show ?thesis by (simp add: over_def th1 clients_of_def)
qed

lemma playing_update [simp]:
  "playing (th\<lparr>gt_client := a\<rparr>) ops = playing th ops" "playing (th\<lparr>gt_pc := b\<rparr>) ops = playing th ops"
  "playing (th\<lparr>gt_playerActions := d\<rparr>) ops = playing th ops"
  "playing (th\<lparr>gt_connectedPlayers := e\<rparr>) ops = playing th ops"
  "playing (th\<lparr>gt_actionReceived := f\<rparr>) ops = playing th ops"
  "playing (th\<lparr>gt_sleeping := n\<rparr>) ops = playing th ops" "playing (th\<lparr>gt_unreset := m\<rparr>) ops = playing th ops"
  by (simp_all add: playing_def clients_of_def initialTotalNbPlayers_def)

lemma over_update [simp]:
  "over (th\<lparr>gt_client := a\<rparr>) ops = over th ops" "over (th\<lparr>gt_playerActions := d\<rparr>) ops = over th ops"
  "over (th\<lparr>gt_sleeping := n\<rparr>) ops = over th ops" "over (th\<lparr>gt_unreset := m\<rparr>) ops = over th ops"
  by (simp_all add: over_def clients_of_def)

lemma gl_inv_update [simp]:
  "gl_inv (th\<lparr>gt_client := a\<rparr>) ops = gl_inv th ops" "gl_inv (th\<lparr>gt_playerActions := d\<rparr>) ops = gl_inv th ops"
  "gl_inv (th\<lparr>gt_sleeping := n\<rparr>) ops = gl_inv th ops" "gl_inv (th\<lparr>gt_unreset := m\<rparr>) ops = gl_inv th ops"
  by (simp_all add: gl_inv_def clients_of_def initialTotalNbPlayers_def split: gl_pc.split)

lemma order_turn_simps [simp]:
  "gl_inv (order_turn th) ops = gl_inv th ops" "playing (order_turn th) ops = playing th ops"
  "gt_pc (order_turn th) = gt_pc th" "gt_unreset (order_turn th) = gt_unreset th"
  "gt_turnNumber (order_turn th) = gt_turnNumber th"
  "gt_playerActions (order_turn th) = gt_playerActions th"
  "gt_playersInfo (order_turn th) = gt_playersInfo th"
  "initialTotalNbPlayers (order_turn th) = initialTotalNbPlayers th"
  by (simp_all add: order_turn_def initialTotalNbPlayers_def)

lemma gl_inv_playing: "in_game (gt_pc th) \<Longrightarrow> gl_inv th ops = playing th ops"
  by (auto simp: in_game_def gl_inv_def)

lemma game_init_fields:
  assumes "game_init perm sh th = (sh', th')"
  shows "clients_of th' = gs_Players (gh_gs sh) @ gs_SpecialPlayers (gh_gs sh) @ gs_Visus (gh_gs sh)"
    "int (length (gt_playersInfo th')) = initialTotalNbPlayers th'" "gt_turnNumber th' = gt_turnNumber th"
    "gt_pc th' = gt_pc th" "gt_client th' = gt_client th"
  using assms
  by (auto simp: game_init_def Let_def clients_of_def initialTotalNbPlayers_def
      dest!: make_infos_refs split: prod.splits)

text \<open>The shared state of the start: the three lists of clients have no client in common.\<close>

definition start_ok :: "gl_shared \<Rightarrow> gl_event \<Rightarrow> bool" where
  "start_ok sh e \<longleftrightarrow> (\<forall>perm. e = GlStart perm \<longrightarrow>
     distinct (gs_Players (gh_gs sh) @ gs_SpecialPlayers (gh_gs sh) @ gs_Visus (gh_gs sh)))"

lemma gl_wait_start_step:
  assumes "gl_wait_start sh e th = GlStepped sh' th' ops'" "gt_pc th = GlWaitStart" "gt_turnNumber th = 0"
    and "start_ok sh e"
  shows "gl_inv th' ops'"
proof (cases e)
  case (GlStart perm)
  obtain sh1 th1 where i: "game_init perm sh th = (sh1, th1)" by fastforce
  note f = game_init_fields [OF i]
  show ?thesis
  proof (cases "sendDoInit (gt_client th1) (gt_initialNbPlayers th1) (gt_initialNbSpecialPlayers th1) (gt_nbTurnsMax th1)")
    case (Pair err client)
    with GlStart i assms(1) have s: "(case err of
        Some err \<Rightarrow> gl_fail sh1 (th1\<lparr>gt_client := client\<rparr>) (''Cannot send DO_INIT. '' @ err)
      | None \<Rightarrow> GlStepped sh1 (th1\<lparr>gt_client := client, gt_pc := GlWaitInitAck\<rparr>) []) = GlStepped sh' th' ops'"
      by (auto simp: gl_wait_start_def split: option.splits)
    show ?thesis
    proof (cases err)
      case None
      with s f assms(3,4) GlStart show ?thesis
        by (auto simp: gl_inv_def start_ok_def clients_of_def initialTotalNbPlayers_def)
    next
      case (Some r)
      with s show ?thesis by (auto simp: gl_fail_def gl_exit_def gl_inv_def over_def)
    qed
  qed
qed (use assms(1) in \<open>auto simp: gl_wait_start_def gl_terminate_def gl_fail_def gl_exit_def gl_inv_def over_def\<close>)

lemma gl_wait_init_ack_step:
  assumes "gl_wait_init_ack sh e th = GlStepped sh' th' ops'" "gl_inv th ops" "gt_pc th = GlWaitInitAck"
  shows "gl_inv th' (ops @ ops')"
proof -
  have i: "ops = []" "gt_turnNumber th = 0" "distinct (clients_of th)"
    "int (length (gt_playersInfo th)) = initialTotalNbPlayers th"
    using assms(2,3) by (simp_all add: gl_inv_def)
  consider (fail) r where "gl_fail sh th r = GlStepped sh' th' ops'"
    | (stop) r where "gl_terminate sh th r = GlStepped sh' th' ops'"
    | (go) s where "th' = game_control th" "ops' = game_starts_ops sh th s"
    using assms(1) by (auto simp: gl_wait_init_ack_def split: gl_event.splits option.splits sum.splits)
  then show ?thesis
  proof cases
    case fail
    then show ?thesis using i by (auto simp: gl_fail_def gl_exit_def gl_inv_def over_def)
  next
    case stop
    then show ?thesis using i by (auto simp: gl_terminate_def gl_inv_def over_def)
  next
    case go
    have "playing th ops'"
      unfolding playing_def go(2)
    proof (intro conjI allI)
      fix c
      obtain m where m: "deliveries c (game_starts_ops sh th s)
          = (if c \<in> set (clients_of th) then [PvGameStarts m] else [])"
        using deliveries_game_starts [OF i(3)] by blast
      show "phase_after (deliveries c (game_starts_ops sh th s))
          = Some (if c \<in> set (clients_of th) then During (gt_turnNumber th) else Before)"
        "turn_numbers (deliveries c (game_starts_ops sh th s))
          = (if c \<in> set (clients_of th) then map int [0..<nat (gt_turnNumber th)] else [])"
        using i(2) by (simp_all add: m phase_after_def)
    qed (use i in simp_all)
    moreover have "playing (th\<lparr>gt_turnNumber := 0\<rparr>) ops'"
      using calculation i(2) by (metis gl_thread.surjective gl_thread.update_convs(12))
    ultimately show ?thesis
      using i(1,2) go(1) by (auto simp: game_control_def gl_inv_def)
  qed
qed

text \<open>A message of the game logic during the game, in either mode.\<close>

lemma gl_exit_playing:
  "playing th ops \<Longrightarrow> gl_exit sh th client 1 [] = GlStepped sh' th' ops' \<Longrightarrow> gl_inv th' (ops @ ops')"
  using playing_over(1) [of th ops client] by (auto simp: gl_exit_def gl_inv_def)

lemma gl_terminate_playing:
  "playing th ops \<Longrightarrow> gl_terminate sh th r = GlStepped sh' th' ops' \<Longrightarrow> gl_inv th' (ops @ ops')"
  using playing_over(2) [of th ops "Kick (gt_client th) r"] by (auto simp: gl_terminate_def gl_inv_def)

lemma gl_finish_playing:
  assumes "playing th ops" "th1 = th\<lparr>gt_turnNumber := gt_turnNumber th + 1\<rparr>"
    "\<not> gt_turnNumber th1 < gt_nbTurnsMax th1" "gl_finish sh th1 m = GlStepped sh' th' ops'"
  shows "gl_inv th' (ops @ ops')"
proof -
  obtain client o1 where "handleGlGameFinished th1 m = Inr (client, o1)"
    using assms(4) by (auto simp: gl_finish_def split: sum.splits)
  with playing_finish [OF assms(1-3) this] assms(4) show ?thesis
    by (auto simp: gl_finish_def gl_exit_def gl_inv_def)
qed

lemma timers_step:
  assumes "gameLogicGameControlTimers sh e th = GlStepped sh' th' ops'" "playing th ops" "gt_pc th = GlTimers"
  shows "gl_inv th' (ops @ ops')"
proof (cases e)
  case (GlIncoming msg)
  let ?th1 = "th\<lparr>gt_turnNumber := gt_turnNumber th + 1\<rparr>"
  show ?thesis
  proof (cases "handleGLDoTurnAckReception (gt_client th) msg (initialTotalNbPlayers th)")
    case (Inl client)
    with GlIncoming assms gl_exit_playing show ?thesis
      by (simp add: gameLogicGameControlTimers_def)
  next
    case (Inr m)
    show ?thesis
    proof (cases "gt_turnNumber ?th1 < gt_nbTurnsMax ?th1")
      case True
      with GlIncoming Inr assms(1) have "th' = ?th1\<lparr>gt_sleeping := Suc (gt_sleeping th)\<rparr>"
        "ops' = handleGlForwardTurnToClients m ?th1"
        by (simp_all add: gameLogicGameControlTimers_def Let_def)
      with playing_turn [OF assms(2) refl True, of m] assms(3) show ?thesis
        by (simp add: gl_inv_playing in_game_def)
    next
      case False
      with GlIncoming Inr assms(1) have "gl_finish sh ?th1 m = GlStepped sh' th' ops'"
        by (simp add: gameLogicGameControlTimers_def Let_def)
      from gl_finish_playing [OF assms(2) refl False this] show ?thesis .
    qed
  qed
next
  case (GlCanTerminate r)
  with assms gl_terminate_playing show ?thesis by (simp add: gameLogicGameControlTimers_def)
next
  case (GlPlayerAction a)
  with assms show ?thesis
    by (auto simp: gameLogicGameControlTimers_def gl_inv_playing in_game_def)
qed (use assms(1) in \<open>simp_all add: gameLogicGameControlTimers_def\<close>)

lemma fast_wait_playing: "playing th ops \<Longrightarrow> gl_inv (fast_wait th) ops"
  by (simp add: fast_wait_def gl_inv_def)

lemma fast_await_ack_step:
  assumes "fast_await_ack sh e th = GlStepped sh' th' ops'" "playing th ops"
  shows "gl_inv th' (ops @ ops')"
proof (cases e)
  case (GlIncoming msg)
  let ?th1 = "th\<lparr>gt_turnNumber := gt_turnNumber th + 1\<rparr>"
  show ?thesis
  proof (cases "handleGLDoTurnAckReception (gt_client th) msg (initialTotalNbPlayers th)")
    case (Inl client)
    with GlIncoming assms gl_exit_playing show ?thesis by (simp add: fast_await_ack_def)
  next
    case (Inr m)
    show ?thesis
    proof (cases "gt_turnNumber ?th1 < gt_nbTurnsMax ?th1")
      case True
      with GlIncoming Inr assms(1) have "\<exists>rc. th' = fast_wait (?th1\<lparr>gt_actionReceived := rc\<rparr>)"
        "ops' = handleGlForwardTurnToClients m ?th1"
        by (auto simp: fast_await_ack_def Let_def)
      with playing_turn [OF assms(2) refl True, of m] show ?thesis
        by (auto intro: fast_wait_playing)
    next
      case False
      with GlIncoming Inr assms(1) have "gl_finish sh ?th1 m = GlStepped sh' th' ops'"
        by (simp add: fast_await_ack_def Let_def)
      from gl_finish_playing [OF assms(2) refl False this] show ?thesis .
    qed
  qed
next
  case (GlCanTerminate r)
  with assms gl_terminate_playing show ?thesis by (simp add: fast_await_ack_def)
qed (use assms(1) in \<open>simp_all add: fast_await_ack_def\<close>)

lemma fast_await_actions_step:
  assumes "fast_await_actions sh e th = GlStepped sh' th' ops'" "playing th ops"
  shows "gl_inv th' (ops @ ops')"
  using assms gl_terminate_playing [OF assms(2)]
  by (cases e) (auto simp: fast_await_actions_def intro!: fast_wait_playing)

lemma gl_inv_step:
  assumes inv: "gl_inv th ops" and step: "handleGameLogic sh e th = GlStepped sh' th' ops'"
    and start: "start_ok sh e"
  shows "gl_inv th' (ops @ ops')"
proof (cases "e = GlTimerSend \<or> e = GlTimerReset")
  case True
  then show ?thesis
    using inv step
    by (auto simp: handleGameLogic_def timer_send_def timer_reset_def split: nat.splits)
next
  case False
  show ?thesis
  proof (cases "gt_pc th")
    case GlWaitStart
    with False step have "gl_wait_start sh e th = GlStepped sh' th' ops'"
      by (cases e) (simp_all add: handleGameLogic_def)
    with gl_wait_start_step GlWaitStart start inv show ?thesis by (simp add: gl_inv_def)
  next
    case GlWaitInitAck
    with False step have "gl_wait_init_ack sh e th = GlStepped sh' th' ops'"
      by (cases e) (simp_all add: handleGameLogic_def)
    with gl_wait_init_ack_step GlWaitInitAck inv show ?thesis by blast
  next
    case GlSleepFirst
    with False step have "gl_sleep_first sh e th = GlStepped sh' th' ops'"
      by (cases e) (simp_all add: handleGameLogic_def)
    moreover have "playing th ops" "gt_turnNumber th = 0"
      using inv GlSleepFirst by (simp_all add: gl_inv_def)
    moreover have "playing (th\<lparr>gt_turnNumber := 0\<rparr>) ops"
      using calculation(2,3) by (metis gl_thread.surjective gl_thread.update_convs(12))
    ultimately show ?thesis
      by (cases e) (auto simp: gl_sleep_first_def gl_inv_def)
  next
    case GlTimers
    with False step have "gameLogicGameControlTimers sh e th = GlStepped sh' th' ops'"
      by (cases e) (simp_all add: handleGameLogic_def)
    with timers_step GlTimers inv show ?thesis by (simp add: gl_inv_def)
  next
    case GlFastAck
    with False step have "fast_await_ack sh e th = GlStepped sh' th' ops'"
      by (cases e) (simp_all add: handleGameLogic_def)
    with fast_await_ack_step GlFastAck inv show ?thesis by (simp add: gl_inv_def)
  next
    case GlFastActions
    with False step have "fast_await_actions sh e th = GlStepped sh' th' ops'"
      by (cases e) (simp_all add: handleGameLogic_def)
    with fast_await_actions_step GlFastActions inv show ?thesis by (simp add: gl_inv_def)
  next
    case GlFinition
    with False step have "waitGameLogicFinition sh e th = GlStepped sh' th' ops'"
      by (cases e) (simp_all add: handleGameLogic_def)
    with GlFinition inv show ?thesis
      by (cases e) (auto simp: waitGameLogicFinition_def gl_terminate_def gl_inv_def over_def clients_of_def)
  next
    case GlReturned
    with False step show ?thesis by (cases e) (simp_all add: handleGameLogic_def)
  qed
qed

lemma gl_inv_trace:
  assumes "gl_trace th0 es th ops" "th0 = gl_start c0" "\<forall>x \<in> set es. start_ok (fst x) (snd x)"
  shows "gl_inv th ops"
  using assms
proof (induction rule: gl_trace.induct)
  case (gl_nil th)
  then show ?case by (simp add: gl_inv_def gl_start_def)
next
  case (gl_snoc th0 es th ops sh e sh' th' ops')
  then show ?case using gl_inv_step [of th ops sh e sh' th' ops'] by simp
qed

lemma reception_winner:
  "handleGLDoTurnAckReception c msg n = Inr m \<Longrightarrow> - 1 \<le> dta_WinnerPlayerID m \<and> dta_WinnerPlayerID m < n"
  by (auto simp: handleGLDoTurnAckReception_def readDoTurnAckMessage_Inr split: option.splits sum.splits)

lemma gl_finish_no_panic:
  assumes "playing th ops" "handleGLDoTurnAckReception c msg (initialTotalNbPlayers th) = Inr m"
  shows "gl_finish sh (th\<lparr>gt_turnNumber := k\<rparr>) m \<noteq> GlPanicked p"
  using reception_winner [OF assms(2)] assms(1)
  by (auto simp: gl_finish_def handleGlGameFinished_def gl_exit_def playing_def Let_def)

lemma gl_step_no_panic:
  assumes "gl_inv th ops"
  shows "handleGameLogic sh e th \<noteq> GlPanicked p"
proof -
  have fin: "gl_finish sh (th\<lparr>gt_turnNumber := k\<rparr>) m \<noteq> GlPanicked p"
    if "in_game (gt_pc th)" "handleGLDoTurnAckReception c msg (initialTotalNbPlayers th) = Inr m" for c msg k m
    using gl_finish_no_panic [OF _ that(2)] assms gl_inv_playing [OF that(1)] by blast
  show ?thesis
    using fin
    by (cases "gt_pc th"; cases e)
      (auto simp: handleGameLogic_def timer_send_def timer_reset_def gl_wait_start_def gl_fail_def
        gl_exit_def gl_terminate_def gl_wait_init_ack_def gl_sleep_first_def in_game_def
        gameLogicGameControlTimers_def fast_await_ack_def fast_await_actions_def Let_def
        waitGameLogicFinition_def split: nat.splits option.splits sum.splits prod.splits)
qed

section \<open>One round of the fast mode\<close>

fun heard :: "gl_event \<Rightarrow> int option" where
  "heard (GlPlayerAction a) = Some (pa_PlayerID a)"
| "heard (GlPlayerDisconnected p) = Some p"
| "heard _ = None"

text \<open>The actions collected from a sequence of events, given who is connected at its beginning.\<close>

fun collect :: "(int \<times> int) list \<Rightarrow> gl_event list \<Rightarrow> MessageDoTurnPlayerAction list" where
  "collect conn [] = []"
| "collect conn (GlPlayerAction a # es) =
     (if map_of conn (pa_PlayerID a) \<noteq> None then a # collect conn es else collect conn es)"
| "collect conn (GlPlayerDisconnected p # es) = collect (AList.delete p conn) es"
| "collect conn (_ # es) = collect conn es"

definition still_connected :: "(int \<times> int) list \<Rightarrow> gl_event list \<Rightarrow> (int \<times> int) list" where
  "still_connected conn es = fold (\<lambda>e conn. case e of GlPlayerDisconnected p \<Rightarrow> AList.delete p conn | _ \<Rightarrow> conn) es conn"

definition waiting :: "gl_thread \<Rightarrow> int set" where
  "waiting th = {k. map_of (gt_actionReceived th) k = Some False}"

lemma collect_snoc: "collect conn (es @ [e]) = collect conn es @ collect (still_connected conn es) [e]"
  by (induction conn es rule: collect.induct) (simp_all add: still_connected_def)

lemma still_connected_snoc: "still_connected conn (es @ [e])
    = (case e of GlPlayerDisconnected p \<Rightarrow> AList.delete p (still_connected conn es) | _ \<Rightarrow> still_connected conn es)"
  by (cases e) (simp_all add: still_connected_def)

lemma areAllValuesTrue_waiting:
  "distinct (map fst (gt_actionReceived th)) \<Longrightarrow> areAllValuesTrue (gt_actionReceived th) \<longleftrightarrow> waiting th = {}"
  by (auto simp: areAllValuesTrue_def waiting_def list_all_iff) (metis (full_types))

lemma waiting_update:
  "waiting (th\<lparr>gt_actionReceived := AList.update p True (gt_actionReceived th)\<rparr>) = waiting th - {p}"
  by (auto simp: waiting_def update_conv')

text \<open>The state of the inner loop after the events \<open>es\<close>, compared with the state \<open>th\<close> it began in.\<close>

definition collecting :: "gl_thread \<Rightarrow> gl_event list \<Rightarrow> gl_thread \<Rightarrow> bool" where
  "collecting th es th' \<longleftrightarrow>
     (let acts = gt_playerActions th @ collect (gt_connectedPlayers th) es in
      gt_connectedPlayers th' = still_connected (gt_connectedPlayers th) es
      \<and> distinct (map fst (gt_actionReceived th'))
      \<and> (gt_pc th' = GlFastActions \<and> waiting th' = waiting th - set (List.map_filter heard es)
           \<and> waiting th' \<noteq> {} \<and> gt_playerActions th' = acts \<and> gt_client th' = gt_client th
         \<or> gt_pc th' = GlFastAck \<and> waiting th \<subseteq> set (List.map_filter heard es)
           \<and> gt_playerActions th' = [] \<and> gt_client th' = snd (sendDoTurn (gt_client th) acts)))"

lemma map_filter_snoc: "List.map_filter f (xs @ [x])
    = List.map_filter f xs @ (case f x of None \<Rightarrow> [] | Some y \<Rightarrow> [y])"
  by (simp add: List.map_filter_def split: option.split)

lemma collecting_wait:
  assumes "gt_connectedPlayers th1 = still_connected (gt_connectedPlayers th) es"
    and "distinct (map fst (gt_actionReceived th1))"
    and "waiting th1 = waiting th - set (List.map_filter heard es)"
    and "gt_playerActions th1 = gt_playerActions th @ collect (gt_connectedPlayers th) es"
    and "gt_client th1 = gt_client th"
  shows "collecting th es (fast_wait th1)"
proof (cases "areAllValuesTrue (gt_actionReceived th1)")
  case True
  then have "waiting th1 = {}" using areAllValuesTrue_waiting [OF assms(2)] by simp
  with assms True show ?thesis
    by (auto simp: collecting_def fast_wait_def order_turn_def)
next
  case False
  then have "waiting th1 \<noteq> {}" using areAllValuesTrue_waiting [OF assms(2)] by simp
  moreover have "waiting (th1\<lparr>gt_pc := GlFastActions\<rparr>) = waiting th1" by (simp add: waiting_def)
  ultimately show ?thesis using assms False by (auto simp: collecting_def fast_wait_def)
qed

lemma collecting_step:
  assumes c: "collecting th es th1" and e: "heard e = Some p"
    and step: "handleGameLogic sh e th1 = GlStepped sh' th' ops'"
  shows "collecting th (es @ [e]) th' \<and> ops' = []"
proof -
  have pc: "gt_pc th1 = GlFastActions"
  proof (rule ccontr)
    assume "gt_pc th1 \<noteq> GlFastActions"
    with c have "gt_pc th1 = GlFastAck" by (simp add: collecting_def Let_def)
    with step e show False by (cases e) (simp_all add: handleGameLogic_def fast_await_ack_def)
  qed
  with c have i: "gt_connectedPlayers th1 = still_connected (gt_connectedPlayers th) es"
    "distinct (map fst (gt_actionReceived th1))"
    "waiting th1 = waiting th - set (List.map_filter heard es)"
    "gt_playerActions th1 = gt_playerActions th @ collect (gt_connectedPlayers th) es"
    "gt_client th1 = gt_client th" by (auto simp: collecting_def Let_def)
  let ?r = "AList.update p True (gt_actionReceived th1)"
  have d: "distinct (map fst ?r)" using i(2) by (rule distinct_update)
  have w: "{k. map_of ?r k = Some False} = waiting th - set (List.map_filter heard (es @ [e]))"
    using waiting_update [of p th1] i(3) e by (auto simp: waiting_def map_filter_snoc)
  show ?thesis
  proof (cases e)
    case (GlPlayerAction a)
    with step e pc have "th' = fast_wait (th1\<lparr>gt_actionReceived := ?r, gt_playerActions :=
        (if map_of (gt_connectedPlayers th1) p \<noteq> None then gt_playerActions th1 @ [a]
         else gt_playerActions th1)\<rparr>)" "ops' = []"
      by (simp_all add: handleGameLogic_def fast_await_actions_def)
    moreover have "collecting th (es @ [e]) (fast_wait (th1\<lparr>gt_actionReceived := ?r, gt_playerActions :=
        (if map_of (gt_connectedPlayers th1) p \<noteq> None then gt_playerActions th1 @ [a]
         else gt_playerActions th1)\<rparr>))"
      by (rule collecting_wait)
        (use i d w GlPlayerAction e in \<open>simp_all add: waiting_def still_connected_snoc collect_snoc\<close>)
    ultimately show ?thesis by simp
  next
    case (GlPlayerDisconnected q)
    with step e pc have "th' = fast_wait (th1\<lparr>gt_actionReceived := ?r,
        gt_connectedPlayers := AList.delete p (gt_connectedPlayers th1)\<rparr>)" "ops' = []"
      by (simp_all add: handleGameLogic_def fast_await_actions_def)
    moreover have "collecting th (es @ [e]) (fast_wait (th1\<lparr>gt_actionReceived := ?r,
        gt_connectedPlayers := AList.delete p (gt_connectedPlayers th1)\<rparr>))"
      by (rule collecting_wait)
        (use i d w GlPlayerDisconnected e in \<open>simp_all add: waiting_def still_connected_snoc collect_snoc\<close>)
    ultimately show ?thesis by simp
  qed (use e in simp_all)
qed

lemma collecting_trace:
  assumes "gl_trace th es th' ops" "gt_pc th = GlFastActions" "distinct (map fst (gt_actionReceived th))"
    "waiting th \<noteq> {}" "\<forall>x \<in> set es. heard (snd x) \<noteq> None"
  shows "collecting th (map snd es) th' \<and> ops = []"
  using assms
proof (induction rule: gl_trace.induct)
  case (gl_nil th)
  then show ?case by (simp add: collecting_def still_connected_def List.map_filter_def)
next
  case (gl_snoc th0 es th ops sh e sh' th' ops')
  then obtain p where p: "heard e = Some p" by auto
  have c: "collecting th0 (map snd es) th" "ops = []" using gl_snoc by simp_all
  from collecting_step [OF c(1) p gl_snoc(2)] c(2) show ?case by simp
qed

text \<open>The bookkeeping of the fast mode: every key is there once.\<close>

definition fast_inv :: "gl_thread \<Rightarrow> bool" where
  "fast_inv th \<longleftrightarrow> distinct (map fst (gt_connectedPlayers th))
     \<and> distinct (map fst (gt_actionReceived th))"

lemma fast_inv_update [simp]:
  "fast_inv (th\<lparr>gt_client := a\<rparr>) = fast_inv th" "fast_inv (th\<lparr>gt_pc := b\<rparr>) = fast_inv th"
  "fast_inv (th\<lparr>gt_turnNumber := c\<rparr>) = fast_inv th" "fast_inv (th\<lparr>gt_playerActions := d\<rparr>) = fast_inv th"
  "fast_inv (th\<lparr>gt_sleeping := n\<rparr>) = fast_inv th" "fast_inv (th\<lparr>gt_unreset := m\<rparr>) = fast_inv th"
  by (simp_all add: fast_inv_def)

lemma fast_inv_events:
  assumes "fast_inv th"
  shows "fast_inv (th\<lparr>gt_actionReceived := AList.update p True (gt_actionReceived th)\<rparr>)"
    "fast_inv (th\<lparr>gt_actionReceived := AList.update p True (gt_actionReceived th),
       gt_connectedPlayers := AList.delete p (gt_connectedPlayers th)\<rparr>)"
    "fast_inv (th\<lparr>gt_turnNumber := k,
       gt_actionReceived := map (\<lambda>(q, _). (q, False)) (gt_connectedPlayers th)\<rparr>)"
  using assms by (simp_all add: fast_inv_def distinct_update distinct_delete comp_def case_prod_beta)

lemma fast_inv_wait [simp]: "fast_inv (fast_wait th) = fast_inv th"
  by (simp add: fast_inv_def fast_wait_def order_turn_def)

lemma fast_inv_step:
  assumes "handleGameLogic sh e th = GlStepped sh' th' ops'" "fast_inv th"
  shows "fast_inv th'"
proof -
  have g: "fast_inv (game_control th)"
    using assms(2) by (simp add: fast_inv_def game_control_def order_turn_def comp_def distinct_map inj_on_def)
  have i: "fast_inv th1" if "game_init perm sh th = (sh1, th1)" for perm sh1 th1
    using that assms(2) by (auto simp: fast_inv_def game_init_def Let_def split: prod.splits)
  show ?thesis
    using assms g fast_inv_events
    by (cases "gt_pc th"; cases e)
      (auto simp: handleGameLogic_def timer_send_def timer_reset_def gl_wait_start_def gl_fail_def
        gl_exit_def gl_terminate_def gl_wait_init_ack_def gl_sleep_first_def gl_finish_def
        gameLogicGameControlTimers_def fast_await_ack_def fast_await_actions_def Let_def
        waitGameLogicFinition_def order_turn_def dest!: i
        split: nat.splits option.splits sum.splits prod.splits if_splits)
qed

lemma fast_inv_trace: "gl_trace th0 es th ops \<Longrightarrow> fast_inv th0 \<Longrightarrow> fast_inv th"
  by (induction rule: gl_trace.induct) (auto dest: fast_inv_step)

lemma fast_inv_start: "fast_inv (gl_start c)"
  by (simp add: fast_inv_def gl_start_def)

section \<open>One action per player\<close>

definition do_turns_ok :: "Client \<Rightarrow> bool" where
  "do_turns_ok c \<longleftrightarrow> (\<forall>m. ODoTurn m \<in> set (sent c) \<longrightarrow> one_each (dt_PlayerActions m))"

definition timers_inv :: "gl_thread \<Rightarrow> bool" where
  "timers_inv th \<longleftrightarrow> \<not> gt_fast th \<and> gt_pc th \<noteq> GlFastAck \<and> gt_pc th \<noteq> GlFastActions
     \<and> one_each (gt_playerActions th) \<and> do_turns_ok (gt_client th)"

lemma do_turns_ok_Kick [simp]: "do_turns_ok (Kick c r) = do_turns_ok c"
  using sent_Kick [of c r] by (auto simp: do_turns_ok_def kick_msg_def)

lemma do_turns_ok_send:
  assumes "do_turns_ok c"
  shows "one_each acts \<Longrightarrow> do_turns_ok (snd (sendDoTurn c acts))"
    "sendDoInit c a b d = (e, c') \<Longrightarrow> do_turns_ok c'"
  using assms
  by (auto simp: do_turns_ok_def sendDoTurn_def sendDoInit_def Let_def client_log.log_snd
      dest!: client_log.log_send split: if_splits)

lemma timers_inv_order [simp]: "timers_inv th \<Longrightarrow> timers_inv (order_turn th)"
  by (simp add: timers_inv_def order_turn_def do_turns_ok_send)

lemma reception_client:
  "handleGLDoTurnAckReception c msg n = Inl c' \<Longrightarrow> \<exists>r. c' = Kick c r"
  by (auto simp: handleGLDoTurnAckReception_def split: option.splits sum.splits)

lemma one_each_Nil [simp]: "one_each []"
  by (simp add: one_each_def)

lemma timers_inv_step:
  assumes "handleGameLogic sh e th = GlStepped sh' th' ops'" "timers_inv th"
    and "\<forall>perm. e = GlStart perm \<longrightarrow> \<not> gs_Fast (gh_gs sh)"
  shows "timers_inv th'"
proof -
  have i: "timers_inv th1" if "game_init perm sh th = (sh1, th1)" "\<not> gs_Fast (gh_gs sh)" for perm sh1 th1
    using that assms(2) by (auto simp: timers_inv_def game_init_def Let_def split: prod.splits)
  have o: "do_turns_ok (snd (sendDoTurn (gt_client th) acts))" if "one_each acts" for acts
    using do_turns_ok_send(1) that assms(2) by (simp add: timers_inv_def)
  have r: "do_turns_ok c'" if "handleGLDoTurnAckReception (gt_client th) msg n = Inl c'" for msg n c'
    using reception_client [OF that] assms(2) by (auto simp: timers_inv_def)
  have f: "do_turns_ok c'" if "handleGlGameFinished (th\<lparr>gt_turnNumber := k\<rparr>) m = Inr (c', op)" for k m c' op
    using that assms(2) by (auto simp: handleGlGameFinished_def Let_def timers_inv_def split: if_splits)
  show ?thesis
  proof (cases "\<exists>perm. e = GlStart perm \<and> gt_pc th = GlWaitStart")
    case True
    then obtain perm where e: "e = GlStart perm" "gt_pc th = GlWaitStart" by blast
    obtain sh1 th1 where g: "game_init perm sh th = (sh1, th1)" by fastforce
    from i [OF g] assms(3) e have "timers_inv th1" by simp
    with assms(1) e g show ?thesis
      by (auto simp: handleGameLogic_def gl_wait_start_def gl_fail_def gl_exit_def timers_inv_def
          dest: do_turns_ok_send(2) split: prod.splits option.splits)
  next
    case False
    with assms(1,2) o r f show ?thesis
      by (cases "gt_pc th"; cases e)
        (auto simp: handleGameLogic_def timer_send_def timer_reset_def gl_wait_start_def gl_fail_def
          gl_exit_def gl_terminate_def gl_wait_init_ack_def gl_sleep_first_def gl_finish_def
          game_control_def gameLogicGameControlTimers_def Let_def waitGameLogicFinition_def
          order_turn_def timers_inv_def one_each_put
          split: nat.splits option.splits sum.splits if_splits prod.splits)
  qed
qed

end
