(* ===== verification/Game_Properties.thy ===== *)
theory Game_Properties
  imports Game_Invariants
begin

text \<open>
  The properties of src/control_gl.go, with the example game that witnesses them: one player, one
  visualization and a game logic play a game of two turns, with timers and in fast mode.
\<close>

section \<open>An example\<close>

primrec gl_run :: "(gl_shared \<times> gl_event) list \<Rightarrow> gl_thread \<Rightarrow> (gl_thread \<times> chan_op list) option" where
  "gl_run [] th = Some (th, [])"
| "gl_run (x # xs) th = (case handleGameLogic (fst x) (snd x) th of
     GlStepped sh' th' ops \<Rightarrow>
       (case gl_run xs th' of Some (th'', ops') \<Rightarrow> Some (th'', ops @ ops') | None \<Rightarrow> None)
   | _ \<Rightarrow> None)"

lemma gl_run_trace:
  "gl_trace th0 es0 th ops0 \<Longrightarrow> gl_run es th = Some (th', ops) \<Longrightarrow> gl_trace th0 (es0 @ es) th' (ops0 @ ops)"
proof (induction es arbitrary: es0 th ops0 ops)
  case (Cons x xs)
  obtain sh e where x: "x = (sh, e)" by fastforce
  from Cons.prems(2) obtain sh1 th1 ops1 ops2 where s: "handleGameLogic sh e th = GlStepped sh1 th1 ops1"
    "gl_run xs th1 = Some (th', ops2)" "ops = ops1 @ ops2"
    by (auto simp: x split: gl_outcome.splits option.splits)
  from Cons.IH [OF gl_snoc [OF Cons.prems(1) s(1)] s(2)] s(3) show ?case by (simp add: x)
qed simp

lemmas gl_run_start = gl_run_trace [OF gl_nil, simplified]

text \<open>One player, one visualization, a game of two turns with timers.\<close>

definition game_shared :: gl_shared where
  "game_shared = \<lparr>gh_gs = bob_server\<lparr>gs_GameLogic := [2], gs_GameState := GAME_RUNNING, gs_NbTurnsMax := 2\<rparr>,
     gh_clients = (\<lambda>_. bob), gh_pvs = (\<lambda>c. new_player c False),
     gh_infos = sh_infos example_shared, gh_next = 0\<rparr>"

definition init_ack :: ClientMessage where
  "init_ack = good_message [(''message_type'', JStr ''DO_INIT_ACK''),
     (''initial_game_state'', JObj [(''all_clients'', JObj [])])]"

definition turn_ack :: ClientMessage where
  "turn_ack = good_message [(''message_type'', JStr ''DO_TURN_ACK''),
     (''winner_player_id'', JNum (FZero False)), (''game_state'', JObj [(''all_clients'', JObj [])])]"

definition bob_action :: MessageDoTurnPlayerAction where
  "bob_action = \<lparr>pa_PlayerID = 0, pa_TurnNumber = 0, pa_Actions = []\<rparr>"

definition logic :: Client where
  "logic = bob\<lparr>cl_outbox := [(login_ack, [])]\<rparr>"

definition example_opening :: "(gl_shared \<times> gl_event) list" where
  "example_opening = map (Pair game_shared) [GlStart [0], GlIncoming init_ack, GlSlept, GlIncoming turn_ack]"

definition example_game :: "(gl_shared \<times> gl_event) list" where
  "example_game = example_opening @ map (Pair game_shared)
     [GlPlayerAction bob_action, GlTimerSend, GlTimerReset, GlIncoming turn_ack]"

lemma example_acks:
  "readDoInitAckMessage (msg_content init_ack) = Inr \<lparr>dia_InitialGameState = []\<rparr>"
  "readDoTurnAckMessage (msg_content turn_ack) 1 = Inr \<lparr>dta_WinnerPlayerID = 0, dta_GameState = []\<rparr>"
  "msg_err init_ack = None" "msg_err turn_ack = None"
  by (simp_all add: readDoInitAckMessage_def readDoTurnAckMessage_def init_ack_def turn_ack_def
      good_message_def checkMessageType_def ReadString_def ReadInt_def ReadObject_def int_of_float_def)

lemma example_do_init: "\<exists>c. sendDoInit logic 1 0 2 = (None, c) \<and> healthy (cl_writer c)"
proof -
  have h: "healthy (cl_writer logic)" by (simp add: logic_def bob_def new_client_def healthy_def)
  let ?m = "\<lparr>di_MessageType = ''DO_INIT'', di_NbPlayers = 1, di_NbSpecialPlayers = 0, di_NbTurnsMax = 2\<rparr>"
  obtain j where "Marshal (MessageDoInit_json ?m) = Inr j" "length j < 16777215"
    by (simp add: MessageDoInit_json_def field_part_def enclose_def quote_string_plain plain_char_def
        show_int_def show_nat.simps)
  from send_json_healthy [OF h this, of "ODoInit ?m"] show ?thesis by (auto simp: sendDoInit_def)
qed

lemma example_do_turn:
  assumes "healthy (cl_writer c)" "acts = [] \<or> acts = [bob_action]"
  shows "healthy (cl_writer (snd (sendDoTurn c acts)))
    \<and> sent (snd (sendDoTurn c acts)) = sent c @ [ODoTurn \<lparr>dt_MessageType = ''DO_TURN'', dt_PlayerActions = acts\<rparr>]"
proof -
  let ?m = "\<lparr>dt_MessageType = ''DO_TURN'', dt_PlayerActions = acts\<rparr>"
  obtain j where "Marshal (MessageDoTurn_json ?m) = Inr j" "length j < 16777215"
    using assms(2)
    by (auto simp: MessageDoTurn_json_def MessageDoTurnPlayerAction_json_def bob_action_def field_part_def
        enclose_def quote_string_plain plain_char_def show_int_def show_nat.simps)
  from send_json_healthy [OF assms(1) this, of "ODoTurn ?m"] show ?thesis
    by (auto simp: sendDoTurn_def sent_def)
qed

definition opened :: "Client \<Rightarrow> pref list \<Rightarrow> gl_thread" where
  "opened c refs = (gl_start c)\<lparr>gt_allPlayers := [0], gt_visus := [1], gt_playersInfo := refs,
     gt_initialNbPlayers := 1, gt_initialNbSpecialPlayers := 0, gt_nbTurnsMax := 2,
     gt_msBeforeFirstTurn := FNum 1000, gt_msBetweenTurns := FNum 1000, gt_fast := False\<rparr>"

lemma example_init: "\<exists>sh refs. game_init [0] game_shared (gl_start logic) = (sh, opened logic refs) \<and> length refs = 1"
proof -
  obtain sh th where g: "game_init [0] game_shared (gl_start logic) = (sh, th)" by fastforce
  have "th = opened logic (gt_playersInfo th)"
    using g by (auto simp: game_init_def Let_def opened_def gl_start_def game_shared_def bob_server_def
        small_server_def seat_def split: prod.splits)
  moreover have "length (gt_playersInfo th) = 1"
    using game_init_fields(2) [OF g] by (subst (asm) (2) calculation)
      (simp add: opened_def initialTotalNbPlayers_def)
  ultimately show ?thesis using g by metis
qed

text \<open>The steps of the example: opening, a turn with an action, and the end.\<close>

lemma example_step_start:
  "\<exists>sh c refs. handleGameLogic game_shared (GlStart [0]) (gl_start logic)
     = GlStepped sh ((opened c refs)\<lparr>gt_pc := GlWaitInitAck\<rparr>) []
     \<and> length refs = 1 \<and> healthy (cl_writer c)"
proof -
  obtain c where c: "sendDoInit logic 1 0 2 = (None, c)" "healthy (cl_writer c)"
    using example_do_init by blast
  obtain sh refs where g: "game_init [0] game_shared (gl_start logic) = (sh, opened logic refs)" "length refs = 1"
    using example_init by blast
  have pc: "gt_pc (gl_start logic) = GlWaitStart" by (simp add: gl_start_def)
  have "handleGameLogic game_shared (GlStart [0]) (gl_start logic)
     = GlStepped sh ((opened logic refs)\<lparr>gt_client := c, gt_pc := GlWaitInitAck\<rparr>) []"
    by (simp add: handleGameLogic_def gl_wait_start_def pc g) (simp add: opened_def gl_start_def c(1))
  moreover have "(opened logic refs)\<lparr>gt_client := c\<rparr> = opened c refs"
    by (simp add: opened_def gl_start_def)
  ultimately show ?thesis using g(2) c(2) by metis
qed

definition second_turn :: "Client \<Rightarrow> pref list \<Rightarrow> gl_thread" where
  "second_turn c refs = (opened c refs)\<lparr>gt_pc := GlTimers, gt_turnNumber := 1, gt_sleeping := 1\<rparr>"

lemma example_opening_run:
  "\<exists>c refs ops. gl_run example_opening (gl_start logic) = Some (second_turn c refs, ops)
     \<and> length refs = 1 \<and> exits ops = [] \<and> healthy (cl_writer c)"
proof -
  obtain sh c refs where s: "handleGameLogic game_shared (GlStart [0]) (gl_start logic)
     = GlStepped sh ((opened c refs)\<lparr>gt_pc := GlWaitInitAck\<rparr>) []" "length refs = 1"
    "healthy (cl_writer c)" using example_step_start by blast
  have 1: "handleGameLogic game_shared (GlIncoming init_ack) ((opened c refs)\<lparr>gt_pc := GlWaitInitAck\<rparr>)
    = GlStepped game_shared ((opened c refs)\<lparr>gt_pc := GlSleepFirst\<rparr>)
        (game_starts_ops game_shared ((opened c refs)\<lparr>gt_pc := GlWaitInitAck\<rparr>) [])"
    by (simp add: handleGameLogic_def gl_wait_init_ack_def example_acks game_control_def) (simp add: opened_def)
  let ?c = "snd (sendDoTurn c [])"
  have 2: "handleGameLogic game_shared GlSlept ((opened c refs)\<lparr>gt_pc := GlSleepFirst\<rparr>)
    = GlStepped game_shared ((opened ?c refs)\<lparr>gt_pc := GlTimers\<rparr>) []"
    by (simp add: handleGameLogic_def gl_sleep_first_def order_turn_def) (simp add: opened_def gl_start_def)
  have r: "handleGLDoTurnAckReception d turn_ack 1 = Inr \<lparr>dta_WinnerPlayerID = 0, dta_GameState = []\<rparr>" for d
    by (simp add: handleGLDoTurnAckReception_def example_acks)
  have 3: "\<exists>ops. handleGameLogic game_shared (GlIncoming turn_ack) ((opened ?c refs)\<lparr>gt_pc := GlTimers\<rparr>)
    = GlStepped game_shared (second_turn ?c refs) ops \<and> exits ops = []"
    by (simp add: handleGameLogic_def gameLogicGameControlTimers_def second_turn_def Let_def)
      (simp add: opened_def gl_start_def initialTotalNbPlayers_def r)
  then obtain ops where "handleGameLogic game_shared (GlIncoming turn_ack) ((opened ?c refs)\<lparr>gt_pc := GlTimers\<rparr>)
    = GlStepped game_shared (second_turn ?c refs) ops" "exits ops = []" by blast
  with s(1) 1 2 have "gl_run example_opening (gl_start logic) = Some (second_turn ?c refs,
      game_starts_ops game_shared ((opened c refs)\<lparr>gt_pc := GlWaitInitAck\<rparr>) [] @ ops)"
    by (simp add: example_opening_def)
  moreover have "healthy (cl_writer ?c)" using example_do_turn [OF s(3)] by blast
  ultimately show ?thesis using s(2) \<open>exits ops = []\<close> by (metis append_Nil exits_append exits_game_ops(1))
qed

lemma example_game_run:
  "\<exists>th ops. gl_trace (gl_start logic) example_game th ops \<and> exits ops = [0] \<and> gt_nbTurnsMax th = 2
     \<and> clients_of th = [0, 1]
     \<and> ODoTurn \<lparr>dt_MessageType = ''DO_TURN'', dt_PlayerActions = [bob_action]\<rparr> \<in> set (sent (gt_client th))"
proof -
  obtain c refs ops where o: "gl_run example_opening (gl_start logic) = Some (second_turn c refs, ops)"
    "length refs = 1" "exits ops = []" "healthy (cl_writer c)" using example_opening_run by blast
  have r: "handleGLDoTurnAckReception d turn_ack 1 = Inr \<lparr>dta_WinnerPlayerID = 0, dta_GameState = []\<rparr>" for d
    by (simp add: handleGLDoTurnAckReception_def example_acks)
  let ?t = "second_turn c refs" and ?d = "snd (sendDoTurn c [bob_action])"
  have 1: "handleGameLogic game_shared (GlPlayerAction bob_action) ?t
    = GlStepped game_shared (?t\<lparr>gt_playerActions := [bob_action]\<rparr>) []"
    by (simp add: handleGameLogic_def gameLogicGameControlTimers_def put_action_def second_turn_def
        opened_def gl_start_def)
  have 2: "handleGameLogic game_shared GlTimerSend (?t\<lparr>gt_playerActions := [bob_action]\<rparr>)
    = GlStepped game_shared (?t\<lparr>gt_client := ?d, gt_playerActions := [bob_action], gt_sleeping := 0, gt_unreset := 1\<rparr>) []"
    by (simp add: handleGameLogic_def timer_send_def order_turn_def second_turn_def opened_def gl_start_def)
  have 3: "handleGameLogic game_shared GlTimerReset
      (?t\<lparr>gt_client := ?d, gt_playerActions := [bob_action], gt_sleeping := 0, gt_unreset := 1\<rparr>)
    = GlStepped game_shared (?t\<lparr>gt_client := ?d, gt_sleeping := 0\<rparr>) []"
    by (simp add: handleGameLogic_def timer_reset_def second_turn_def opened_def gl_start_def)
  have 4: "\<exists>th ops. handleGameLogic game_shared (GlIncoming turn_ack) (?t\<lparr>gt_client := ?d, gt_sleeping := 0\<rparr>)
    = GlStepped game_shared th ops \<and> exits ops = [0] \<and> gt_nbTurnsMax th = 2 \<and> clients_of th = [0, 1]
      \<and> gt_client th = Kick ?d ''Game is finished''"
    using o(2)
    by (simp add: handleGameLogic_def gameLogicGameControlTimers_def second_turn_def Let_def)
      (simp add: opened_def gl_start_def initialTotalNbPlayers_def r gl_finish_def handleGlGameFinished_def
        gl_exit_def clients_of_def)
  obtain th' ops' where f: "handleGameLogic game_shared (GlIncoming turn_ack) (?t\<lparr>gt_client := ?d, gt_sleeping := 0\<rparr>)
    = GlStepped game_shared th' ops'" "exits ops' = [0]" "gt_nbTurnsMax th' = 2" "clients_of th' = [0, 1]"
    "gt_client th' = Kick ?d ''Game is finished''" using 4 by blast
  have "gl_run (map (Pair game_shared)
      [GlPlayerAction bob_action, GlTimerSend, GlTimerReset, GlIncoming turn_ack]) ?t = Some (th', ops')"
    by (simp add: 1 2 3 f(1) del: One_nat_def)
  note t = gl_run_trace [OF gl_run_start [OF o(1)] this, folded example_game_def]
  have "ODoTurn \<lparr>dt_MessageType = ''DO_TURN'', dt_PlayerActions = [bob_action]\<rparr> \<in> set (sent ?d)"
    using example_do_turn [OF o(4), of "[bob_action]"] by simp
  then have "ODoTurn \<lparr>dt_MessageType = ''DO_TURN'', dt_PlayerActions = [bob_action]\<rparr> \<in> set (sent (gt_client th'))"
    using sent_Kick [of ?d "''Game is finished''"] unfolding f(5) by auto
  with t o(3) f(2-4) show ?thesis by (metis append_Nil exits_append)
qed

lemma example_game_start_ok: "\<forall>x \<in> set example_game. start_ok (fst x) (snd x)"
  by (simp add: example_game_def example_opening_def start_ok_def game_shared_def bob_server_def
      small_server_def seat_def)

section \<open>Properties\<close>

text \<open>
  C15. Player identifiers: whatever permutation the random generator returns, special players get
  0, 1, ... in order of login, the players get the numbers after them, each once, and the list of
  player information is indexed by the identifiers: its entry \<open>i\<close> is that of player \<open>i\<close>.
\<close>

theorem game_init_identifiers:
  assumes "is_perm perm (length (gs_Players (gh_gs sh)))"
    and "distinct (gs_Players (gh_gs sh) @ gs_SpecialPlayers (gh_gs sh))"
    and "game_init perm sh th = (sh', th')"
  shows "map (\<lambda>c. pv_playerID (gh_pvs sh' c)) (gs_SpecialPlayers (gh_gs sh))
      = map int [0..<length (gs_SpecialPlayers (gh_gs sh))]
    \<and> mset (map (\<lambda>c. pv_playerID (gh_pvs sh' c)) (gs_Players (gh_gs sh)))
      = mset (map int [length (gs_SpecialPlayers (gh_gs sh))
          ..< length (gs_Players (gh_gs sh)) + length (gs_SpecialPlayers (gh_gs sh))])
    \<and> map (\<lambda>r. pi_PlayerID (gh_infos sh' r)) (gt_playersInfo th') = map int [0..<length (gt_playersInfo th')]
    \<and> int (length (gt_playersInfo th')) = initialTotalNbPlayers th'"
proof -
  let ?ps = "gs_Players (gh_gs sh)" and ?sps = "gs_SpecialPlayers (gh_gs sh)"
  note g = game_init_ids [OF assms]
  have "mset (map (\<lambda>c. pv_playerID (gh_pvs sh' c)) ?ps)
      = image_mset (\<lambda>k. int k + int (length ?sps)) (mset [0..<length ?ps])"
    using assms(1) by (simp only: g(2) mset_map is_perm_def)
  also have "\<dots> = mset (map int [length ?sps..<length ?ps + length ?sps])"
    by (simp only: mset_map [symmetric] shifted_range)
  finally have p: "mset (map (\<lambda>c. pv_playerID (gh_pvs sh' c)) ?ps)
      = mset (map int [length ?sps..<length ?ps + length ?sps])" .
  have "length (gt_playersInfo th') = length (?ps @ ?sps)"
    using arg_cong [OF g(4), of size] by simp
  with g(1,3) p game_init_fields(2) [OF assms(3)] show ?thesis by simp
qed

theorem game_init_identifiers_witness:
  "\<exists>sh' th'. game_init [1, 0] (game_shared\<lparr>gh_gs := bob_server\<lparr>gs_Players := [0, 7]\<rparr>\<rparr>) (gl_start logic) = (sh', th')
    \<and> mset (map (\<lambda>c. pv_playerID (gh_pvs sh' c)) [0, 7]) = {#0, 1#}"
proof -
  let ?sh = "game_shared\<lparr>gh_gs := bob_server\<lparr>gs_Players := [0, 7]\<rparr>\<rparr>"
  obtain sh' th' where g: "game_init [1, 0] ?sh (gl_start logic) = (sh', th')" by fastforce
  have l: "gs_Players (gh_gs ?sh) = [0, 7]" "gs_SpecialPlayers (gh_gs ?sh) = []"
    by (simp_all add: bob_server_def small_server_def seat_def)
  have "is_perm [1, 0] (length (gs_Players (gh_gs ?sh)))"
    unfolding l by (simp add: is_perm_def upt_rec)
  from game_init_identifiers [OF this _ g]
  have "mset (map (\<lambda>c. pv_playerID (gh_pvs sh' c)) [0, 7]) = {#0, 1#}"
    unfolding l by simp
  then show ?thesis using g by blast
qed

text \<open>
  C30. The actions collected in a game with timers: at most one per player, and for each player
  the last one it sent since the collection was emptied.
\<close>

theorem put_action_collects:
  "distinct (map pa_PlayerID (fold put_action as []))
    \<and> action_board (fold put_action as []) k = latest pa_PlayerID as k None"
  using pending.ok_fold [OF pending.ok_empty, of as] pending.view_collected [of as k]
  by (simp add: one_each_def)

text \<open>
  With the events of \<open>handleGameLogic\<close> one after the other, every DO_TURN of a game with timers holds at
  most one action per player.  \<open>Action_Race\<close> has what happens when a delayed goroutine encodes the slice
  while the loop changes it.
\<close>

lemma gl_one_action_each:
  assumes "gl_trace (gl_start c0) es th ops" and "sent c0 = [login_ack]"
    and "\<forall>x \<in> set es. \<forall>perm. snd x = GlStart perm \<longrightarrow> \<not> gs_Fast (gh_gs (fst x))"
    and "ODoTurn m \<in> set (sent (gt_client th))"
  shows "distinct (map pa_PlayerID (dt_PlayerActions m))"
proof -
  have "timers_inv th"
    using assms(1,3)
  proof (induction "gl_start c0" es th ops rule: gl_trace.induct)
    case gl_nil
    then show ?case by (simp add: timers_inv_def gl_start_def do_turns_ok_def assms(2) login_ack_def)
  next
    case (gl_snoc es th ops sh e sh' th' ops')
    then show ?case using timers_inv_step [of sh e th sh' th' ops'] by auto
  qed
  with assms(4) show ?thesis by (simp add: timers_inv_def do_turns_ok_def one_each_def)
qed

text \<open>
  C5. What the game logic goroutine sends to each client is always in protocol order: one
  GAME_STARTS, then the turns 0, 1, 2, ... without gap or repetition, then one GAME_ENDS.  The
  main goroutine is told to exit at most once; it is told that the game went well (0) exactly
  when every client has been sent GAME_ENDS, which happens after exactly \<open>nbTurnsMax - 1\<close> turns.
\<close>

theorem gl_drives_clients:
  assumes "gl_trace (gl_start c0) es th ops" and "\<forall>x \<in> set es. start_ok (fst x) (snd x)"
  shows "phase_after (deliveries c ops) \<noteq> None
    \<and> (exits ops = [] \<or> exits ops = [0] \<or> exits ops = [1])
    \<and> (exits ops = [0] \<longrightarrow> c \<in> set (clients_of th) \<longrightarrow>
         phase_after (deliveries c ops) = Some Over
         \<and> (1 \<le> gt_nbTurnsMax th \<longrightarrow>
              turn_numbers (deliveries c ops) = map int [0..<nat (gt_nbTurnsMax th - 1)]))
    \<and> (exits ops \<noteq> [0] \<longrightarrow> phase_after (deliveries c ops) \<noteq> Some Over)"
  using gl_inv_trace [OF assms(1) refl assms(2)]
  by (auto simp: gl_inv_def playing_def over_def split: gl_pc.splits if_splits)

theorem gl_drives_clients_witness:
  "\<exists>th ops. gl_trace (gl_start logic) example_game th ops
    \<and> phase_after (deliveries 1 ops) = Some Over \<and> turn_numbers (deliveries 1 ops) = [0]"
proof -
  obtain th ops where t: "gl_trace (gl_start logic) example_game th ops" "exits ops = [0]"
    "gt_nbTurnsMax th = 2" "clients_of th = [0, 1]" using example_game_run by blast
  from gl_drives_clients [OF t(1) example_game_start_ok, of 1] t show ?thesis by auto
qed

text \<open>
  The goroutine of the game logic never ends the program by a run-time panic: a winner that
  \<open>readDoTurnAckMessage\<close> accepts is always an index of the list of player information.
\<close>

lemma gl_never_panics:
  assumes "gl_trace (gl_start c0) es th ops" and "\<forall>x \<in> set es. start_ok (fst x) (snd x)"
  shows "handleGameLogic sh e th \<noteq> GlPanicked p"
  by (rule gl_step_no_panic [OF gl_inv_trace [OF assms(1) refl assms(2)]])

definition fast_clear :: "gl_thread \<Rightarrow> bool" where
  "fast_clear th \<longleftrightarrow> (gt_pc th = GlFastAck \<longrightarrow> gt_playerActions th = [])"

lemma fast_clear_step:
  assumes "handleGameLogic sh e th = GlStepped sh' th' ops'" "fast_clear th"
  shows "fast_clear th'"
proof -
  have i: "gt_pc th1 = gt_pc th" if "game_init perm sh th = (sh1, th1)" for perm sh1 th1
    using game_init_fields(4) [OF that] .
  show ?thesis
    using assms
    by (cases "gt_pc th"; cases e)
      (auto simp: handleGameLogic_def timer_send_def timer_reset_def gl_wait_start_def gl_fail_def
        gl_exit_def gl_terminate_def gl_wait_init_ack_def gl_sleep_first_def gl_finish_def
        gameLogicGameControlTimers_def fast_await_ack_def fast_await_actions_def Let_def
        waitGameLogicFinition_def order_turn_def game_control_def fast_wait_def fast_clear_def
        dest!: i split: nat.splits option.splits sum.splits prod.splits if_splits)
qed

lemma fast_clear_trace: "gl_trace th0 es th ops \<Longrightarrow> fast_clear th0 \<Longrightarrow> fast_clear th"
  by (induction rule: gl_trace.induct) (auto dest: fast_clear_step)

lemma fast_ack_waiting:
  assumes "handleGameLogic sh (GlIncoming msg) th = GlStepped sh1 th1 ops1"
    and "gt_pc th = GlFastAck" "gt_pc th1 = GlFastActions"
  shows "waiting th1 = fst ` set (gt_connectedPlayers th)" "gt_connectedPlayers th1 = gt_connectedPlayers th"
    "gt_playerActions th1 = gt_playerActions th" "gt_client th1 = gt_client th"
proof -
  let ?r = "map (\<lambda>(p, _). (p, False)) (gt_connectedPlayers th)"
  have th1: "th1 = th\<lparr>gt_turnNumber := gt_turnNumber th + 1, gt_actionReceived := ?r, gt_pc := GlFastActions\<rparr>"
    using assms
    by (auto simp: handleGameLogic_def fast_await_ack_def Let_def gl_exit_def gl_finish_def fast_wait_def
        split: sum.splits if_splits)
  have "map_of (map (\<lambda>(p, _). (p, False)) xs) k = (if k \<in> fst ` set xs then Some False else None)"
    for k and xs :: "(int \<times> int) list" by (induction xs) auto
  then show "waiting th1 = fst ` set (gt_connectedPlayers th)" by (auto simp: waiting_def th1)
  show "gt_connectedPlayers th1 = gt_connectedPlayers th" "gt_playerActions th1 = gt_playerActions th"
    "gt_client th1 = gt_client th" by (simp_all add: th1)
qed

text \<open>
  C9. One round of a game in fast mode, in any order of events: after a TURN, the next DO_TURN is
  sent exactly when every player that was connected at the TURN has acted or disconnected, not
  earlier and not later; it holds the actions received in the round from players that were still
  connected, in order.
\<close>

theorem fast_round:
  assumes "gl_trace (gl_start c0) es0 th ops0" and "gt_pc th = GlFastAck"
    and "handleGameLogic sh (GlIncoming msg) th = GlStepped sh1 th1 ops1" and "gt_pc th1 = GlFastActions"
    and "gl_trace th1 es th' ops" and "\<forall>x \<in> set es. heard (snd x) \<noteq> None"
  shows "(gt_pc th' = GlFastAck \<longleftrightarrow>
        fst ` set (gt_connectedPlayers th) \<subseteq> set (List.map_filter heard (map snd es)))
    \<and> (gt_pc th' = GlFastAck \<longrightarrow> gt_client th'
        = snd (sendDoTurn (gt_client th) (collect (gt_connectedPlayers th) (map snd es))))
    \<and> (gt_pc th' \<noteq> GlFastAck \<longrightarrow> gt_client th' = gt_client th)"
proof -
  have "fast_clear th" by (rule fast_clear_trace [OF assms(1)]) (simp add: fast_clear_def gl_start_def)
  then have clear: "gt_playerActions th = []" using assms(2) by (simp add: fast_clear_def)
  have inv: "fast_inv th1" using fast_inv_step [OF assms(3)] fast_inv_trace [OF assms(1) fast_inv_start] by blast
  note a = fast_ack_waiting [OF assms(3,2,4)]
  have "\<not> areAllValuesTrue (gt_actionReceived th1)"
    using assms(2-4) by (auto simp: handleGameLogic_def fast_await_ack_def Let_def gl_exit_def gl_finish_def
        fast_wait_def split: sum.splits if_splits)
  then have w: "waiting th1 \<noteq> {}" using areAllValuesTrue_waiting inv by (simp add: fast_inv_def)
  have "collecting th1 (map snd es) th'"
    using collecting_trace [OF assms(5,4) _ w assms(6)] inv by (simp add: fast_inv_def)
  then show ?thesis
    unfolding collecting_def Let_def a clear by auto
qed

definition fast_shared :: gl_shared where
  "fast_shared = game_shared\<lparr>gh_gs := (gh_gs game_shared)\<lparr>gs_Fast := True\<rparr>\<rparr>"

definition fast_opened :: "Client \<Rightarrow> pref list \<Rightarrow> gl_thread" where
  "fast_opened c refs = (opened c refs)\<lparr>gt_fast := True, gt_connectedPlayers := [(0, 1)], gt_pc := GlFastAck\<rparr>"

lemma example_fast_run:
  "\<exists>c refs ops. gl_run [(fast_shared, GlStart [0]), (fast_shared, GlIncoming init_ack)] (gl_start logic)
     = Some (fast_opened c refs, ops)"
proof -
  obtain c where c: "sendDoInit logic 1 0 2 = (None, c)" using example_do_init by blast
  obtain sh th where g: "game_init [0] fast_shared (gl_start logic) = (sh, th)" by fastforce
  let ?refs = "gt_playersInfo th"
  have th: "th = (opened logic ?refs)\<lparr>gt_fast := True\<rparr>"
    using g by (auto simp: game_init_def Let_def opened_def gl_start_def game_shared_def bob_server_def
        fast_shared_def small_server_def seat_def split: prod.splits)
  have f: "gt_client th = logic" "gt_initialNbPlayers th = 1" "gt_initialNbSpecialPlayers th = 0"
    "gt_nbTurnsMax th = 2" by (subst th, simp add: opened_def gl_start_def)+
  have pc: "gt_pc (gl_start logic) = GlWaitStart" by (simp add: gl_start_def)
  have 1: "handleGameLogic fast_shared (GlStart [0]) (gl_start logic)
      = GlStepped sh (th\<lparr>gt_client := c, gt_pc := GlWaitInitAck\<rparr>) []"
    by (simp add: handleGameLogic_def gl_wait_start_def pc g f c)
  have t1: "th\<lparr>gt_client := c, gt_pc := GlWaitInitAck\<rparr>
      = (opened c ?refs)\<lparr>gt_fast := True, gt_pc := GlWaitInitAck\<rparr>"
    by (subst th) (simp add: opened_def gl_start_def)
  have 2: "handleGameLogic fast_shared (GlIncoming init_ack) ((opened c ?refs)\<lparr>gt_fast := True, gt_pc := GlWaitInitAck\<rparr>)
      = GlStepped fast_shared (fast_opened (snd (sendDoTurn c [])) ?refs)
          (game_starts_ops fast_shared ((opened c ?refs)\<lparr>gt_fast := True, gt_pc := GlWaitInitAck\<rparr>) [])"
    by (simp add: handleGameLogic_def gl_wait_init_ack_def example_acks game_control_def order_turn_def)
      (simp add: fast_opened_def opened_def gl_start_def initialTotalNbPlayers_def)
  have "gl_run [(fast_shared, GlStart [0]), (fast_shared, GlIncoming init_ack)] (gl_start logic)
     = Some (fast_opened (snd (sendDoTurn c [])) ?refs,
        game_starts_ops fast_shared ((opened c ?refs)\<lparr>gt_fast := True, gt_pc := GlWaitInitAck\<rparr>) [])"
    by (simp add: 1 t1 2)
  then show ?thesis by blast
qed

theorem fast_round_witness:
  "\<exists>th th1 th' ops1. gt_connectedPlayers th = [(0, 1)]
    \<and> handleGameLogic fast_shared (GlIncoming turn_ack) th = GlStepped fast_shared th1 ops1
    \<and> gl_trace th1 [(fast_shared, GlPlayerAction bob_action)] th' [] \<and> gt_pc th' = GlFastAck
    \<and> gt_client th' = snd (sendDoTurn (gt_client th) [bob_action])"
proof -
  obtain c refs ops where r: "gl_run [(fast_shared, GlStart [0]), (fast_shared, GlIncoming init_ack)]
      (gl_start logic) = Some (fast_opened c refs, ops)" using example_fast_run by blast
  let ?th = "fast_opened c refs"
  have ack: "handleGLDoTurnAckReception d turn_ack 1 = Inr \<lparr>dta_WinnerPlayerID = 0, dta_GameState = []\<rparr>" for d
    by (simp add: handleGLDoTurnAckReception_def example_acks)
  have t: "gt_pc ?th = GlFastAck" "gt_connectedPlayers ?th = [(0, 1)]" "gt_client ?th = c"
    "initialTotalNbPlayers ?th = 1" "gt_turnNumber ?th = 0" "gt_nbTurnsMax ?th = 2"
    by (simp_all add: fast_opened_def opened_def gl_start_def initialTotalNbPlayers_def)
  let ?th1 = "?th\<lparr>gt_turnNumber := 1, gt_actionReceived := [(0, False)], gt_pc := GlFastActions\<rparr>"
  obtain ops1 where s: "handleGameLogic fast_shared (GlIncoming turn_ack) ?th = GlStepped fast_shared ?th1 ops1"
    by (simp add: handleGameLogic_def fast_await_ack_def t ack Let_def fast_wait_def areAllValuesTrue_def)
  obtain th' where a: "handleGameLogic fast_shared (GlPlayerAction bob_action) ?th1 = GlStepped fast_shared th' []"
    by (simp add: handleGameLogic_def fast_await_actions_def)
  have tr: "gl_trace ?th1 [(fast_shared, GlPlayerAction bob_action)] th' []"
    using gl_snoc [OF gl_nil a] by simp
  note p = fast_round [OF gl_run_start [OF r] t(1) s _ tr]
  have "gt_pc th' = GlFastAck \<and> gt_client th' = snd (sendDoTurn c [bob_action])"
    using p unfolding t(2,3) by (simp add: bob_action_def List.map_filter_def)
  then show ?thesis
    by (intro exI [of _ ?th] exI [of _ ?th1] exI [of _ th'] exI [of _ ops1]) (use t(2,3) s tr in simp)
qed

text \<open>
  C40. In a game with timers an action can be lost: the goroutine that orders a turn sends the
  collected actions and then empties the collection in a second step, so an action that arrives
  between the two is in no DO_TURN.
\<close>

theorem timer_loses_action:
  assumes "gt_pc th = GlTimers" and "gt_sleeping th = Suc n"
  shows "\<exists>th1 th2 th3. handleGameLogic sh GlTimerSend th = GlStepped sh th1 []
    \<and> handleGameLogic sh (GlPlayerAction a) th1 = GlStepped sh th2 []
    \<and> a \<in> set (gt_playerActions th2)
    \<and> handleGameLogic sh GlTimerReset th2 = GlStepped sh th3 []
    \<and> gt_client th3 = snd (sendDoTurn (gt_client th) (gt_playerActions th))
    \<and> gt_playerActions th3 = []"
proof -
  have "a \<in> set (put_action a acts)" for acts
  proof (cases "find_index (\<lambda>x. pa_PlayerID x = pa_PlayerID a) acts")
    case (Some i)
    then have "a \<in># mset (put_action a acts)" using put_action_mset by fastforce
    then show ?thesis by simp
  qed (simp add: put_action_def)
  then show ?thesis
    using assms
    by (simp add: handleGameLogic_def timer_send_def timer_reset_def order_turn_def
        gameLogicGameControlTimers_def)
qed

theorem timer_loses_action_witness:
  "\<exists>th1 th2 th3. handleGameLogic game_shared GlTimerSend (second_turn logic [0]) = GlStepped game_shared th1 []
    \<and> handleGameLogic game_shared (GlPlayerAction bob_action) th1 = GlStepped game_shared th2 []
    \<and> bob_action \<in> set (gt_playerActions th2)
    \<and> handleGameLogic game_shared GlTimerReset th2 = GlStepped game_shared th3 []
    \<and> gt_client th3 = snd (sendDoTurn logic []) \<and> gt_playerActions th3 = []"
proof -
  have s: "gt_pc (second_turn logic [0]) = GlTimers" "gt_sleeping (second_turn logic [0]) = Suc 0"
    "gt_client (second_turn logic [0]) = logic" "gt_playerActions (second_turn logic [0]) = []"
    by (simp_all add: second_turn_def opened_def gl_start_def)
  show ?thesis using timer_loses_action [OF s(1,2), of game_shared bob_action] unfolding s .
qed

end
