(* ===== verification/System.thy ===== *)
theory System
  imports Game_Properties
begin

text \<open>
  The goroutines together: the game logic goroutine, the goroutines of the players and
  visualizations, and the channels between them with the capacities of src/control.go
  (\<open>gameStarts\<close> unbuffered, \<open>newTurn\<close> 100, \<open>gameEnds\<close>, \<open>playerAction\<close> and \<open>playerDisconnected\<close> 1).
  Every goroutine performs the sends of a step one after the other and does nothing else before
  they are done; a send on a full channel, or on the unbuffered one while nobody receives, waits.
  What a step writes on the connection of its client is written when the step is taken, also the
  buffered turn that the code sends after it has handed over an action.
  The shared state is found as the other goroutines may have left it.  Messages of the clients and of
  the game logic program, the start signal, the timers and the order to terminate come from outside and
  may arrive at any time.
\<close>

section \<open>The composed system\<close>

record sys =
  sy_gl :: gl_thread
  sy_todo :: "chan_op list"
  sy_turns :: "cid \<Rightarrow> MessageTurn list"
  sy_ends :: "cid \<Rightarrow> MessageGameEnds list"
  sy_actions :: "MessageDoTurnPlayerAction list"
  sy_gone :: "int list"
  sy_pvs :: "cid \<Rightarrow> pv_thread"
  sy_owed :: "cid \<Rightarrow> chan_op list"
  sy_seen :: "cid \<Rightarrow> pv_event list"
  sy_acts :: "cid \<Rightarrow> chan_op list"
  sy_done :: "chan_op list"

text \<open>
  \<open>sy_todo\<close> and \<open>sy_owed\<close> are the sends a goroutine is still at; \<open>sy_turns\<close>, \<open>sy_ends\<close>, \<open>sy_actions\<close> and
  \<open>sy_gone\<close> are the contents of the buffered channels; \<open>sy_seen\<close>, \<open>sy_acts\<close> and \<open>sy_done\<close> are histories:
  what each goroutine received and sent.
\<close>

definition sys_init :: "Client \<Rightarrow> (cid \<Rightarrow> Client) \<Rightarrow> sys" where
  "sys_init gl0 clients = \<lparr>sy_gl = gl_start gl0, sy_todo = [], sy_turns = (\<lambda>_. []), sy_ends = (\<lambda>_. []),
     sy_actions = [], sy_gone = [], sy_pvs = (\<lambda>c. pv_start (clients c)), sy_owed = (\<lambda>_. []), sy_seen = (\<lambda>_. []), sy_acts = (\<lambda>_. []), sy_done = []\<rparr>"

definition newTurn_capacity :: nat where "newTurn_capacity = 100"
definition gameEnds_capacity :: nat where "gameEnds_capacity = 1"
definition playerAction_capacity :: nat where "playerAction_capacity = 1"
definition playerDisconnected_capacity :: nat where "playerDisconnected_capacity = 1"

definition is_timer :: "gl_event \<Rightarrow> bool" where
  "is_timer e \<longleftrightarrow> e = GlTimerSend \<or> e = GlTimerReset"

definition pv_moves :: "cid \<Rightarrow> pv_event \<Rightarrow> pv_thread \<Rightarrow> chan_op list \<Rightarrow> sys \<Rightarrow> sys" where
  "pv_moves c e th ops s = s\<lparr>sy_pvs := (sy_pvs s)(c := th), sy_seen := (sy_seen s)(c := sy_seen s c @ [e]),
     sy_acts := (sy_acts s)(c := sy_acts s c @ ops), sy_owed := (sy_owed s)(c := ops)\<rparr>"

text \<open>The game logic goroutine receives an event: one from a player is taken out of its channel.\<close>

fun gl_receives :: "gl_event \<Rightarrow> sys \<Rightarrow> sys option" where
  "gl_receives (GlPlayerAction a) s = (case sy_actions s of
      [] \<Rightarrow> None
    | a' # rest \<Rightarrow> if a = a' then Some (s\<lparr>sy_actions := rest\<rparr>) else None)"
| "gl_receives (GlPlayerDisconnected i) s = (case sy_gone s of
      [] \<Rightarrow> None
    | i' # rest \<Rightarrow> if i = i' then Some (s\<lparr>sy_gone := rest\<rparr>) else None)"
| "gl_receives e s = Some s"

text \<open>
  The moves of the system.  The first argument says which clients are players; the label says which
  goroutine moves, with the shared state it finds and the one it leaves.
\<close>

datatype move =
    GlMove gl_event gl_shared gl_shared
  | PvMove cid pv_event pv_shared pv_shared
  | SendMove

inductive sys_move :: "(cid \<Rightarrow> bool) \<Rightarrow> move \<Rightarrow> sys \<Rightarrow> sys \<Rightarrow> bool" for player :: "cid \<Rightarrow> bool" where
  sys_gl_event: "sy_todo s = [] \<or> is_timer e \<Longrightarrow> start_ok gsh e \<Longrightarrow> gl_receives e s = Some s1
    \<Longrightarrow> handleGameLogic gsh e (sy_gl s) = GlStepped gsh' th ops
    \<Longrightarrow> sys_move player (GlMove e gsh gsh') s (s1\<lparr>sy_gl := th, sy_todo := sy_todo s @ ops\<rparr>)"
| sys_gl_exit: "sy_todo s = SendOnExit n # rest
    \<Longrightarrow> sys_move player SendMove s (s\<lparr>sy_todo := rest, sy_done := sy_done s @ [SendOnExit n]\<rparr>)"
| sys_gl_starts: "sy_todo s = SendGameStarts c m # rest \<Longrightarrow> sy_owed s c = [] \<Longrightarrow> pv_isPlayer (sh_pv sh) = player c
    \<Longrightarrow> pv_step sh (PvGameStarts m) (sy_pvs s c) = PvStepped sh' th ops
    \<Longrightarrow> sys_move player (PvMove c (PvGameStarts m) sh sh') s (pv_moves c (PvGameStarts m) th ops
          (s\<lparr>sy_todo := rest, sy_done := sy_done s @ [SendGameStarts c m]\<rparr>))"
| sys_gl_turn: "sy_todo s = SendNewTurn c t # rest \<Longrightarrow> length (sy_turns s c) < newTurn_capacity
    \<Longrightarrow> sys_move player SendMove s (s\<lparr>sy_todo := rest, sy_done := sy_done s @ [SendNewTurn c t],
          sy_turns := (sy_turns s)(c := sy_turns s c @ [t])\<rparr>)"
| sys_gl_ends: "sy_todo s = SendGameEnds c g # rest \<Longrightarrow> length (sy_ends s c) < gameEnds_capacity
    \<Longrightarrow> sys_move player SendMove s (s\<lparr>sy_todo := rest, sy_done := sy_done s @ [SendGameEnds c g],
          sy_ends := (sy_ends s)(c := sy_ends s c @ [g])\<rparr>)"
| sys_pv_turn: "sy_turns s c = t # rest \<Longrightarrow> sy_owed s c = [] \<Longrightarrow> pv_isPlayer (sh_pv sh) = player c
    \<Longrightarrow> pv_step sh (PvNewTurn t) (sy_pvs s c) = PvStepped sh' th ops
    \<Longrightarrow> sys_move player (PvMove c (PvNewTurn t) sh sh') s (pv_moves c (PvNewTurn t) th ops (s\<lparr>sy_turns := (sy_turns s)(c := rest)\<rparr>))"
| sys_pv_ends: "sy_ends s c = g # rest \<Longrightarrow> sy_owed s c = [] \<Longrightarrow> pv_isPlayer (sh_pv sh) = player c
    \<Longrightarrow> pv_step sh (PvGameEnds g) (sy_pvs s c) = PvStepped sh' th ops
    \<Longrightarrow> sys_move player (PvMove c (PvGameEnds g) sh sh') s (pv_moves c (PvGameEnds g) th ops (s\<lparr>sy_ends := (sy_ends s)(c := rest)\<rparr>))"
| sys_pv_incoming: "sy_owed s c = [] \<Longrightarrow> pv_isPlayer (sh_pv sh) = player c
    \<Longrightarrow> pv_step sh (PvIncoming m) (sy_pvs s c) = PvStepped sh' th ops
    \<Longrightarrow> sys_move player (PvMove c (PvIncoming m) sh sh') s (pv_moves c (PvIncoming m) th ops s)"
| sys_pv_terminate: "sy_owed s c = [] \<Longrightarrow> pv_isPlayer (sh_pv sh) = player c
    \<Longrightarrow> pv_step sh (PvCanTerminate r) (sy_pvs s c) = PvStepped sh' th ops
    \<Longrightarrow> sys_move player (PvMove c (PvCanTerminate r) sh sh') s (pv_moves c (PvCanTerminate r) th ops s)"
| sys_pv_action: "sy_owed s c = SendPlayerAction gl a # rest \<Longrightarrow> length (sy_actions s) < playerAction_capacity
    \<Longrightarrow> sys_move player SendMove s (s\<lparr>sy_owed := (sy_owed s)(c := rest), sy_actions := sy_actions s @ [a]\<rparr>)"
| sys_pv_gone: "sy_owed s c = SendPlayerDisconnected gl i # rest \<Longrightarrow> length (sy_gone s) < playerDisconnected_capacity
    \<Longrightarrow> sys_move player SendMove s (s\<lparr>sy_owed := (sy_owed s)(c := rest), sy_gone := sy_gone s @ [i]\<rparr>)"

definition sys_step :: "(cid \<Rightarrow> bool) \<Rightarrow> sys \<Rightarrow> sys \<Rightarrow> bool" where
  "sys_step player s s' \<longleftrightarrow> (\<exists>mv. sys_move player mv s s')"

inductive sys_reachable :: "(cid \<Rightarrow> bool) \<Rightarrow> Client \<Rightarrow> (cid \<Rightarrow> Client) \<Rightarrow> sys \<Rightarrow> bool"
  for player gl0 clients where
  reach_init: "sys_reachable player gl0 clients (sys_init gl0 clients)"
| reach_step: "sys_reachable player gl0 clients s \<Longrightarrow> sys_step player s s'
    \<Longrightarrow> sys_reachable player gl0 clients s'"

section \<open>Lemmas: phases\<close>

definition turns_in :: "pv_event list \<Rightarrow> MessageTurn list" where
  "turns_in es = concat (map (\<lambda>e. case e of PvNewTurn t \<Rightarrow> [t] | _ \<Rightarrow> []) es)"

definition starts_in :: "pv_event list \<Rightarrow> MessageGameStarts list" where
  "starts_in es = concat (map (\<lambda>e. case e of PvGameStarts m \<Rightarrow> [m] | _ \<Rightarrow> []) es)"

definition ends_in :: "pv_event list \<Rightarrow> MessageGameEnds list" where
  "ends_in es = concat (map (\<lambda>e. case e of PvGameEnds g \<Rightarrow> [g] | _ \<Rightarrow> []) es)"

lemma channel_simps [simp]:
  "turns_in [] = []" "starts_in [] = []" "ends_in [] = []"
  "turns_in (es @ es') = turns_in es @ turns_in es'" "starts_in (es @ es') = starts_in es @ starts_in es'"
  "ends_in (es @ es') = ends_in es @ ends_in es'"
  "turns_in [e] = (case e of PvNewTurn t \<Rightarrow> [t] | _ \<Rightarrow> [])"
  "starts_in [e] = (case e of PvGameStarts m \<Rightarrow> [m] | _ \<Rightarrow> [])"
  "ends_in [e] = (case e of PvGameEnds g \<Rightarrow> [g] | _ \<Rightarrow> [])"
  by (simp_all add: turns_in_def starts_in_def ends_in_def split: pv_event.split)

text \<open>The phase is determined by what was received on each of the three channels.\<close>

definition phase_counts :: "pv_phase \<Rightarrow> pv_event list \<Rightarrow> bool" where
  "phase_counts p es \<longleftrightarrow> map turn_TurnNumber (turns_in es) = map int [0..<length (turns_in es)]
     \<and> (case p of
          Before \<Rightarrow> starts_in es = [] \<and> turns_in es = [] \<and> ends_in es = []
        | During n \<Rightarrow> length (starts_in es) = 1 \<and> n = int (length (turns_in es)) \<and> ends_in es = []
        | Over \<Rightarrow> length (starts_in es) = 1 \<and> length (ends_in es) = 1)"

lemma phase_after_counts: "phase_after es = Some p \<Longrightarrow> phase_counts p es"
proof (induction es arbitrary: p rule: rev_induct)
  case Nil
  then show ?case by (auto simp: phase_counts_def)
next
  case (snoc e es)
  from snoc.prems obtain q where q: "phase_after es = Some q" "phase_next q e = Some p"
    by (cases "phase_after es") auto
  from snoc.IH [OF q(1)] q(2) show ?case
    by (cases e; cases q) (auto simp: phase_counts_def split: if_splits)
qed

lemma phase_after_prefix: "phase_after (es @ es') \<noteq> None \<Longrightarrow> phase_after es \<noteq> None"
proof (induction es' rule: rev_induct)
  case (snoc e es')
  then show ?case by (cases "phase_after (es @ es')") (simp_all flip: append_assoc)
qed simp

section \<open>The invariant of the system\<close>

lemma gl_inv_phase: "gl_inv th ops \<Longrightarrow> phase_after (deliveries c ops) \<noteq> None"
  by (auto simp: gl_inv_def playing_def over_def split: gl_pc.splits if_splits)

text \<open>
  The channels of one client: what it has received on each of them, followed by what is still
  buffered, is what the game logic goroutine has sent on it.
\<close>

definition channels_ok :: "sys \<Rightarrow> cid \<Rightarrow> bool" where
  "channels_ok s c \<longleftrightarrow> (let D = deliveries c (sy_done s); S = sy_seen s c in
     phase_after S \<noteq> None \<and> starts_in S = starts_in D \<and> turns_in S @ sy_turns s c = turns_in D
     \<and> ends_in S @ sy_ends s c = ends_in D)"

definition goroutine_ok :: "(cid \<Rightarrow> bool) \<Rightarrow> (cid \<Rightarrow> Client) \<Rightarrow> sys \<Rightarrow> cid \<Rightarrow> bool" where
  "goroutine_ok player clients s c \<longleftrightarrow> (\<exists>es. pv_trace (pv_start (clients c)) es (sy_pvs s c) (sy_acts s c)
     \<and> map snd es = sy_seen s c \<and> (\<forall>x \<in> set es. pv_isPlayer (sh_pv (fst x)) = player c))"

definition sys_inv :: "(cid \<Rightarrow> bool) \<Rightarrow> (cid \<Rightarrow> Client) \<Rightarrow> sys \<Rightarrow> bool" where
  "sys_inv player clients s \<longleftrightarrow> gl_inv (sy_gl s) (sy_done s @ sy_todo s)
     \<and> (\<forall>c. channels_ok s c \<and> goroutine_ok player clients s c)"

text \<open>Clients that have just been accepted.\<close>

definition logged_in :: "(cid \<Rightarrow> Client) \<Rightarrow> bool" where
  "logged_in clients \<longleftrightarrow> (\<forall>c. cl_state (clients c) = CLIENT_LOGGED \<and> sent (clients c) = [login_ack])"

lemma sys_inv_init: "sys_inv player clients (sys_init gl0 clients)"
proof -
  have "goroutine_ok player clients (sys_init gl0 clients) c" for c
    unfolding goroutine_ok_def by (rule exI [of _ "[]"]) (simp add: sys_init_def pv_nil)
  then show ?thesis
    by (simp add: sys_inv_def channels_ok_def sys_init_def gl_inv_def gl_start_def)
qed

lemma goroutine_history:
  assumes "goroutine_ok player clients s c" "channels_ok s c" "logged_in clients"
  obtains es where "pv_history (player c) es (sy_pvs s c) (sy_acts s c)" "map snd es = sy_seen s c"
  using assms unfolding goroutine_ok_def channels_ok_def logged_in_def pv_history_defs Let_def by metis

lemma goroutine_phase:
  assumes "goroutine_ok player clients s c" "channels_ok s c" "logged_in clients" "pt_pc (sy_pvs s c) = PvLoop"
  obtains p where "phase_after (sy_seen s c) = Some p" "p \<noteq> Over"
proof -
  obtain es where h: "pv_history (player c) es (sy_pvs s c) (sy_acts s c)" "map snd es = sy_seen s c"
    by (rule goroutine_history [OF assms(1-3)])
  from h(1) show ?thesis
  proof (cases rule: pv_history_cases)
    case (loop p)
    then have "p \<noteq> Over" by (auto simp: pv_in_loop_def Let_def)
    with loop(2) h(2) that show ?thesis by simp
  qed (use assms(4) in simp)
qed

lemma goroutine_moves:
  assumes "goroutine_ok player clients s c" "pv_isPlayer (sh_pv sh) = player c"
    "pv_step sh e (sy_pvs s c) = PvStepped sh' th ops"
  shows "goroutine_ok player clients (pv_moves c e th ops s) d = (if d = c then True else goroutine_ok player clients s d)"
proof -
  from assms(1) obtain es where es: "pv_trace (pv_start (clients c)) es (sy_pvs s c) (sy_acts s c)"
    "map snd es = sy_seen s c" "\<forall>x \<in> set es. pv_isPlayer (sh_pv (fst x)) = player c"
    by (auto simp: goroutine_ok_def)
  have "goroutine_ok player clients (pv_moves c e th ops s) c"
    unfolding goroutine_ok_def
    by (rule exI [of _ "es @ [(sh, e)]"])
      (use pv_snoc [OF es(1) assms(3)] es(2,3) assms(2) in \<open>auto simp: pv_moves_def\<close>)
  then show ?thesis by (auto simp: goroutine_ok_def pv_moves_def)
qed

lemma goroutine_ok_queues [simp]:
  "goroutine_ok player clients (s\<lparr>sy_todo := a\<rparr>) = goroutine_ok player clients s"
  "goroutine_ok player clients (s\<lparr>sy_done := b\<rparr>) = goroutine_ok player clients s"
  "goroutine_ok player clients (s\<lparr>sy_turns := q\<rparr>) = goroutine_ok player clients s"
  "goroutine_ok player clients (s\<lparr>sy_ends := r\<rparr>) = goroutine_ok player clients s"
  "goroutine_ok player clients (s\<lparr>sy_gl := g\<rparr>) = goroutine_ok player clients s"
  by (simp_all add: goroutine_ok_def fun_eq_iff)

text \<open>Only the loop receives what the game logic goroutine sends.\<close>

lemma pv_step_loop:
  "pv_step sh e th = PvStepped sh' th' ops \<Longrightarrow> e = PvGameStarts m \<or> e = PvNewTurn t \<or> e = PvGameEnds g
     \<Longrightarrow> pt_pc th = PvLoop"
  by (cases "pt_pc th") (auto simp: pv_step_def waitPlayerOrVisuFinition_def)

text \<open>What a client receives next is what its phase expects.\<close>

lemma next_turn_in_phase:
  assumes "channels_ok s c" "phase_after (deliveries c (sy_done s)) \<noteq> None" "sy_turns s c = t # q"
    "phase_after (sy_seen s c) = Some p" "p \<noteq> Over"
  shows "phase_after (sy_seen s c @ [PvNewTurn t]) \<noteq> None"
proof -
  let ?D = "deliveries c (sy_done s)" and ?S = "sy_seen s c"
  from assms(2) obtain d where d: "phase_counts d ?D" using phase_after_counts by blast
  note cp = phase_after_counts [OF assms(4)]
  have e: "starts_in ?S = starts_in ?D" "turns_in ?D = turns_in ?S @ t # q"
    using assms(1,3) by (auto simp: channels_ok_def Let_def)
  have "map turn_TurnNumber (turns_in ?D) ! length (turns_in ?S) = turn_TurnNumber t" by (simp add: e(2) nth_append)
  moreover have "map turn_TurnNumber (turns_in ?D) ! length (turns_in ?S) = int (length (turns_in ?S))"
  proof -
    have "map turn_TurnNumber (turns_in ?D) = map int [0..<length (turns_in ?D)]"
      using d by (simp add: phase_counts_def)
    moreover have "length (turns_in ?S) < length (turns_in ?D)" by (simp add: e(2))
    ultimately show ?thesis by (simp only: nth_map_upt minus_nat.diff_0 add_0)
  qed
  ultimately have t: "turn_TurnNumber t = int (length (turns_in ?S))" by simp
  from d e have "starts_in ?S \<noteq> []" by (cases d) (auto simp: phase_counts_def)
  with cp assms(5) have "p = During (int (length (turns_in ?S)))" by (cases p) (auto simp: phase_counts_def)
  with assms(4) t show ?thesis by simp
qed

lemma next_end_in_phase:
  assumes "channels_ok s c" "phase_after (deliveries c (sy_done s)) \<noteq> None" "sy_ends s c = g # q"
    "phase_after (sy_seen s c) = Some p" "p \<noteq> Over"
  shows "phase_after (sy_seen s c @ [PvGameEnds g]) \<noteq> None"
proof -
  let ?D = "deliveries c (sy_done s)" and ?S = "sy_seen s c"
  from assms(2) obtain d where d: "phase_counts d ?D" using phase_after_counts by blast
  have e: "starts_in ?S = starts_in ?D" "ends_in ?D = ends_in ?S @ g # q"
    using assms(1,3) by (auto simp: channels_ok_def Let_def)
  from d e have "starts_in ?S \<noteq> []" by (cases d) (auto simp: phase_counts_def)
  with phase_after_counts [OF assms(4)] assms(5) obtain n where "p = During n" by (cases p) (auto simp: phase_counts_def)
  with assms(4) show ?thesis by simp
qed

lemma next_start_in_phase:
  assumes "channels_ok s c" "phase_after (deliveries c (sy_done s) @ [PvGameStarts m]) \<noteq> None"
    "phase_after (sy_seen s c) = Some p"
  shows "phase_after (sy_seen s c @ [PvGameStarts m]) \<noteq> None"
proof -
  let ?D = "deliveries c (sy_done s)" and ?S = "sy_seen s c"
  from assms(2) obtain d where d: "phase_after ?D = Some d" "phase_next d (PvGameStarts m) \<noteq> None"
    by (cases "phase_after ?D") auto
  then have "d = Before" by (cases d) auto
  with phase_after_counts [OF d(1)] assms(1) have "starts_in ?S = []"
    by (simp add: phase_counts_def channels_ok_def Let_def)
  with phase_after_counts [OF assms(3)] have "p = Before" by (cases p) (auto simp: phase_counts_def)
  with assms(3) show ?thesis by simp
qed


text \<open>The step relation keeps the invariant.\<close>

lemma channels_ok_moves:
  assumes "channels_ok s c" "phase_after (sy_seen s c @ [e]) \<noteq> None"
    "sy_seen s' = sy_seen s" "sy_done s' = sy_done s @ new"
    "starts_in [e] = starts_in (deliveries c new)"
    "turns_in [e] @ sy_turns s' c = sy_turns s c @ turns_in (deliveries c new)"
    "ends_in [e] @ sy_ends s' c = sy_ends s c @ ends_in (deliveries c new)"
  shows "channels_ok (pv_moves c e th ops s') c"
  using assms by (auto simp: channels_ok_def Let_def pv_moves_def)

lemma channels_ok_other:
  assumes "channels_ok s d" "d \<noteq> c" "sy_seen s' = sy_seen s" "sy_done s' = sy_done s @ new"
    "deliveries d new = []" "sy_turns s' d = sy_turns s d" "sy_ends s' d = sy_ends s d"
  shows "channels_ok s' d" "channels_ok (pv_moves c e th ops s') d"
  using assms by (auto simp: channels_ok_def Let_def pv_moves_def)

lemma pv_moves_simps [simp]:
  "sy_gl (pv_moves c e th ops s) = sy_gl s" "sy_done (pv_moves c e th ops s) = sy_done s"
  "sy_todo (pv_moves c e th ops s) = sy_todo s"
  by (simp_all add: pv_moves_def)

lemma gl_receives_frame:
  assumes "gl_receives e s = Some s1"
  shows "sy_gl s1 = sy_gl s" "sy_todo s1 = sy_todo s" "sy_turns s1 = sy_turns s" "sy_ends s1 = sy_ends s"
    "sy_pvs s1 = sy_pvs s" "sy_owed s1 = sy_owed s" "sy_seen s1 = sy_seen s" "sy_acts s1 = sy_acts s"
    "sy_done s1 = sy_done s" "set (sy_actions s1) \<subseteq> set (sy_actions s)"
    "e = GlPlayerAction a \<Longrightarrow> a \<in> set (sy_actions s)"
  using assms by (cases e; auto split: list.splits if_splits)+

lemma sys_inv_pv:
  assumes inv: "sys_inv player clients s" and kind: "pv_isPlayer (sh_pv sh) = player c"
    and step: "pv_step sh e (sy_pvs s c) = PvStepped sh' th ops"
    and s': "sy_pvs s' = sy_pvs s" "sy_seen s' = sy_seen s" "sy_acts s' = sy_acts s" "sy_gl s' = sy_gl s"
      "sy_done s' = sy_done s @ new" "sy_done s' @ sy_todo s' = sy_done s @ sy_todo s"
    and others: "\<And>d. d \<noteq> c \<Longrightarrow> deliveries d new = [] \<and> sy_turns s' d = sy_turns s d \<and> sy_ends s' d = sy_ends s d"
    and phase: "phase_after (sy_seen s c @ [e]) \<noteq> None"
    and chans: "starts_in [e] = starts_in (deliveries c new)"
      "turns_in [e] @ sy_turns s' c = sy_turns s c @ turns_in (deliveries c new)"
      "ends_in [e] @ sy_ends s' c = sy_ends s c @ ends_in (deliveries c new)"
  shows "sys_inv player clients (pv_moves c e th ops s')"
proof -
  have ok: "channels_ok s d" "goroutine_ok player clients s d" for d using inv by (auto simp: sys_inv_def)
  have g: "goroutine_ok player clients s' d" for d
    using ok(2) [of d] s'(1-3) by (simp add: goroutine_ok_def)
  have "pv_step sh e (sy_pvs s' c) = PvStepped sh' th ops" using step s'(1) by simp
  from goroutine_moves [OF g kind this] g
  have "goroutine_ok player clients (pv_moves c e th ops s') d" for d by simp
  moreover have "channels_ok (pv_moves c e th ops s') d" for d
  proof (cases "d = c")
    case True
    with channels_ok_moves [OF ok(1) phase s'(2,5) chans] show ?thesis by simp
  next
    case False
    with channels_ok_other(2) [OF ok(1) False s'(2,5)] others show ?thesis by simp
  qed
  moreover have "gl_inv (sy_gl s') (sy_done s' @ sy_todo s')" using inv s'(4,6) by (simp add: sys_inv_def)
  ultimately show ?thesis by (simp add: sys_inv_def)
qed

lemma sys_inv_gl_send:
  assumes inv: "sys_inv player clients s"
    and s': "sy_pvs s' = sy_pvs s" "sy_seen s' = sy_seen s" "sy_acts s' = sy_acts s" "sy_gl s' = sy_gl s"
      "sy_done s' = sy_done s @ new" "sy_done s' @ sy_todo s' = sy_done s @ sy_todo s"
    and chans: "\<And>d. starts_in (deliveries d new) = [] \<and> sy_turns s' d = sy_turns s d @ turns_in (deliveries d new)
      \<and> sy_ends s' d = sy_ends s d @ ends_in (deliveries d new)"
  shows "sys_inv player clients s'"
proof -
  have ok: "channels_ok s d" "goroutine_ok player clients s d" for d using inv by (auto simp: sys_inv_def)
  have "goroutine_ok player clients s' d" for d using ok(2) [of d] s'(1-3) by (simp add: goroutine_ok_def)
  moreover have "channels_ok s' d" for d
    using ok(1) [of d] chans [of d] s'(2,5) by (simp add: channels_ok_def Let_def)
  moreover have "gl_inv (sy_gl s') (sy_done s' @ sy_todo s')" using inv s'(4,6) by (simp add: sys_inv_def)
  ultimately show ?thesis by (simp add: sys_inv_def)
qed

lemma sys_inv_phases:
  assumes "sys_inv player clients s"
  shows "phase_after (deliveries c (sy_done s)) \<noteq> None"
    "sy_todo s = op # rest \<Longrightarrow> phase_after (deliveries c (sy_done s) @ deliver1 c op) \<noteq> None"
proof -
  have "phase_after (deliveries c (sy_done s @ sy_todo s)) \<noteq> None"
    by (rule gl_inv_phase [of "sy_gl s"]) (use assms in \<open>simp add: sys_inv_def\<close>)
  then show "phase_after (deliveries c (sy_done s)) \<noteq> None"
    "sy_todo s = op # rest \<Longrightarrow> phase_after (deliveries c (sy_done s) @ deliver1 c op) \<noteq> None"
    using phase_after_prefix [of "deliveries c (sy_done s)"]
      phase_after_prefix [of "deliveries c (sy_done s) @ deliver1 c op"] by simp_all
qed

lemma sys_inv_move:
  assumes step: "sys_move player mv s s'" and inv: "sys_inv player clients s" and cl: "logged_in clients"
  shows "sys_inv player clients s'"
proof -
  have ok: "channels_ok s c" "goroutine_ok player clients s c" for c using inv by (auto simp: sys_inv_def)
  note ph = sys_inv_phases [OF inv]
  have loop: "\<exists>p. phase_after (sy_seen s c) = Some p \<and> p \<noteq> Over" if "pt_pc (sy_pvs s c) = PvLoop" for c
    using goroutine_phase [OF ok(2) ok(1) cl that] by blast
  have any: "phase_after (sy_seen s c @ [PvIncoming m]) \<noteq> None" "phase_after (sy_seen s c @ [PvCanTerminate r]) \<noteq> None" for c m r
    using ok(1) [of c] by (auto simp: channels_ok_def Let_def)
  from step show ?thesis
  proof cases
    case (sys_gl_event e gsh s1 gsh' th ops)
    from inv have "gl_inv (sy_gl s) (sy_done s @ sy_todo s)" by (simp add: sys_inv_def)
    from gl_inv_step [OF this sys_gl_event(6,4)] inv gl_receives_frame [OF sys_gl_event(5)] sys_gl_event(2)
    show ?thesis by (auto simp: sys_inv_def channels_ok_def goroutine_ok_def)
  next
    case (sys_gl_exit n rest)
    show ?thesis by (rule sys_inv_gl_send [OF inv, where new = "[SendOnExit n]"]) (simp_all add: sys_gl_exit)
  next
    case (sys_gl_starts c m rest sh sh' th ops)
    from pv_step_loop [OF sys_gl_starts(6)] loop obtain p where p: "phase_after (sy_seen s c) = Some p" by blast
    have "phase_after (sy_seen s c @ [PvGameStarts m]) \<noteq> None"
      using next_start_in_phase [OF ok(1) _ p] ph(2) [OF sys_gl_starts(3), of c] by simp
    then show ?thesis unfolding sys_gl_starts(2)
      by (intro sys_inv_pv [OF inv sys_gl_starts(5,6), where new = "[SendGameStarts c m]"]) (simp_all add: sys_gl_starts(3))
  next
    case (sys_gl_turn c t rest)
    show ?thesis by (rule sys_inv_gl_send [OF inv, where new = "[SendNewTurn c t]"]) (simp_all add: sys_gl_turn)
  next
    case (sys_gl_ends c g rest)
    show ?thesis by (rule sys_inv_gl_send [OF inv, where new = "[SendGameEnds c g]"]) (simp_all add: sys_gl_ends)
  next
    case (sys_pv_turn c t rest sh sh' th ops)
    from pv_step_loop [OF sys_pv_turn(6)] loop obtain p where p: "phase_after (sy_seen s c) = Some p" "p \<noteq> Over" by blast
    from next_turn_in_phase [OF ok(1) ph(1) sys_pv_turn(3) p] show ?thesis unfolding sys_pv_turn(2)
      by (intro sys_inv_pv [OF inv sys_pv_turn(5,6), where new = "[]"]) (simp_all add: sys_pv_turn(3))
  next
    case (sys_pv_ends c g rest sh sh' th ops)
    from pv_step_loop [OF sys_pv_ends(6)] loop obtain p where p: "phase_after (sy_seen s c) = Some p" "p \<noteq> Over" by blast
    from next_end_in_phase [OF ok(1) ph(1) sys_pv_ends(3) p] show ?thesis unfolding sys_pv_ends(2)
      by (intro sys_inv_pv [OF inv sys_pv_ends(5,6), where new = "[]"]) (simp_all add: sys_pv_ends(3))
  next
    case (sys_pv_incoming c sh m sh' th ops)
    show ?thesis unfolding sys_pv_incoming(2)
      by (rule sys_inv_pv [OF inv sys_pv_incoming(4,5), where new = "[]"]) (use any in simp_all)
  next
    case (sys_pv_terminate c sh r sh' th ops)
    show ?thesis unfolding sys_pv_terminate(2)
      by (rule sys_inv_pv [OF inv sys_pv_terminate(4,5), where new = "[]"]) (use any in simp_all)
  next
    case (sys_pv_action c gl a rest)
    show ?thesis by (rule sys_inv_gl_send [OF inv, where new = "[]"]) (simp_all add: sys_pv_action)
  next
    case (sys_pv_gone c gl i rest)
    show ?thesis by (rule sys_inv_gl_send [OF inv, where new = "[]"]) (simp_all add: sys_pv_gone)
  qed
qed

lemma sys_reachable_iff: "sys_reachable player gl0 clients s \<longleftrightarrow> (sys_step player)\<^sup>*\<^sup>* (sys_init gl0 clients) s"
proof
  show "sys_reachable player gl0 clients s \<Longrightarrow> (sys_step player)\<^sup>*\<^sup>* (sys_init gl0 clients) s"
    by (induction rule: sys_reachable.induct) auto
  show "(sys_step player)\<^sup>*\<^sup>* (sys_init gl0 clients) s \<Longrightarrow> sys_reachable player gl0 clients s"
    by (induction rule: rtranclp_induct) (auto intro: reach_init reach_step)
qed

interpretation goroutines: machine "sys_reachable player gl0 clients" "sys_init gl0 clients" "sys_step player" for player gl0 clients
  by unfold_locales (rule sys_reachable_iff)

lemma sys_inv_reachable:
  assumes "sys_reachable player gl0 clients s" "logged_in clients"
  shows "sys_inv player clients s"
  by (rule goroutines.invariant [where P = "sys_inv player clients", OF assms(1) sys_inv_init]) (auto simp: sys_step_def intro: sys_inv_move assms(2))

text \<open>
  The protocol of the whole system: in every state that the goroutines can reach together, over
  channels of the code's capacities, the messages of every client are a run of the documented protocol, and
  the actions a player has handed to the game logic are those of the turns it was sent, in order, each
  once, except that the last one may still be unanswered.
\<close>

lemma sys_inv_protocol:
  assumes "sys_inv player clients s" "logged_in clients"
  shows "(\<exists>d. doc_run (sent (pt_client (sy_pvs s c))) = Some d \<and> (pt_pc (sy_pvs s c) = PvLoop \<longrightarrow> d = doc_abs (sy_pvs s c)))
    \<and> sorted_wrt (<) (turns_sent (pt_client (sy_pvs s c)))
    \<and> (player c \<longrightarrow> acted (sy_acts s c) \<in> {turns_sent (pt_client (sy_pvs s c)), butlast (turns_sent (pt_client (sy_pvs s c)))})"
proof -
  let ?th = "sy_pvs s c"
  have "goroutine_ok player clients s c" "channels_ok s c" using assms(1) by (simp_all add: sys_inv_def)
  from goroutine_history [OF this assms(2)] obtain es where h: "pv_history (player c) es ?th (sy_acts s c)" by blast
  from pv_history_doc [OF h] obtain d where d: "doc_run (sent (pt_client ?th)) = Some d"
    "pt_pc ?th = PvLoop \<longrightarrow> d = doc_abs ?th" by blast
  have "sorted_wrt (<) (turns_sent (pt_client ?th))" using doc_run_turns [OF d(1)] by (simp add: turns_sent_def)
  moreover have "player c \<longrightarrow> acted (sy_acts s c) \<in> {turns_sent (pt_client ?th), butlast (turns_sent (pt_client ?th))}"
    using pv_actions_match_turns [of es ?th "sy_acts s c"] h by (cases "player c") auto
  ultimately show ?thesis using d by blast
qed

lemma system_follows_protocol:
  assumes "sys_reachable player gl0 clients s" "logged_in clients"
  shows "\<exists>d. doc_run (sent (pt_client (sy_pvs s c))) = Some d
      \<and> (pt_pc (sy_pvs s c) = PvLoop \<longrightarrow> d = doc_abs (sy_pvs s c))
    \<and> sorted_wrt (<) (turns_sent (pt_client (sy_pvs s c)))
    \<and> (player c \<longrightarrow> acted (sy_acts s c) = turns_sent (pt_client (sy_pvs s c))
         \<or> acted (sy_acts s c) = butlast (turns_sent (pt_client (sy_pvs s c))))"
  using sys_inv_protocol [OF sys_inv_reachable [OF assms] assms(2), of c] by blast

end
