(* ===== verification/System_Flow.thy ===== *)
theory System_Flow
  imports System
begin

text \<open>
  The way of an action through the composed system: from the TURN_ACK of a player over its goroutine
  and the channel \<open>playerAction\<close> to the DO_TURN message of the game logic.
\<close>

section \<open>Where the actions of a turn come from\<close>

definition ordered :: "Client \<Rightarrow> MessageDoTurnPlayerAction set" where
  "ordered c = {a. \<exists>m. ODoTurn m \<in> set (sent c) \<and> a \<in> set (dt_PlayerActions m)}"

text \<open>The actions that the game logic goroutine has collected or already put into a DO_TURN.\<close>

definition known :: "gl_thread \<Rightarrow> MessageDoTurnPlayerAction set" where
  "known th = set (gt_playerActions th) \<union> ordered (gt_client th)"

lemma ordered_Kick [simp]: "ordered (Kick c r) = ordered c"
  using sent_Kick [of c r] by (auto simp: ordered_def kick_msg_def)

lemma ordered_send:
  "ordered (snd (sendDoTurn c acts)) \<subseteq> ordered c \<union> set acts"
  "sendDoInit c a b d = (e, c') \<Longrightarrow> ordered c' = ordered c"
  by (auto simp: ordered_def sendDoTurn_def sendDoInit_def Let_def client_log.log_snd
      dest!: client_log.log_send split: if_splits)

lemma known_simps [simp]:
  "known (th\<lparr>gt_pc := pc\<rparr>) = known th" "known (th\<lparr>gt_turnNumber := n\<rparr>) = known th"
  "known (th\<lparr>gt_sleeping := k\<rparr>) = known th" "known (th\<lparr>gt_unreset := k\<rparr>) = known th"
  "known (th\<lparr>gt_actionReceived := r\<rparr>) = known th" "known (th\<lparr>gt_connectedPlayers := q\<rparr>) = known th"
  "known (th\<lparr>gt_client := Kick (gt_client th) why\<rparr>) = known th"
  by (simp_all add: known_def)

lemma known_order: "known (order_turn th) \<subseteq> known th"
  using ordered_send(1) [of "gt_client th" "gt_playerActions th"] by (auto simp: known_def order_turn_def)

lemma known_reset: "known (th\<lparr>gt_playerActions := []\<rparr>) \<subseteq> known th"
  by (auto simp: known_def)

lemma known_fast_wait: "known (fast_wait th) \<subseteq> known th"
  using known_order [of th] known_reset [of "order_turn th"] by (auto simp: fast_wait_def)

lemma known_game_init: "game_init perm sh th = (sh1, th1) \<Longrightarrow> known th1 = known th"
  by (auto simp: known_def game_init_def Let_def split: prod.splits)

lemma set_put_action: "set (put_action a acts) \<subseteq> insert a (set acts)"
proof (cases "find_index (\<lambda>act. pa_PlayerID act = pa_PlayerID a) acts")
  case (Some i)
  from find_index_Some [OF this] have "mset (swap_last i acts) = mset acts"
    by (auto intro: mset_swap_last)
  then have "set (swap_last i acts) = set acts" by (rule mset_eq_setD)
  with Some show ?thesis using set_update_subset_insert [of "swap_last i acts" "length acts - 1" a]
    by (auto simp: put_action_def)
qed (auto simp: put_action_def)

text \<open>Only an action that was received from a player becomes known, function by function.\<close>

lemma reception_ordered:
  "handleGLDoTurnAckReception c msg n = Inl c' \<Longrightarrow> ordered c' = ordered c"
  using reception_client by fastforce

lemma gl_exit_known:
  "gl_exit sh th c code ops = GlStepped sh' th' ops' \<Longrightarrow> ordered c = ordered (gt_client th) \<Longrightarrow> known th' = known th"
  by (auto simp: gl_exit_def known_def)

lemma gl_terminate_known: "gl_terminate sh th r = GlStepped sh' th' ops' \<Longrightarrow> known th' = known th"
  by (auto simp: gl_terminate_def known_def)

lemma gl_finish_known:
  "gl_finish sh th m = GlStepped sh' th' ops' \<Longrightarrow> known th' = known th"
  by (auto simp: gl_finish_def handleGlGameFinished_def Let_def split: if_splits dest!: gl_exit_known)

lemma gl_fail_known: "gl_fail sh th r = GlStepped sh' th' ops' \<Longrightarrow> known th' = known th"
  by (auto simp: gl_fail_def dest!: gl_exit_known)

lemmas gl_known = gl_exit_known gl_terminate_known gl_finish_known gl_fail_known

lemma timers_known:
  assumes "gameLogicGameControlTimers sh e th = GlStepped sh' th' ops'"
  shows "known th' \<subseteq> known th \<union> (case e of GlPlayerAction a \<Rightarrow> {a} | _ \<Rightarrow> {})"
proof (cases e)
  case (GlPlayerAction a)
  with assms set_put_action [of a "gt_playerActions th"] show ?thesis
    by (auto simp: gameLogicGameControlTimers_def known_def)
next
  case (GlIncoming msg)
  show ?thesis
  proof (cases "handleGLDoTurnAckReception (gt_client th) msg (initialTotalNbPlayers th)")
    case (Inl c)
    with GlIncoming assms gl_exit_known [of sh th c 1 "[]"] reception_ordered [OF Inl] show ?thesis
      by (auto simp: gameLogicGameControlTimers_def)
  next
    case (Inr m)
    with GlIncoming assms gl_finish_known [of sh "th\<lparr>gt_turnNumber := gt_turnNumber th + 1\<rparr>" m] show ?thesis
      by (auto simp: gameLogicGameControlTimers_def Let_def split: if_splits)
  qed
qed (use assms in \<open>auto simp: gameLogicGameControlTimers_def dest: gl_terminate_known\<close>)

lemma fast_ack_known:
  assumes "fast_await_ack sh e th = GlStepped sh' th' ops'"
  shows "known th' \<subseteq> known th"
proof (cases e)
  case (GlIncoming msg)
  show ?thesis
  proof (cases "handleGLDoTurnAckReception (gt_client th) msg (initialTotalNbPlayers th)")
    case (Inl c)
    with GlIncoming assms gl_exit_known [of sh th c 1 "[]"] reception_ordered [OF Inl] show ?thesis
      by (auto simp: fast_await_ack_def)
  next
    case (Inr m)
    let ?th1 = "th\<lparr>gt_turnNumber := gt_turnNumber th + 1\<rparr>"
    have "known (fast_wait (?th1\<lparr>gt_actionReceived := r\<rparr>)) \<subseteq> known th" for r
      using known_fast_wait [of "?th1\<lparr>gt_actionReceived := r\<rparr>"] by simp
    with Inr GlIncoming assms gl_finish_known [of sh ?th1 m] show ?thesis
      by (simp add: fast_await_ack_def Let_def split: if_splits) blast+
  qed
qed (use assms in \<open>auto simp: fast_await_ack_def dest: gl_terminate_known\<close>)

lemma fast_actions_known:
  assumes "fast_await_actions sh e th = GlStepped sh' th' ops'"
  shows "known th' \<subseteq> known th \<union> (case e of GlPlayerAction a \<Rightarrow> {a} | _ \<Rightarrow> {})"
proof (cases e)
  case (GlPlayerAction a)
  define th1 where "th1 = th\<lparr>gt_actionReceived := AList.update (pa_PlayerID a) True (gt_actionReceived th),
    gt_playerActions := (if map_of (gt_connectedPlayers th) (pa_PlayerID a) \<noteq> None
      then gt_playerActions th @ [a] else gt_playerActions th)\<rparr>"
  have "known th1 \<subseteq> known th \<union> {a}" by (auto simp: th1_def known_def)
  with known_fast_wait [of th1] GlPlayerAction assms show ?thesis
    by (auto simp: fast_await_actions_def th1_def)
next
  case (GlPlayerDisconnected i)
  define th1 where "th1 = th\<lparr>gt_actionReceived := AList.update i True (gt_actionReceived th),
    gt_connectedPlayers := AList.delete i (gt_connectedPlayers th)\<rparr>"
  have "known th1 = known th" by (auto simp: th1_def known_def)
  with known_fast_wait [of th1] GlPlayerDisconnected assms show ?thesis
    by (auto simp: fast_await_actions_def th1_def)
qed (use assms in \<open>auto simp: fast_await_actions_def dest: gl_terminate_known\<close>)

lemma wait_start_known:
  assumes "gl_wait_start sh e th = GlStepped sh' th' ops'"
  shows "known th' = known th"
proof (cases e)
  case (GlStart perm)
  obtain sh1 th1 where g: "game_init perm sh th = (sh1, th1)" by fastforce
  obtain err c where s: "sendDoInit (gt_client th1) (gt_initialNbPlayers th1)
      (gt_initialNbSpecialPlayers th1) (gt_nbTurnsMax th1) = (err, c)" by fastforce
  have "known (th1\<lparr>gt_client := c\<rparr>) = known th"
    using ordered_send(2) [OF s] known_game_init [OF g] by (simp add: known_def)
  moreover have "known th' = known (th1\<lparr>gt_client := c\<rparr>)"
  proof (cases err)
    case None
    with GlStart g s assms show ?thesis by (auto simp: gl_wait_start_def)
  next
    case (Some why)
    with GlStart g s assms have "gl_fail sh1 (th1\<lparr>gt_client := c\<rparr>) (''Cannot send DO_INIT. '' @ why) = GlStepped sh' th' ops'"
      by (simp add: gl_wait_start_def)
    then show ?thesis by (rule gl_fail_known)
  qed
  ultimately show ?thesis by simp
next
  case (GlIncoming msg)
  with assms show ?thesis by (simp add: gl_wait_start_def gl_fail_known)
next
  case (GlCanTerminate r)
  with assms show ?thesis by (simp add: gl_wait_start_def gl_terminate_known)
qed (use assms in \<open>simp_all add: gl_wait_start_def\<close>)

lemma known_first_order:
  "known (order_turn (th\<lparr>gt_turnNumber := 0, gt_playerActions := []\<rparr>)) \<subseteq> known th"
  using known_order [of "th\<lparr>gt_turnNumber := 0, gt_playerActions := []\<rparr>"] by (auto simp: known_def)

lemma init_ack_known:
  assumes "gl_wait_init_ack sh e th = GlStepped sh' th' ops'"
  shows "known th' \<subseteq> known th"
proof -
  have "known (game_control th) \<subseteq> known th"
    using known_first_order [of th] by (auto simp: game_control_def)
  with assms show ?thesis
    by (cases e) (auto simp: gl_wait_init_ack_def split: option.splits sum.splits dest: gl_terminate_known gl_fail_known)
qed

lemma known_step:
  assumes "handleGameLogic sh e th = GlStepped sh' th' ops'"
  shows "known th' \<subseteq> known th \<union> (case e of GlPlayerAction a \<Rightarrow> {a} | _ \<Rightarrow> {})"
proof (cases "is_timer e")
  case True
  with assms have "known th' = known (order_turn th) \<or> known th' = known (th\<lparr>gt_playerActions := []\<rparr>)"
    by (auto simp: is_timer_def handleGameLogic_def timer_send_def timer_reset_def split: nat.splits)
  with known_order known_reset show ?thesis by blast
next
  case False
  then have e: "handleGameLogic sh e th = (case gt_pc th of
      GlWaitStart \<Rightarrow> gl_wait_start sh e th | GlWaitInitAck \<Rightarrow> gl_wait_init_ack sh e th
    | GlSleepFirst \<Rightarrow> gl_sleep_first sh e th | GlTimers \<Rightarrow> gameLogicGameControlTimers sh e th
    | GlFastAck \<Rightarrow> fast_await_ack sh e th | GlFastActions \<Rightarrow> fast_await_actions sh e th
    | GlFinition \<Rightarrow> waitGameLogicFinition sh e th | GlReturned \<Rightarrow> GlBlocked)"
    by (cases e) (simp_all add: is_timer_def handleGameLogic_def split: gl_pc.split)
  show ?thesis
  proof (cases "gt_pc th")
    case GlSleepFirst
    with assms e known_first_order [of th] show ?thesis
      by (cases e) (auto simp: gl_sleep_first_def)
  next
    case GlFinition
    with assms e show ?thesis
      by (cases e) (auto simp: waitGameLogicFinition_def dest: gl_terminate_known [OF sym])
  next
    case GlWaitStart
    with assms e wait_start_known [of sh e th sh' th' ops'] show ?thesis by simp
  next
    case GlWaitInitAck
    with assms e init_ack_known [of sh e th sh' th' ops'] show ?thesis by (simp add: le_supI1)
  next
    case GlTimers
    with assms e timers_known [of sh e th sh' th' ops'] show ?thesis by simp
  next
    case GlFastAck
    with assms e fast_ack_known [of sh e th sh' th' ops'] show ?thesis by (simp add: le_supI1)
  next
    case GlFastActions
    with assms e fast_actions_known [of sh e th sh' th' ops'] show ?thesis by simp
  qed (use assms e in simp)
qed

text \<open>The message of a client that an action was read from.\<close>

definition acked :: "ClientMessage \<Rightarrow> MessageDoTurnPlayerAction \<Rightarrow> bool" where
  "acked msg a \<longleftrightarrow> msg_err msg = None \<and> readTurnAckMessage (msg_content msg) (pa_TurnNumber a)
     = Inr \<lparr>tack_turnNumber = pa_TurnNumber a, tack_actions = pa_Actions a\<rparr>"

text \<open>A goroutine hands over an action only when it has just read it from its player.\<close>

lemma pv_kicked_actions:
  "pv_kicked sh th client r ops = PvStepped sh' th' ops' \<Longrightarrow> SendPlayerAction gl a \<in> set ops'
     \<Longrightarrow> SendPlayerAction gl a \<in> set ops"
  by (auto simp: pv_kicked_def KickLoggedPlayerOrVisu_def tell_disconnected_def Let_def
      split: sum.splits prod.splits if_splits list.splits)

lemma pv_after_ack_actions:
  "pv_after_ack sh th ops = PvStepped sh' th' ops' \<Longrightarrow> SendPlayerAction gl a \<in> set ops'
     \<Longrightarrow> SendPlayerAction gl a \<in> set ops"
  by (auto simp: pv_after_ack_def Let_def split: list.splits prod.splits option.splits dest: pv_kicked_actions)

lemma pv_step_actions:
  assumes "pv_step sh e th = PvStepped sh' th' ops" "SendPlayerAction gl a \<in> set ops"
  shows "\<exists>msg. e = PvIncoming msg \<and> acked msg a \<and> pv_isPlayer (sh_pv sh)
    \<and> pa_PlayerID a = pv_playerID (sh_pv sh) \<and> pt_pc th = PvLoop \<and> cl_state (pt_client th) = CLIENT_THINKING"
proof -
  have *: "pt_pc th = PvLoop" "handlePlayerOrVisu sh e th = PvStepped sh' th' ops"
    using assms by (auto simp: pv_step_def waitPlayerOrVisuFinition_def split: pv_pc.splits pv_event.splits)
  obtain msg where e: "e = PvIncoming msg"
    using *(2) assms(2) by (cases e) (auto simp: handlePlayerOrVisu_def pv_on_game_starts_def pv_on_game_ends_def
      pv_on_new_turn_def Let_def split: prod.splits option.splits list.splits if_splits dest: pv_kicked_actions)
  with *(2) have m: "pv_on_incoming sh th msg = PvStepped sh' th' ops" by (simp add: handlePlayerOrVisu_def)
  have err: "msg_err msg = None"
    using m assms(2) by (auto simp: pv_on_incoming_def split: option.splits dest: pv_kicked_actions)
  obtain ack where ack: "readTurnAckMessage (msg_content msg) (pt_lastTurnNumberSent th) = Inr ack"
    using m err assms(2) by (auto simp: pv_on_incoming_def split: sum.splits dest: pv_kicked_actions)
  have k: "pv_isPlayer (sh_pv sh)" "a = \<lparr>pa_PlayerID = pv_playerID (sh_pv sh), pa_TurnNumber = tack_turnNumber ack,
      pa_Actions = tack_actions ack\<rparr>" "cl_state (pt_client th) = CLIENT_THINKING"
    using m err ack assms(2)
    by (auto simp: pv_on_incoming_def split: if_splits option.splits dest: pv_kicked_actions pv_after_ack_actions)
  have "tack_turnNumber ack = pt_lastTurnNumberSent th"
    using ack by (auto simp: readTurnAckMessage_def split: sum.splits if_splits)
  with k ack err e *(1) show ?thesis by (cases ack) (simp add: acked_def)
qed

lemma pv_trace_actions:
  assumes "pv_trace th0 es th ops" "SendPlayerAction gl a \<in> set ops"
  shows "\<exists>sh msg. (sh, PvIncoming msg) \<in> set es \<and> acked msg a \<and> pv_isPlayer (sh_pv sh)
    \<and> pa_PlayerID a = pv_playerID (sh_pv sh)"
  using assms
proof (induction rule: pv_trace.induct)
  case (pv_snoc th0 es th ops sh e sh' th' ops')
  show ?case
  proof (cases "SendPlayerAction gl a \<in> set ops'")
    case True
    from pv_step_actions [OF pv_snoc.hyps(2) True] show ?thesis by auto
  next
    case False
    with pv_snoc show ?thesis by auto
  qed
qed simp

text \<open>The flow of actions: what is known to the game logic goroutine was handed over by a goroutine.\<close>

definition handed :: "sys \<Rightarrow> MessageDoTurnPlayerAction set" where
  "handed s = {a. \<exists>c gl. SendPlayerAction gl a \<in> set (sy_acts s c)}"

definition flow_inv :: "sys \<Rightarrow> bool" where
  "flow_inv s \<longleftrightarrow> known (sy_gl s) \<union> set (sy_actions s) \<subseteq> handed s
     \<and> (\<forall>c. set (sy_owed s c) \<subseteq> set (sy_acts s c))"

lemma flow_inv_pv_moves: "flow_inv s \<Longrightarrow> flow_inv (pv_moves c e th ops s)"
  by (fastforce simp: flow_inv_def handed_def pv_moves_def)

lemma flow_inv_frame [simp]:
  "flow_inv (s\<lparr>sy_todo := a\<rparr>) = flow_inv s" "flow_inv (s\<lparr>sy_done := b\<rparr>) = flow_inv s"
  "flow_inv (s\<lparr>sy_turns := q\<rparr>) = flow_inv s" "flow_inv (s\<lparr>sy_ends := r\<rparr>) = flow_inv s"
  by (simp_all add: flow_inv_def handed_def)

lemma flow_inv_move:
  assumes "sys_move player mv s s'" "flow_inv s"
  shows "flow_inv s'"
  using assms(1)
proof cases
  case (sys_gl_event e gsh s1 gsh' th ops)
  note f = gl_receives_frame [OF sys_gl_event(5)]
  have "known th \<subseteq> handed s"
    using known_step [OF sys_gl_event(6)] assms(2) f(11) by (cases e) (auto simp: flow_inv_def)
  moreover have "handed s' = handed s" using f(8) sys_gl_event(2) by (simp add: handed_def)
  ultimately show ?thesis using assms(2) f sys_gl_event(2) by (auto simp: flow_inv_def)
next
  case (sys_pv_action c gl a rest)
  then have o: "insert (SendPlayerAction gl a) (set rest) \<subseteq> set (sy_acts s c)"
    using assms(2) by (metis flow_inv_def list.simps(15))
  then have "a \<in> handed s" by (auto simp: handed_def)
  moreover have "set rest \<subseteq> set (sy_acts s c)" using o by blast
  ultimately show ?thesis using sys_pv_action assms(2) by (auto simp: flow_inv_def handed_def)
next
  case (sys_pv_gone c gl i rest)
  then have "set rest \<subseteq> set (sy_acts s c)"
    using assms(2) by (metis flow_inv_def insert_subset list.simps(15))
  with sys_pv_gone assms(2) show ?thesis by (auto simp: flow_inv_def handed_def)
qed (use assms(2) in \<open>simp_all add: flow_inv_pv_moves\<close>)

lemma flow_inv_init: "ordered gl0 = {} \<Longrightarrow> flow_inv (sys_init gl0 clients)"
  by (simp add: flow_inv_def sys_init_def known_def gl_start_def)

lemma flow_inv_reachable:
  assumes "sys_reachable player gl0 clients s" "ordered gl0 = {}"
  shows "flow_inv s"
  by (rule goroutines.invariant [where P = flow_inv, OF assms(1) flow_inv_init [OF assms(2)]]) (auto simp: sys_step_def intro: flow_inv_move)

lemma acted_member: "SendPlayerAction gl a \<in> set ops \<Longrightarrow> pa_TurnNumber a \<in> set (acted ops)"
  by (induction ops rule: acted.induct) auto

lemma handed_from:
  assumes "sys_inv player clients s" "logged_in clients" "SendPlayerAction gl a \<in> set (sy_acts s c)"
  shows "player c \<and> (\<exists>msg. PvIncoming msg \<in> set (sy_seen s c) \<and> acked msg a)
    \<and> pa_TurnNumber a \<in> set (turns_sent (pt_client (sy_pvs s c)))"
proof -
  from assms(1) have ok: "goroutine_ok player clients s c" "channels_ok s c" by (simp_all add: sys_inv_def)
  then obtain es where es: "pv_trace (pv_start (clients c)) es (sy_pvs s c) (sy_acts s c)" "map snd es = sy_seen s c"
    "\<forall>x \<in> set es. pv_isPlayer (sh_pv (fst x)) = player c" by (auto simp: goroutine_ok_def)
  from pv_trace_actions [OF es(1) assms(3)] obtain sh msg where
    m: "(sh, PvIncoming msg) \<in> set es" "acked msg a" "pv_isPlayer (sh_pv sh)" by blast
  from m(1) es(2) have "PvIncoming msg \<in> set (sy_seen s c)" by (metis image_eqI list.set_map snd_conv)
  moreover have p: "player c" using es(3) m(1,3) by force
  moreover have "pa_TurnNumber a \<in> set (acted (sy_acts s c))" using assms(3) by (rule acted_member)
  moreover obtain es' where h: "pv_history (player c) es' (sy_pvs s c) (sy_acts s c)"
    by (rule goroutine_history [OF ok assms(2)])
  with p pv_actions_match_turns [of es' "sy_pvs s c" "sy_acts s c"]
  have "set (acted (sy_acts s c)) \<subseteq> set (turns_sent (pt_client (sy_pvs s c)))"
    by (auto dest: in_set_butlastD)
  ultimately show ?thesis using m(2) by blast
qed

end
