(* ===== verification/System_Properties.thy ===== *)
theory System_Properties
  imports System_Flow
begin

text \<open>
  What the capacities of the channels mean for a game whose client leaves, with an example: one
  player plays a game with timers and leaves before or during it, or answers when nobody listens any
  more.
\<close>

section \<open>An example\<close>

text \<open>
  A game of one player, with timers: the game logic goroutine, the goroutine of the player, and
  their steps.
\<close>

definition one_player :: "cid \<Rightarrow> bool" where "one_player c \<longleftrightarrow> c = 0"

definition solo_reach :: "sys \<Rightarrow> bool" where
  "solo_reach = sys_reachable one_player logic (\<lambda>_. example_client)"

definition solo_shared :: gl_shared where
  "solo_shared = \<lparr>gh_gs = (sh_gs example_shared)\<lparr>gs_Visus := [], gs_NbTurnsMax := 1000,
       gs_MillisecondsBeforeFirstTurn := FZero False, gs_MillisecondsBetweenTurns := FZero False\<rparr>,
     gh_clients = (\<lambda>_. bob), gh_pvs = (\<lambda>c. (new_player c False)\<lparr>pv_playerID := 0\<rparr>),
     gh_infos = sh_infos example_shared, gh_next = 0\<rparr>"

definition solo :: "Client \<Rightarrow> pref list \<Rightarrow> gl_pc \<Rightarrow> gl_thread" where
  "solo c refs pc = (gl_start c)\<lparr>gt_pc := pc, gt_allPlayers := [0], gt_playersInfo := refs,
     gt_initialNbPlayers := 1, gt_nbTurnsMax := 1000\<rparr>"

lemma solo_start_ok: "start_ok solo_shared e"
  by (simp add: start_ok_def solo_shared_def example_shared_def bob_server_def small_server_def seat_def)

text \<open>A shared state with one player and no visualization, as the game logic goroutine finds it.\<close>

definition solo_state :: "gl_shared \<Rightarrow> bool" where
  "solo_state sh \<longleftrightarrow> gs_Players (gh_gs sh) = [0] \<and> gs_SpecialPlayers (gh_gs sh) = [] \<and> gs_Visus (gh_gs sh) = []
     \<and> gs_NbTurnsMax (gh_gs sh) = 1000 \<and> gs_MillisecondsBeforeFirstTurn (gh_gs sh) = FZero False
     \<and> gs_MillisecondsBetweenTurns (gh_gs sh) = FZero False"

lemma solo_shared_state: "solo_state solo_shared" "pv_playerID (gh_pvs solo_shared 0) = 0" "\<not> gs_Fast (gh_gs solo_shared)"
  by (simp_all add: solo_state_def solo_shared_def example_shared_def bob_server_def small_server_def seat_def)

lemma solo_do_init:
  assumes "healthy (cl_writer gl)"
  shows "\<exists>c. sendDoInit gl 1 0 1000 = (None, c) \<and> healthy (cl_writer c)"
proof -
  let ?m = "\<lparr>di_MessageType = ''DO_INIT'', di_NbPlayers = 1, di_NbSpecialPlayers = 0, di_NbTurnsMax = 1000\<rparr>"
  obtain j where "Marshal (MessageDoInit_json ?m) = Inr j" "length j < 16777215"
    by (simp add: MessageDoInit_json_def field_part_def enclose_def quote_string_plain plain_char_def
        show_int_def show_nat.simps)
  from send_json_healthy [OF assms this, of "ODoInit ?m"] show ?thesis by (auto simp: sendDoInit_def)
qed

lemma solo_gl:
  assumes "solo_state sh" "healthy (cl_writer gl)"
  shows "\<exists>sh' c refs. handleGameLogic sh (GlStart [0]) (gl_start gl) = GlStepped sh' ((solo c refs GlWaitInitAck)\<lparr>gt_fast := gs_Fast (gh_gs sh)\<rparr>) []
     \<and> healthy (cl_writer c) \<and> gh_gs sh' = gh_gs sh \<and> pv_playerID (gh_pvs sh' 0) = 0"
proof -
  obtain c where c: "sendDoInit gl 1 0 1000 = (None, c)" "healthy (cl_writer c)" using solo_do_init [OF assms(2)] by blast
  obtain sh' th where g: "game_init [0] sh (gl_start gl) = (sh', th)" by fastforce
  then have th: "th = (solo gl (gt_playersInfo th) GlWaitStart)\<lparr>gt_fast := gs_Fast (gh_gs sh)\<rparr>"
    using assms(1) by (auto simp: game_init_def Let_def solo_def gl_start_def solo_state_def split: prod.splits)
  have "gh_gs sh' = gh_gs sh" "pv_playerID (gh_pvs sh' 0) = 0"
    using g assms(1) by (auto simp: game_init_def Let_def solo_state_def)
  moreover have "handleGameLogic sh (GlStart [0]) (gl_start gl)
     = GlStepped sh' (th\<lparr>gt_client := c, gt_pc := GlWaitInitAck\<rparr>) []"
  proof -
    have "gt_client th = gl" "gt_initialNbPlayers th = 1" "gt_initialNbSpecialPlayers th = 0" "gt_nbTurnsMax th = 1000"
      by (subst th, simp add: solo_def gl_start_def)+
    moreover have "gt_pc (gl_start gl) = GlWaitStart" by (simp add: gl_start_def)
    ultimately show ?thesis using c(1) g by (simp add: handleGameLogic_def gl_wait_start_def)
  qed
  moreover have "th\<lparr>gt_client := c, gt_pc := GlWaitInitAck\<rparr> = (solo c (gt_playersInfo th) GlWaitInitAck)\<lparr>gt_fast := gs_Fast (gh_gs sh)\<rparr>"
    by (subst th) (simp add: solo_def gl_start_def)
  ultimately show ?thesis using c(2) by metis
qed

lemma solo_timers: "(solo c refs pc)\<lparr>gt_fast := False\<rparr> = solo c refs pc"
  by (simp add: solo_def gl_start_def)

lemma solo_init_ack:
  "pv_playerID (gh_pvs sh 0) = 0 \<Longrightarrow> handleGameLogic sh (GlIncoming init_ack) (solo c refs GlWaitInitAck)
    = GlStepped sh (solo c refs GlSleepFirst) [SendGameStarts 0 example_starts]"
  by (simp add: handleGameLogic_def gl_wait_init_ack_def example_acks game_control_def solo_def gl_start_def
      game_starts_ops_def game_starts_msg_def example_starts_def)

lemma solo_slept:
  "handleGameLogic sh GlSlept (solo c refs GlSleepFirst)
    = GlStepped sh (solo (snd (sendDoTurn c [])) refs GlTimers) []"
  by (simp add: handleGameLogic_def gl_sleep_first_def order_turn_def solo_def gl_start_def)

lemma solo_turn:
  "n < 999 \<Longrightarrow> handleGameLogic sh (GlIncoming turn_ack) ((solo c refs GlTimers)\<lparr>gt_turnNumber := n, gt_sleeping := k\<rparr>)
    = GlStepped sh ((solo c refs GlTimers)\<lparr>gt_turnNumber := n + 1, gt_sleeping := Suc k\<rparr>) [SendNewTurn 0 (example_turn n)]"
  by (simp add: handleGameLogic_def gameLogicGameControlTimers_def Let_def solo_def gl_start_def
      handleGLDoTurnAckReception_def initialTotalNbPlayers_def example_acks handleGlForwardTurnToClients_def example_turn_def)

text \<open>The same game in fast mode: the first turn is ordered, the turn is sent, the action is received and ordered.\<close>

definition swift :: "Client \<Rightarrow> pref list \<Rightarrow> gl_pc \<Rightarrow> gl_thread" where
  "swift c refs pc = (solo c refs pc)\<lparr>gt_fast := True\<rparr>"

definition swift_ready :: "Client \<Rightarrow> pref list \<Rightarrow> gl_thread" where
  "swift_ready c refs = (swift c refs GlFastAck)\<lparr>gt_connectedPlayers := [(0, 1)]\<rparr>"

definition swift_second :: "Client \<Rightarrow> pref list \<Rightarrow> gl_thread" where
  "swift_second c refs = (swift_ready c refs)\<lparr>gt_turnNumber := 1, gt_actionReceived := [(0, False)], gt_pc := GlFastActions\<rparr>"

definition swift_ordered :: "Client \<Rightarrow> pref list \<Rightarrow> gl_thread" where
  "swift_ordered c refs = (swift_second c refs)\<lparr>gt_actionReceived := [(0, True)],
     gt_client := snd (sendDoTurn c [bob_action]), gt_pc := GlFastAck\<rparr>"

lemma swift_init_ack:
  "pv_playerID (gh_pvs sh 0) = 0 \<Longrightarrow> handleGameLogic sh (GlIncoming init_ack) (swift c refs GlWaitInitAck)
    = GlStepped sh (swift_ready (snd (sendDoTurn c [])) refs) [SendGameStarts 0 example_starts]"
  by (simp add: handleGameLogic_def gl_wait_init_ack_def example_acks game_control_def swift_def swift_ready_def solo_def gl_start_def
      game_starts_ops_def game_starts_msg_def example_starts_def order_turn_def initialTotalNbPlayers_def)

lemma swift_turn:
  "handleGameLogic sh (GlIncoming turn_ack) (swift_ready c refs)
    = GlStepped sh (swift_second c refs) [SendNewTurn 0 (example_turn 0)]"
  by (simp add: handleGameLogic_def fast_await_ack_def Let_def swift_def swift_ready_def swift_second_def solo_def gl_start_def
      handleGLDoTurnAckReception_def initialTotalNbPlayers_def example_acks handleGlForwardTurnToClients_def example_turn_def
      fast_wait_def areAllValuesTrue_def)

lemma swift_action:
  "handleGameLogic sh (GlPlayerAction bob_action) (swift_second c refs) = GlStepped sh (swift_ordered c refs) []"
  by (simp add: handleGameLogic_def fast_await_actions_def swift_def swift_ready_def swift_second_def swift_ordered_def
      solo_def gl_start_def fast_wait_def areAllValuesTrue_def order_turn_def bob_action_def)

definition bob_turn :: out_msg where
  "bob_turn = ODoTurn \<lparr>dt_MessageType = ''DO_TURN'', dt_PlayerActions = [bob_action]\<rparr>"

lemma swift_ordered_sent:
  "healthy (cl_writer c) \<Longrightarrow> bob_turn \<in> set (sent (gt_client (swift_ordered c refs))) \<and> gt_fast (swift_ordered c refs)"
  using example_do_turn [of c "[bob_action]"]
  by (simp add: swift_ordered_def swift_second_def swift_ready_def swift_def bob_turn_def)

text \<open>The player receives GAME_STARTS and the first turn, answers it, or leaves.\<close>

lemma solo_kind: "pv_isPlayer (sh_pv example_shared) = one_player 0"
  by (simp add: example_shared_def new_player_def one_player_def)

lemma solo_leaves:
  assumes "pt_pc th = PvLoop"
  shows "\<exists>sh' th'. pv_step example_shared (PvIncoming (failed_message err)) th = PvStepped sh' th' [] \<and> pt_pc th' = PvReturned"
proof -
  have "\<exists>sh' th'. pv_kicked example_shared th (pt_client th) r [] = PvStepped sh' th' [] \<and> pt_pc th' = PvReturned" for r
    by (simp add: pv_kicked_def KickLoggedPlayerOrVisu_def Let_def tell_disconnected_def)
      (simp add: example_shared_def bob_server_def small_server_def seat_def)
  with assms show ?thesis
    by (simp add: pv_step_def handlePlayerOrVisu_def pv_on_incoming_def failed_message_def)
qed

text \<open>Moves of the example, seen from what they change.\<close>

lemma solo_move:
  assumes "solo_reach s" "sys_move one_player mv s s'"
  shows "solo_reach s'"
proof -
  have "sys_step one_player s s'" using assms(2) unfolding sys_step_def ..
  with assms(1) show ?thesis unfolding solo_reach_def by (rule reach_step)
qed

lemma solo_gl_move:
  assumes "solo_reach s" "sy_todo s = []" "gl_receives e s = Some s1"
    "handleGameLogic solo_shared e (sy_gl s) = GlStepped sh th ops"
  shows "solo_reach (s1\<lparr>sy_gl := th, sy_todo := ops\<rparr>)"
proof -
  have "sys_move one_player (GlMove e solo_shared sh) s (s1\<lparr>sy_gl := th, sy_todo := sy_todo s @ ops\<rparr>)"
    using assms(2-4) solo_start_ok by (intro sys_gl_event) simp_all
  from solo_move [OF assms(1) this] assms(2) show ?thesis by simp
qed

lemma solo_asked:
  "\<exists>s c refs. solo_reach s \<and> sy_gl s = solo c refs GlWaitInitAck \<and> healthy (cl_writer c) \<and> sy_todo s = []
     \<and> sy_pvs s 0 = pv_start example_client \<and> sy_turns s 0 = [] \<and> sy_owed s 0 = [] \<and> sy_actions s = [] \<and> sy_done s = []"
proof -
  let ?s = "sys_init logic (\<lambda>_. example_client)"
  have "healthy (cl_writer logic)" by (simp add: logic_def bob_def new_client_def healthy_def)
  from solo_gl [OF solo_shared_state(1) this] solo_shared_state(3) solo_timers
  obtain sh c refs where g: "handleGameLogic solo_shared (GlStart [0]) (gl_start logic) = GlStepped sh (solo c refs GlWaitInitAck) []"
    "healthy (cl_writer c)" by auto
  have "solo_reach ?s" unfolding solo_reach_def by (rule reach_init)
  from solo_gl_move [OF this, of "GlStart [0]" ?s sh "solo c refs GlWaitInitAck" "[]"] g
  have "solo_reach (?s\<lparr>sy_gl := solo c refs GlWaitInitAck, sy_todo := []\<rparr>)" by (simp add: sys_init_def)
  with g(2) show ?thesis
    by (intro exI [of _ "?s\<lparr>sy_gl := solo c refs GlWaitInitAck, sy_todo := []\<rparr>"] exI [of _ c] exI [of _ refs])
      (simp add: sys_init_def)
qed

lemma solo_leaves_sys:
  assumes "solo_reach s" "pt_pc (sy_pvs s 0) = PvLoop" "sy_owed s 0 = []"
  shows "\<exists>s'. solo_reach s' \<and> pt_pc (sy_pvs s' 0) = PvReturned \<and> sy_owed s' 0 = [] \<and> sy_gl s' = sy_gl s \<and> sy_todo s' = sy_todo s
    \<and> sy_turns s' = sy_turns s \<and> sy_actions s' = sy_actions s \<and> sy_done s' = sy_done s"
proof -
  obtain sh' th' where p: "pv_step example_shared (PvIncoming (failed_message ''EOF'')) (sy_pvs s 0) = PvStepped sh' th' []"
    "pt_pc th' = PvReturned" using solo_leaves [OF assms(2)] by blast
  have "sys_move one_player (PvMove 0 (PvIncoming (failed_message ''EOF'')) example_shared sh') s
      (pv_moves 0 (PvIncoming (failed_message ''EOF'')) th' [] s)"
    using assms(3) solo_kind p(1) by (rule sys_pv_incoming)
  from solo_move [OF assms(1) this] p(2) show ?thesis
    by (intro exI [of _ "pv_moves 0 (PvIncoming (failed_message ''EOF'')) th' [] s"]) (simp add: pv_moves_def)
qed

text \<open>The game runs: GAME_STARTS was received and the first turn is ordered.\<close>

lemma solo_playing:
  assumes "pv_step example_shared (PvGameStarts example_starts) (pv_start example_client) = PvStepped example_shared th1 []"
  shows "\<exists>s c refs. solo_reach s \<and> sy_gl s = solo c refs GlTimers \<and> healthy (cl_writer c) \<and> sy_todo s = []
     \<and> sy_pvs s 0 = th1 \<and> sy_turns s 0 = [] \<and> sy_owed s 0 = [] \<and> sy_actions s = [] \<and> exits (sy_done s) = []"
proof -
  obtain s c refs where s: "solo_reach s" "sy_gl s = solo c refs GlWaitInitAck" "healthy (cl_writer c)" "sy_todo s = []"
    "sy_pvs s 0 = pv_start example_client" "sy_turns s 0 = []" "sy_owed s 0 = []" "sy_actions s = []" "sy_done s = []"
    using solo_asked by blast
  let ?s1 = "s\<lparr>sy_gl := solo c refs GlSleepFirst, sy_todo := [SendGameStarts 0 example_starts]\<rparr>"
  have 1: "solo_reach ?s1"
    by (rule solo_gl_move [OF s(1,4), of "GlIncoming init_ack"]) (simp_all add: s(2) solo_init_ack solo_shared_state(2))
  let ?s2 = "pv_moves 0 (PvGameStarts example_starts) th1 [] (?s1\<lparr>sy_todo := [], sy_done := [SendGameStarts 0 example_starts]\<rparr>)"
  have "sys_move one_player (PvMove 0 (PvGameStarts example_starts) example_shared example_shared) ?s1
      (pv_moves 0 (PvGameStarts example_starts) th1 [] (?s1\<lparr>sy_todo := [], sy_done := sy_done ?s1 @ [SendGameStarts 0 example_starts]\<rparr>))"
    by (rule sys_gl_starts [where rest = "[]"]) (simp_all add: s assms solo_kind)
  with solo_move [OF 1] have 2: "solo_reach ?s2" by (simp add: s(9))
  have "solo_reach (?s2\<lparr>sy_gl := solo (snd (sendDoTurn c [])) refs GlTimers, sy_todo := []\<rparr>)"
    by (rule solo_gl_move [OF 2, of GlSlept]) (simp_all add: solo_slept)
  moreover have "healthy (cl_writer (snd (sendDoTurn c [])))" using example_do_turn [OF s(3)] by blast
  ultimately show ?thesis
    by (intro exI [of _ "?s2\<lparr>sy_gl := solo (snd (sendDoTurn c [])) refs GlTimers, sy_todo := []\<rparr>"]
        exI [of _ "snd (sendDoTurn c [])"] exI [of _ refs]) (simp add: s pv_moves_def)
qed

text \<open>One more turn goes into the channel of the player, whether or not the player receives it.\<close>

lemma solo_next_turn:
  assumes "solo_reach s" "sy_gl s = (solo c refs GlTimers)\<lparr>gt_turnNumber := int n, gt_sleeping := k\<rparr>" "sy_todo s = []" "n < 999"
  shows "solo_reach (s\<lparr>sy_gl := (solo c refs GlTimers)\<lparr>gt_turnNumber := int (Suc n), gt_sleeping := Suc k\<rparr>,
      sy_todo := [SendNewTurn 0 (example_turn (int n))]\<rparr>)"
    "length (sy_turns s 0) < newTurn_capacity \<Longrightarrow>
      solo_reach (s\<lparr>sy_gl := (solo c refs GlTimers)\<lparr>gt_turnNumber := int (Suc n), gt_sleeping := Suc k\<rparr>,
        sy_turns := (sy_turns s)(0 := sy_turns s 0 @ [example_turn (int n)]),
        sy_done := sy_done s @ [SendNewTurn 0 (example_turn (int n))]\<rparr>)"
proof -
  let ?s = "s\<lparr>sy_gl := (solo c refs GlTimers)\<lparr>gt_turnNumber := int (Suc n), gt_sleeping := Suc k\<rparr>,
      sy_todo := [SendNewTurn 0 (example_turn (int n))]\<rparr>"
  show 1: "solo_reach ?s"
    by (rule solo_gl_move [OF assms(1,3), of "GlIncoming turn_ack" _ solo_shared])
      (use assms(4) in \<open>simp_all add: assms(2) solo_turn add.commute\<close>)
  assume "length (sy_turns s 0) < newTurn_capacity"
  then have "sys_move one_player SendMove ?s (?s\<lparr>sy_todo := [], sy_done := sy_done ?s @ [SendNewTurn 0 (example_turn (int n))],
      sy_turns := (sy_turns ?s)(0 := sy_turns ?s 0 @ [example_turn (int n)])\<rparr>)"
    by (intro sys_gl_turn) simp_all
  from solo_move [OF 1 this] assms(3) show "solo_reach (s\<lparr>sy_gl := (solo c refs GlTimers)\<lparr>gt_turnNumber := int (Suc n), gt_sleeping := Suc k\<rparr>,
        sy_turns := (sy_turns s)(0 := sy_turns s 0 @ [example_turn (int n)]),
        sy_done := sy_done s @ [SendNewTurn 0 (example_turn (int n))]\<rparr>)"
    by (cases s) simp
qed

section \<open>Waiting for a client that has left\<close>

text \<open>
  The game logic goroutine is at a send to a client whose goroutine has left its loop: GAME_STARTS on
  the unbuffered channel, or a turn on a channel that is full.
\<close>

definition waits_for :: "cid \<Rightarrow> sys \<Rightarrow> bool" where
  "waits_for c s \<longleftrightarrow> pt_pc (sy_pvs s c) \<noteq> PvLoop
     \<and> ((\<exists>m rest. sy_todo s = SendGameStarts c m # rest)
        \<or> (\<exists>t rest. sy_todo s = SendNewTurn c t # rest \<and> newTurn_capacity \<le> length (sy_turns s c)))"

lemma timer_steps:
  "is_timer e \<Longrightarrow> handleGameLogic sh e th = GlStepped sh' th' ops \<Longrightarrow> ops = [] \<and> gt_pc th' = gt_pc th"
  by (auto simp: is_timer_def handleGameLogic_def timer_send_def timer_reset_def split: nat.splits)

lemma pv_step_left:
  "pv_step sh e th = PvStepped sh' th' ops \<Longrightarrow> pt_pc th \<noteq> PvLoop \<Longrightarrow> pt_pc th' \<noteq> PvLoop"
  by (cases e; cases "pt_pc th") (auto simp: pv_step_def waitPlayerOrVisuFinition_def)

lemma waits_for_move:
  assumes "sys_move player mv s s'" "waits_for c s"
  shows "waits_for c s' \<and> sy_todo s' = sy_todo s \<and> sy_done s' = sy_done s \<and> gt_pc (sy_gl s') = gt_pc (sy_gl s)"
  using assms(1)
proof cases
  case (sys_gl_event e gsh s1 gsh' th ops)
  with assms(2) have "is_timer e" by (auto simp: waits_for_def)
  with assms(2) timer_steps [OF this sys_gl_event(6)] gl_receives_frame [OF sys_gl_event(5)] sys_gl_event(2) show ?thesis
    by (auto simp: waits_for_def)
next
  case (sys_gl_starts d m rest sh sh' th ops)
  with pv_step_loop [OF sys_gl_starts(6)] assms(2) show ?thesis by (auto simp: waits_for_def)
next
  case (sys_pv_turn d t rest sh sh' th ops)
  with pv_step_loop [OF sys_pv_turn(6)] assms(2) show ?thesis by (auto simp: waits_for_def pv_moves_def)
next
  case (sys_pv_ends d g rest sh sh' th ops)
  with pv_step_loop [OF sys_pv_ends(6)] assms(2) show ?thesis by (auto simp: waits_for_def pv_moves_def)
qed (use assms(2) in \<open>auto simp: waits_for_def pv_moves_def dest: pv_step_left\<close>)

interpretation departed: standstill "sys_step player" "waits_for c"
    "\<lambda>s. (sy_todo s, sy_done s, gt_pc (sy_gl s))" for player c
  by unfold_locales (use waits_for_move in \<open>auto simp: sys_step_def\<close>)

text \<open>The player leaves before GAME_STARTS, or in the game: then its channel fills up.\<close>

lemma solo_departure:
  "\<exists>s m. solo_reach s \<and> waits_for 0 s \<and> exits (sy_done s) = [] \<and> sy_todo s = [SendGameStarts 0 m]"
proof -
  obtain s c refs where s: "solo_reach s" "sy_gl s = solo c refs GlWaitInitAck" "sy_todo s = []"
    "sy_pvs s 0 = pv_start example_client" "sy_owed s 0 = []" "sy_done s = []"
    using solo_asked by blast
  have "pt_pc (sy_pvs s 0) = PvLoop" by (simp add: s(4) pv_start_def)
  from solo_leaves_sys [OF s(1) this s(5)] obtain s1 where s1: "solo_reach s1" "pt_pc (sy_pvs s1 0) = PvReturned"
    "sy_gl s1 = sy_gl s" "sy_todo s1 = []" "sy_done s1 = []" using s by metis
  let ?s = "s1\<lparr>sy_gl := solo c refs GlSleepFirst, sy_todo := [SendGameStarts 0 example_starts]\<rparr>"
  have "solo_reach ?s"
    by (rule solo_gl_move [OF s1(1,4), of "GlIncoming init_ack"]) (simp_all add: s1(3) s(2) solo_init_ack solo_shared_state(2))
  with s1 show ?thesis by (intro exI [of _ ?s]) (auto simp: waits_for_def)
qed

lemma solo_filled:
  assumes "n \<le> newTurn_capacity"
  shows "\<exists>s c refs. solo_reach s \<and> sy_gl s = (solo c refs GlTimers)\<lparr>gt_turnNumber := int n, gt_sleeping := n\<rparr>
    \<and> sy_todo s = [] \<and> pt_pc (sy_pvs s 0) = PvReturned \<and> length (sy_turns s 0) = n \<and> exits (sy_done s) = []"
  using assms
proof (induction n)
  case 0
  obtain th1 where th1: "pv_step example_shared (PvGameStarts example_starts) (pv_start example_client) = PvStepped example_shared th1 []"
    "pt_pc th1 = PvLoop" by (rule example_steps [OF example_shared_facts])
  obtain s c refs where s: "solo_reach s" "sy_gl s = solo c refs GlTimers" "sy_todo s = []" "sy_pvs s 0 = th1"
    "sy_turns s 0 = []" "sy_owed s 0 = []" "exits (sy_done s) = []" using solo_playing [OF th1(1)] by blast
  have "pt_pc (sy_pvs s 0) = PvLoop" using s(4) th1(2) by simp
  from solo_leaves_sys [OF s(1) this s(6)] obtain s1 where "solo_reach s1" "pt_pc (sy_pvs s1 0) = PvReturned"
    "sy_gl s1 = sy_gl s" "sy_todo s1 = sy_todo s" "sy_turns s1 = sy_turns s" "sy_done s1 = sy_done s" by blast
  moreover have "solo c refs GlTimers = (solo c refs GlTimers)\<lparr>gt_turnNumber := int 0, gt_sleeping := 0\<rparr>"
    by (simp add: solo_def gl_start_def)
  ultimately show ?case using s by (intro exI [of _ s1] exI [of _ c] exI [of _ refs]) simp
next
  case (Suc n)
  then obtain s c refs where s: "solo_reach s" "sy_gl s = (solo c refs GlTimers)\<lparr>gt_turnNumber := int n, gt_sleeping := n\<rparr>"
    "sy_todo s = []" "pt_pc (sy_pvs s 0) = PvReturned" "length (sy_turns s 0) = n" "exits (sy_done s) = []" by auto
  from Suc.prems have n: "n < 999" "length (sy_turns s 0) < newTurn_capacity"
    by (simp_all add: newTurn_capacity_def s(5))
  from solo_next_turn(2) [OF s(1-3) n] s show ?case
    by (intro exI [of _ "s\<lparr>sy_gl := (solo c refs GlTimers)\<lparr>gt_turnNumber := int (Suc n), gt_sleeping := Suc n\<rparr>,
        sy_turns := (sy_turns s)(0 := sy_turns s 0 @ [example_turn (int n)]),
        sy_done := sy_done s @ [SendNewTurn 0 (example_turn (int n))]\<rparr>"] exI [of _ c] exI [of _ refs]) simp
qed

lemma solo_full:
  "\<exists>s t. solo_reach s \<and> waits_for 0 s \<and> exits (sy_done s) = [] \<and> sy_todo s = [SendNewTurn 0 t]"
proof -
  obtain s c refs where s: "solo_reach s" "sy_gl s = (solo c refs GlTimers)\<lparr>gt_turnNumber := int newTurn_capacity, gt_sleeping := newTurn_capacity\<rparr>"
    "sy_todo s = []" "pt_pc (sy_pvs s 0) = PvReturned" "length (sy_turns s 0) = newTurn_capacity" "exits (sy_done s) = []"
    using solo_filled [of newTurn_capacity] by auto
  have "newTurn_capacity < 999" by (simp add: newTurn_capacity_def)
  from solo_next_turn(1) [OF s(1-3) this] s show ?thesis
    by (intro exI conjI) (assumption | simp add: waits_for_def)+
qed

section \<open>Answers that nobody receives\<close>

text \<open>
  The game logic goroutine has returned, and a player's goroutine is at a send to it on a channel that
  is full: an action, or in fast mode the number of a player that has left.
\<close>

definition unreceived :: "cid \<Rightarrow> sys \<Rightarrow> bool" where
  "unreceived c s \<longleftrightarrow> gt_pc (sy_gl s) = GlReturned
     \<and> ((\<exists>gl a rest. sy_owed s c = SendPlayerAction gl a # rest \<and> playerAction_capacity \<le> length (sy_actions s))
        \<or> (\<exists>gl i rest. sy_owed s c = SendPlayerDisconnected gl i # rest \<and> playerDisconnected_capacity \<le> length (sy_gone s)))"

definition goroutine_ended :: "sys \<Rightarrow> cid \<Rightarrow> bool" where
  "goroutine_ended s c \<longleftrightarrow> pt_pc (sy_pvs s c) = PvReturned \<and> sy_owed s c = []"

lemma returned_gl:
  assumes "handleGameLogic sh e th = GlStepped sh' th' ops" "gt_pc th = GlReturned"
  shows "is_timer e \<and> gt_pc th' = GlReturned \<and> ops = []"
  using assms by (cases e) (auto simp: handleGameLogic_def is_timer_def timer_send_def timer_reset_def order_turn_def split: nat.splits)

lemma unreceived_move:
  assumes "sys_move player mv s s'" "unreceived c s"
  shows "unreceived c s' \<and> sy_pvs s' c = sy_pvs s c \<and> sy_owed s' c = sy_owed s c"
  using assms(1)
proof cases
  case (sys_gl_event e gsh s1 gsh' th ops)
  have r: "gt_pc (sy_gl s) = GlReturned" using assms(2) by (simp add: unreceived_def)
  from returned_gl [OF sys_gl_event(6) r] have "s1 = s" "gt_pc th = GlReturned"
    using sys_gl_event(5) by (auto simp: is_timer_def)
  then show ?thesis using assms(2) sys_gl_event(2) by (simp add: unreceived_def)
qed (use assms(2) in \<open>auto simp: unreceived_def pv_moves_def\<close>)

interpretation unreceived: standstill "sys_step player" "unreceived c" "\<lambda>s. (sy_pvs s c, sy_owed s c)" for player c
  by unfold_locales (use unreceived_move in \<open>auto simp: sys_step_def\<close>)

text \<open>A player answers two turns; the game logic goroutine is told to terminate before it takes the answers.\<close>

lemma solo_takes:
  assumes "solo_reach s" "sy_turns s 0 = t # rest" "sy_owed s 0 = []"
    "pv_step example_shared (PvNewTurn t) (sy_pvs s 0) = PvStepped example_shared th2 []"
    "pv_step example_shared (PvIncoming m) th2 = PvStepped example_shared th3 ops"
  shows "\<exists>s'. solo_reach s' \<and> sy_pvs s' 0 = th3 \<and> sy_owed s' 0 = ops \<and> sy_turns s' 0 = rest
    \<and> sy_gl s' = sy_gl s \<and> sy_todo s' = sy_todo s \<and> sy_actions s' = sy_actions s"
proof -
  define s1 where "s1 = pv_moves 0 (PvNewTurn t) th2 [] (s\<lparr>sy_turns := (sy_turns s)(0 := rest)\<rparr>)"
  have "sys_move one_player (PvMove 0 (PvNewTurn t) example_shared example_shared) s s1"
    unfolding s1_def by (rule sys_pv_turn) (simp_all add: assms solo_kind)
  with assms(1) have 1: "solo_reach s1" by (rule solo_move)
  define s2 where "s2 = pv_moves 0 (PvIncoming m) th3 ops s1"
  have "sys_move one_player (PvMove 0 (PvIncoming m) example_shared example_shared) s1 s2"
    unfolding s2_def by (rule sys_pv_incoming) (simp_all add: s1_def pv_moves_def assms(5) solo_kind)
  with 1 have "solo_reach s2" by (rule solo_move)
  then show ?thesis by (intro exI [of _ s2]) (simp add: s2_def s1_def pv_moves_def)
qed

lemma solo_two_turns:
  assumes "pv_step example_shared (PvGameStarts example_starts) (pv_start example_client) = PvStepped example_shared th1 []"
  shows "\<exists>s c refs. solo_reach s \<and> sy_gl s = (solo c refs GlTimers)\<lparr>gt_turnNumber := int 2, gt_sleeping := 2\<rparr> \<and> sy_todo s = []
    \<and> sy_pvs s 0 = th1 \<and> sy_turns s 0 = [example_turn 0, example_turn 1] \<and> sy_owed s 0 = [] \<and> sy_actions s = []"
proof -
  obtain s c refs where s: "solo_reach s" "sy_gl s = solo c refs GlTimers" "sy_todo s = []" "sy_pvs s 0 = th1"
    "sy_turns s 0 = []" "sy_owed s 0 = []" "sy_actions s = []" using solo_playing [OF assms] by blast
  have g: "sy_gl s = (solo c refs GlTimers)\<lparr>gt_turnNumber := int 0, gt_sleeping := 0\<rparr>" by (simp add: s(2) solo_def gl_start_def)
  let ?g1 = "(solo c refs GlTimers)\<lparr>gt_turnNumber := int 1, gt_sleeping := Suc 0\<rparr>"
  obtain s1 where s1: "solo_reach s1" "sy_gl s1 = ?g1" "sy_todo s1 = []" "sy_pvs s1 0 = th1" "sy_turns s1 0 = [example_turn 0]"
    "sy_owed s1 0 = []" "sy_actions s1 = []"
    using solo_next_turn(2) [OF s(1) g s(3)] s by (fastforce simp: newTurn_capacity_def)
  obtain s2 where s2: "solo_reach s2" "sy_gl s2 = (solo c refs GlTimers)\<lparr>gt_turnNumber := int 2, gt_sleeping := 2\<rparr>" "sy_todo s2 = []"
    "sy_pvs s2 0 = th1" "sy_turns s2 0 = [example_turn 0, example_turn 1]" "sy_owed s2 0 = []" "sy_actions s2 = []"
    using solo_next_turn(2) [OF s1(1,2,3)] s1 by (fastforce simp: newTurn_capacity_def)
  then show ?thesis by blast
qed

lemma solo_unreceived: "\<exists>s. solo_reach s \<and> unreceived 0 s"
proof -
  obtain th1 where th1: "pv_step example_shared (PvGameStarts example_starts) (pv_start example_client) = PvStepped example_shared th1 []"
    "awaits_turn th1" by (rule example_begins [OF example_shared_facts(1,4)])
  obtain th2 th3 where th3: "pv_step example_shared (PvNewTurn (example_turn 0)) th1 = PvStepped example_shared th2 []"
    "pv_step example_shared (PvIncoming (answer 0)) th2 = PvStepped example_shared th3 [SendPlayerAction 2 \<lparr>pa_PlayerID = 0, pa_TurnNumber = 0, pa_Actions = []\<rparr>]"
    "awaits_turn th3" by (rule example_round [OF example_shared_facts(2,3) th1(2), of 0]) simp_all
  obtain th4 th5 where th5: "pv_step example_shared (PvNewTurn (example_turn 1)) th3 = PvStepped example_shared th4 []"
    "pv_step example_shared (PvIncoming (answer 1)) th4 = PvStepped example_shared th5 [SendPlayerAction 2 \<lparr>pa_PlayerID = 0, pa_TurnNumber = 1, pa_Actions = []\<rparr>]"
    by (rule example_round [OF example_shared_facts(2,3) th3(3), of 1]) simp_all
  obtain s2 c refs where s2: "solo_reach s2" "sy_gl s2 = (solo c refs GlTimers)\<lparr>gt_turnNumber := int 2, gt_sleeping := 2\<rparr>" "sy_todo s2 = []"
    "sy_pvs s2 0 = th1" "sy_turns s2 0 = [example_turn 0, example_turn 1]" "sy_owed s2 0 = []" "sy_actions s2 = []"
    using solo_two_turns [OF th1(1)] by blast
  obtain s3 where s3: "solo_reach s3" "sy_pvs s3 0 = th3" "sy_owed s3 0 = [SendPlayerAction 2 \<lparr>pa_PlayerID = 0, pa_TurnNumber = 0, pa_Actions = []\<rparr>]"
    "sy_turns s3 0 = [example_turn 1]" "sy_gl s3 = sy_gl s2" "sy_todo s3 = []" "sy_actions s3 = []"
    using solo_takes [OF s2(1,5,6) th3(1) [folded s2(4)] th3(2)] s2(3,7) by auto
  let ?s4 = "s3\<lparr>sy_owed := (sy_owed s3)(0 := []), sy_actions := sy_actions s3 @ [\<lparr>pa_PlayerID = 0, pa_TurnNumber = 0, pa_Actions = []\<rparr>]\<rparr>"
  have "sys_move one_player SendMove s3 ?s4" by (rule sys_pv_action) (simp_all add: s3 playerAction_capacity_def)
  with s3(1) have 4: "solo_reach ?s4" by (rule solo_move)
  obtain s5 where s5: "solo_reach s5" "sy_owed s5 0 = [SendPlayerAction 2 \<lparr>pa_PlayerID = 0, pa_TurnNumber = 1, pa_Actions = []\<rparr>]"
    "sy_gl s5 = sy_gl s2" "sy_todo s5 = []" "length (sy_actions s5) = 1"
    using solo_takes [OF 4, of "example_turn 1" "[]", OF _ _ _ th5(2)] th5(1) s3 by auto
  have "\<exists>th. handleGameLogic solo_shared (GlCanTerminate ''netorcai abort'') (sy_gl s5) = GlStepped solo_shared th [] \<and> gt_pc th = GlReturned"
    by (simp add: s5(3) s2(2) handleGameLogic_def gameLogicGameControlTimers_def gl_terminate_def solo_def)
  then obtain th where "handleGameLogic solo_shared (GlCanTerminate ''netorcai abort'') (sy_gl s5) = GlStepped solo_shared th []" "gt_pc th = GlReturned"
    by blast
  with solo_gl_move [OF s5(1,4), of "GlCanTerminate ''netorcai abort''" s5 solo_shared th "[]"] s5 show ?thesis
    by (intro exI [of _ "s5\<lparr>sy_gl := th, sy_todo := []\<rparr>"]) (simp add: unreceived_def playerAction_capacity_def)
qed

section \<open>Properties\<close>

text \<open>
  C35. The game waits for ever for a client that has left: when the game logic goroutine is at
  GAME_STARTS, which goes over an unbuffered channel, for such a client, or at a turn for such a client
  whose channel holds 100 turns already, it is there in every later state of the system; it gives no
  further message to any client and never tells the main goroutine to exit.
\<close>

theorem departed_client_stops_game:
  assumes "waits_for c s" "(sys_step player)\<^sup>*\<^sup>* s s'"
  shows "waits_for c s' \<and> sy_done s' = sy_done s \<and> sy_todo s' = sy_todo s \<and> gt_pc (sy_gl s') = gt_pc (sy_gl s)"
  using departed.for_ever [OF assms(2,1)] by simp

theorem departed_client_stops_game_witness:
  "(\<exists>s m. solo_reach s \<and> sy_todo s = [SendGameStarts 0 m]
      \<and> (\<forall>s'. (sys_step one_player)\<^sup>*\<^sup>* s s' \<longrightarrow> exits (sy_done s') = []))
   \<and> (\<exists>s t. solo_reach s \<and> sy_todo s = [SendNewTurn 0 t]
      \<and> (\<forall>s'. (sys_step one_player)\<^sup>*\<^sup>* s s' \<longrightarrow> exits (sy_done s') = []))"
  using solo_departure solo_full departed_client_stops_game [of 0 _ one_player] by metis

text \<open>
  C37. An answer that nobody receives keeps the program from ending: when the game logic goroutine has
  returned, and the goroutine of a player is at the send of an action (or, in fast mode, of its own
  departure) on a channel that is full, it stays there in every later state; it does not receive the
  order to terminate and never ends, so that the wait group of the program never gets to zero.
\<close>

theorem unreceived_answer_waits:
  assumes "unreceived c s" "(sys_step player)\<^sup>*\<^sup>* s s'"
  shows "\<not> goroutine_ended s' c \<and> sy_pvs s' c = sy_pvs s c \<and> sy_owed s' c = sy_owed s c"
  using unreceived.for_ever [OF assms(2,1)] by (auto simp: unreceived_def goroutine_ended_def)

theorem unreceived_answer_waits_witness:
  "\<exists>s. solo_reach s \<and> gt_pc (sy_gl s) = GlReturned \<and> (\<forall>s'. (sys_step one_player)\<^sup>*\<^sup>* s s' \<longrightarrow> \<not> goroutine_ended s' 0)"
proof -
  obtain s where s: "solo_reach s" "unreceived 0 s" using solo_unreceived by blast
  then have "gt_pc (sy_gl s) = GlReturned" by (simp add: unreceived_def)
  with s(1) unreceived_answer_waits [OF s(2), of one_player] show ?thesis by blast
qed

end
