(* ===== verification/Json_Roundtrip.thy ===== *)
theory Json_Roundtrip
  imports Json
begin

text \<open>
  What one end of a connection marshals, the other end reads back: the UTF-8 encoder inverts the
  decoder, a string literal denotes the string it quotes, and the text of a value without numbers
  is parsed to that value.  Bytes that are not UTF-8 come back as the replacement rune.
\<close>

section \<open>UTF-8: encoding inverts decoding\<close>

lemma split_mod: "x < n \<Longrightarrow> (k * n + x) mod n = (x::nat)"
  by simp

lemma split_div: "x < n \<Longrightarrow> (k * n + x) div n = (k::nat)"
  by simp

lemma byte_split:
  "128 \<le> b \<Longrightarrow> b \<le> (191::nat) \<Longrightarrow> \<exists>y. b = 128 + y \<and> y < 64 \<and> b mod 64 = y"
  using split_mod [of "b - 128" 64 2] by (intro exI [of _ "b - 128"]) simp

lemma encode2:
  assumes "194 \<le> a" "a \<le> (223::nat)" "128 \<le> b" "b \<le> 191"
  shows "EncodeRune ((a mod 32) * 64 + b mod 64) = [char_of a, char_of b]
    \<and> 128 \<le> (a mod 32) * 64 + b mod 64"
proof -
  obtain x where x: "a = 192 + x" "2 \<le> x" "x < 32" "a mod 32 = x" using assms(1,2) split_mod [of "a - 192" 32 6]
    by (intro that [of "a - 192"]) simp_all
  obtain y where y: "b = 128 + y" "y < 64" "b mod 64 = y" using byte_split [OF assms(3,4)] by blast
  have "x * 64 + y < 2048" "128 \<le> x * 64 + y" using x(2,3) y(2) by linarith+
  then show ?thesis
    unfolding x(4) y(3) EncodeRune_def using split_mod [OF y(2)] split_div [OF y(2)]
    by (simp add: Let_def x(1) y(1))
qed

lemma encode3:
  assumes a: "224 \<le> a" "a \<le> (239::nat)" and b: "128 \<le> b" "b \<le> 191" and c: "128 \<le> c" "c \<le> 191"
    and low: "a = 224 \<longrightarrow> 160 \<le> b" and sur: "a = 237 \<longrightarrow> b \<le> 159"
  shows "EncodeRune ((a mod 16) * 4096 + (b mod 64) * 64 + c mod 64) = [char_of a, char_of b, char_of c]
    \<and> 128 \<le> (a mod 16) * 4096 + (b mod 64) * 64 + c mod 64"
proof -
  obtain x where x: "a = 224 + x" "x < 16" "a mod 16 = x" using a split_mod [of "a - 224" 16 14]
    by (intro that [of "a - 224"]) simp_all
  obtain y z where y: "b = 128 + y" "y < 64" "b mod 64 = y" and z: "c = 128 + z" "z < 64" "c mod 64 = z"
    using byte_split [OF b] byte_split [OF c] by blast
  let ?r = "x * 4096 + y * 64 + z"
  have r64: "?r = (x * 64 + y) * 64 + z" and r4096: "?r = x * 4096 + (y * 64 + z)" by simp_all
  have div: "?r mod 64 = z" "?r div 64 = x * 64 + y" "?r div 4096 = x"
    using split_mod [OF z(2)] split_div [OF z(2)] split_div [of "y * 64 + z" 4096 x] y(2) z(2)
    by (simp_all only: r64) (simp add: algebra_simps)
  have "\<not> (55296 \<le> ?r \<and> ?r \<le> 57343)"
  proof
    assume r: "55296 \<le> ?r \<and> ?r \<le> 57343"
    then have "\<not> x \<le> 12" "x \<le> 13" using y(2) z(2) by linarith+
    then have "x = 13" by simp
    with r x(1) y(1) z(2) sur show False by simp
  qed
  moreover have "?r < 65536" "2048 \<le> ?r" using x(1,2) y(1,2) z(2) low by linarith+
  ultimately show ?thesis
    unfolding x(3) y(3) z(3) EncodeRune_def Let_def div split_mod [OF y(2)]
    using y(2) z(2) by (auto simp: div x(1) y(1) z(1))
qed


lemma encode4:
  assumes a: "240 \<le> a" "a \<le> (244::nat)" and b: "128 \<le> b" "b \<le> 191" and c: "128 \<le> c" "c \<le> 191"
    and d: "128 \<le> d" "d \<le> 191" and low: "a = 240 \<longrightarrow> 144 \<le> b" and high: "a = 244 \<longrightarrow> b \<le> 143"
  shows "EncodeRune ((a mod 8) * 262144 + (b mod 64) * 4096 + (c mod 64) * 64 + d mod 64)
    = [char_of a, char_of b, char_of c, char_of d]
    \<and> 128 \<le> (a mod 8) * 262144 + (b mod 64) * 4096 + (c mod 64) * 64 + d mod 64"
proof -
  obtain x where x: "a = 240 + x" "x < 5" "a mod 8 = x" using a split_mod [of "a - 240" 8 30]
    by (intro that [of "a - 240"]) simp_all
  obtain y z w where y: "b = 128 + y" "y < 64" "b mod 64 = y" and z: "c = 128 + z" "z < 64" "c mod 64 = z"
    and w: "d = 128 + w" "w < 64" "d mod 64 = w"
    using byte_split [OF b] byte_split [OF c] byte_split [OF d] by blast
  let ?r = "x * 262144 + y * 4096 + z * 64 + w"
  have r64: "?r = ((x * 64 + y) * 64 + z) * 64 + w" by simp
  have d1: "?r mod 64 = w" "?r div 64 = (x * 64 + y) * 64 + z"
    using split_mod [OF w(2)] split_div [OF w(2)] by (simp_all only: r64)
  have d2: "?r div 4096 = x * 64 + y" "?r div 262144 = x"
    using split_div [of "z * 64 + w" 4096 "x * 64 + y"] split_div [of "y * 4096 + z * 64 + w" 262144 x]
      y(2) z(2) w(2)
    by (simp_all add: algebra_simps)
  have "?r \<le> 1114111" "65536 \<le> ?r" using x(1,2) y(1,2) z(2) w(2) low high by linarith+
  moreover have "?r div 4096 mod 64 = y" "?r div 64 mod 64 = z"
    unfolding d1 d2 by (rule split_mod [OF y(2)], rule split_mod [OF z(2)])
  ultimately show ?thesis
    unfolding x(3) y(3) z(3) w(3) EncodeRune_def Let_def
    using d1(1) d2(2) by (auto simp: x(1) y(1) z(1) w(1))
qed


text \<open>What a decoded rune is: ASCII, a multi-byte sequence that encodes it, or one invalid byte.\<close>

definition proper_rune :: "rune \<times> string \<Rightarrow> bool" where
  "proper_rune x \<longleftrightarrow> (case x of (r, bs) \<Rightarrow> 128 \<le> r \<and> bs \<noteq> [] \<and> 128 \<le> (of_char (hd bs) :: nat)
     \<and> length bs \<noteq> 1 \<and> EncodeRune r = bs \<and> (\<forall>t. DecodeRune (map of_char (bs @ t)) = (r, length bs)))"

lemma DecodeRune_cases:
  assumes "s \<noteq> []" "DecodeRune (map of_char s) = (r, w)"
  shows "r < 128 \<and> take w s = [char_of r] \<or> r = RuneError \<and> w = 1 \<or> proper_rune (r, take w s)"
proof -
  obtain c0 s0 where s: "s = c0 # s0" using assms(1) by (cases s) auto
  let ?a = "of_char c0 :: nat"
  show ?thesis
  proof (cases "?a < 128 \<or> (r = RuneError \<and> w = 1)")
    case True
    with assms(2) s show ?thesis by (auto simp: DecodeRune_def)
  next
    case False
    with assms(2) s obtain sz lo hi c1 s1 where 1: "first_byte ?a = Some (sz, lo, hi)" "s0 = c1 # s1"
      "lo \<le> of_char c1" "(of_char c1 :: nat) \<le> hi"
      by (auto simp: DecodeRune_def split: option.splits list.splits if_splits)
    let ?b = "of_char c1 :: nat"
    have b: "128 \<le> ?b" "?b \<le> 191" using 1 by (auto simp: first_byte_def split: if_splits)
    have a: "\<not> ?a < 128" using False by simp
    from 1(1) consider (two) "sz = 2" "194 \<le> ?a" "?a \<le> 223"
      | (three) "sz = 3" "224 \<le> ?a" "?a \<le> 239" "?a = 224 \<longrightarrow> lo = 160" "?a = 237 \<longrightarrow> hi = 159"
      | (four) "sz = 4" "240 \<le> ?a" "?a \<le> 244" "?a = 240 \<longrightarrow> lo = 144" "?a = 244 \<longrightarrow> hi = 143"
      by (auto simp: first_byte_def split: if_splits)
    then have "proper_rune (r, take w s)"
    proof cases
      case two
      have d: "DecodeRune (map of_char ([c0, c1] @ t)) = ((?a mod 32) * 64 + ?b mod 64, 2)" for t :: string
        using 1 two(1) a by (simp add: DecodeRune_def)
      from d [of s1] assms(2) s 1(2) have "r = (?a mod 32) * 64 + ?b mod 64" "w = 2" by simp_all
      with d encode2 [OF two(2,3) b] s 1(2) a show ?thesis by (simp add: proper_rune_def)
    next
      case three
      with False assms(2) s 1 obtain c2 s2 where 2: "s1 = c2 # s2" "continuation (of_char c2)"
        by (auto simp: DecodeRune_def split: list.splits if_splits)
      let ?c = "of_char c2 :: nat"
      have c: "128 \<le> ?c" "?c \<le> 191" using 2(2) by (simp_all add: continuation_def)
      have d: "DecodeRune (map of_char ([c0, c1, c2] @ t))
          = ((?a mod 16) * 4096 + (?b mod 64) * 64 + ?c mod 64, 3)" for t :: string
        using 1 2 three(1) a by (simp add: DecodeRune_def)
      from d [of s2] assms(2) s 1(2) 2(1)
      have "r = (?a mod 16) * 4096 + (?b mod 64) * 64 + ?c mod 64" "w = 3" by simp_all
      moreover have "?a = 224 \<longrightarrow> 160 \<le> ?b" "?a = 237 \<longrightarrow> ?b \<le> 159" using three(4,5) 1(3,4) by auto
      ultimately show ?thesis
        using d encode3 [OF three(2,3) b c] s 1(2) 2(1) a by (simp add: proper_rune_def)
    next
      case four
      with False assms(2) s 1 obtain c2 c3 s3 where 2: "s1 = c2 # c3 # s3" "continuation (of_char c2)"
        "continuation (of_char c3)"
        by (auto simp: DecodeRune_def split: list.splits if_splits)
      let ?c = "of_char c2 :: nat" and ?d = "of_char c3 :: nat"
      have c: "128 \<le> ?c" "?c \<le> 191" "128 \<le> ?d" "?d \<le> 191" using 2(2,3) by (simp_all add: continuation_def)
      let ?r = "(?a mod 8) * 262144 + (?b mod 64) * 4096 + (?c mod 64) * 64 + ?d mod 64"
      have d: "DecodeRune (map of_char ([c0, c1, c2, c3] @ t)) = (?r, 4)" for t :: string
        using 1 2 four(1) a by (simp add: DecodeRune_def)
      from d [of s3] assms(2) s 1(2) 2(1) have "r = ?r" "w = 4" by simp_all
      moreover have "?a = 240 \<longrightarrow> 144 \<le> ?b" "?a = 244 \<longrightarrow> ?b \<le> 143" using four(4,5) 1(3,4) by auto
      ultimately show ?thesis
        using d encode4 [OF four(2,3) b c] s 1(2) 2(1) a by (simp add: proper_rune_def)
    qed
    then show ?thesis by blast
  qed
qed

section \<open>String literals\<close>

lemma runes_cases:
  "x \<in> set (runes s) \<Longrightarrow> (\<exists>r < 128. x = (r, [char_of r])) \<or> (\<exists>b. x = (RuneError, [b])) \<or> proper_rune x"
proof (induction s rule: runes.induct)
  case (1 s)
  show ?case
  proof (cases "s = []")
    case False
    obtain r w where d: "DecodeRune (map of_char s) = (r, w)" by fastforce
    have "runes s = (r, take w s) # runes (drop w s)" using False d by (subst runes.simps) simp
    with 1(2) consider "x = (r, take w s)" | "x \<in> set (runes (drop w s))" by auto
    then show ?thesis
    proof cases
      case 1
      moreover have "w = 1 \<Longrightarrow> \<exists>b. take w s = [b]" using False by (cases s) auto
      ultimately show ?thesis using DecodeRune_cases [OF False d] by auto
    next
      case 2
      with 1(1) [OF False d [symmetric] refl] show ?thesis .
    qed
  qed (use 1 in simp)
qed

text \<open>What a rune is read back as: an invalid byte is replaced.\<close>

definition clean_rune :: "rune \<times> string \<Rightarrow> string" where
  "clean_rune x = (if fst x = RuneError \<and> length (snd x) = 1 then EncodeRune RuneError else snd x)"

definition clean :: "string \<Rightarrow> string" where
  "clean s = concat (map clean_rune (runes s))"

definition valid_utf8 :: "string \<Rightarrow> bool" where
  "valid_utf8 s \<longleftrightarrow> list_all (\<lambda>x. \<not> (fst x = RuneError \<and> length (snd x) = 1)) (runes s)"

lemma clean_valid: "valid_utf8 s \<Longrightarrow> clean s = s"
proof -
  assume "valid_utf8 s"
  then have "map clean_rune (runes s) = map snd (runes s)"
    by (auto simp: valid_utf8_def list_all_iff clean_rune_def)
  then show ?thesis using text_bytes_runes [of s] by (simp only: clean_def text_bytes_def)
qed

lemma hex_value_digit: "hex_value (hex_digit n) = Some (n mod 16)"
proof -
  have "list_all (\<lambda>k. hex_value (''0123456789abcdef'' ! k) = Some k) [0..<16]" by code_simp
  then show ?thesis by (auto simp: list_all_iff hex_digit_def)
qed

lemma unicode_escape_byte:
  assumes "r < 128"
  shows "unicode_escape (''00'' @ [hex_digit (r div 16), hex_digit r] @ t) = Some (r, t)"
proof -
  have "hex_value CHR ''0'' = Some 0" by (simp add: hex_value_def digit_value_def)
  moreover have "r div 16 mod 16 * 16 + r mod 16 = r" using assms by simp
  ultimately show ?thesis using assms by (simp add: unicode_escape_def hex4_def hex_value_digit)
qed

lemma unicode_escape_separator:
  assumes "r = 8232 \<or> r = 8233"
  shows "unicode_escape (''202'' @ [hex_digit r] @ t) = Some (r, t)"
proof -
  have "hex_value CHR ''0'' = Some 0" "hex_value CHR ''2'' = Some 2"
    by (simp_all add: hex_value_def digit_value_def)
  then show ?thesis using assms by (auto simp: unicode_escape_def hex4_def hex_value_digit)
qed

lemma unicode_escape_error: "unicode_escape (''fffd'' @ t) = Some (RuneError, t)"
proof -
  have "hex_value CHR ''f'' = Some 15" "hex_value CHR ''d'' = Some 13"
    by (simp_all add: hex_value_def digit_value_def)
  then show ?thesis by (simp add: unicode_escape_def hex4_def RuneError_def)
qed


lemma string_chars_escape:
  "string_chars (backslash # e # t) = (case simple_escape e of
      Some x \<Rightarrow> map_option (\<lambda>(cs, r). (x # cs, r)) (string_chars t)
    | None \<Rightarrow> if e = CHR ''u'' then (case unicode_escape t of None \<Rightarrow> None
        | Some (r, t') \<Rightarrow> map_option (\<lambda>(cs, q). (EncodeRune r @ cs, q)) (string_chars t'))
      else None)"
  by (subst string_chars.simps) (simp add: backslash_def dquote_def)

lemma EncodeRune_ascii: "r < 128 \<Longrightarrow> EncodeRune r = [char_of r]"
  by (simp add: EncodeRune_def)

lemma string_chars_u:
  "unicode_escape u = Some (r, t) \<Longrightarrow> string_chars (backslash # CHR ''u'' # u)
     = map_option (\<lambda>(cs, q). (EncodeRune r @ cs, q)) (string_chars t)"
proof -
  have "simple_escape CHR ''u'' = None" by (simp add: simple_escape_def dquote_def backslash_def)
  then show "unicode_escape u = Some (r, t) \<Longrightarrow> ?thesis" by (simp add: string_chars_escape)
qed

lemma special_chars:
  "char_of (34::nat) = dquote" "char_of (92::nat) = backslash" "char_of (10::nat) = CHR 0x0A"
  "char_of (13::nat) = CHR 0x0D" "char_of (9::nat) = CHR 0x09"
  by code_simp+

lemma simple_escapes:
  "simple_escape CHR ''n'' = Some CHR 0x0A" "simple_escape CHR ''r'' = Some CHR 0x0D"
  "simple_escape CHR ''t'' = Some CHR 0x09"
  by code_simp+

lemma string_chars_ascii:
  assumes "r < 128"
  shows "string_chars (quote_rune (r, [char_of r]) @ t)
    = map_option (\<lambda>(cs, q). (char_of r # cs, q)) (string_chars t)"
proof -
  have c: "of_char (char_of r :: char) = r" using assms by (simp add: of_char_of)
  have e: "simple_escape dquote = Some dquote" "simple_escape backslash = Some backslash"
    by (simp_all add: simple_escape_def)
  consider (q) "r = 34" | (b) "r = 92" | "r = 10" | "r = 13" | "r = 9"
    | (u) "r \<noteq> 10" "r \<noteq> 13" "r \<noteq> 9" "r < 32 \<or> r = 60 \<or> r = 62 \<or> r = 38"
    | (plain) "32 \<le> r" "r \<noteq> 34" "r \<noteq> 92" "r \<noteq> 60" "r \<noteq> 62" "r \<noteq> 38"
    by linarith
  then show ?thesis
  proof cases
    case q
    then show ?thesis by (simp add: quote_rune_def special_chars string_chars_escape e)
  next
    case b
    then show ?thesis by (simp add: quote_rune_def special_chars string_chars_escape e)
  next
    case u
    then have "quote_rune (r, [char_of r]) @ t
        = backslash # CHR ''u'' # ''00'' @ [hex_digit (r div 16), hex_digit r] @ t"
      by (auto simp: quote_rune_def)
    then show ?thesis
      by (simp only: string_chars_u [OF unicode_escape_byte [OF assms]] EncodeRune_ascii [OF assms]) simp
  next
    case plain
    then have q: "quote_rune (r, [char_of r]) = [char_of r]" using assms by (simp add: quote_rune_def)
    have "char_of r \<noteq> dquote" "char_of r \<noteq> backslash"
      using plain(2,3) arg_cong [of "char_of r" dquote "of_char :: char \<Rightarrow> nat"]
        arg_cong [of "char_of r" backslash "of_char :: char \<Rightarrow> nat"] c
      by (auto simp: dquote_def backslash_def simp del: of_char_of)
    then show ?thesis using plain(1) assms unfolding q by (subst string_chars.simps) (simp add: c)
  qed (simp_all add: quote_rune_def string_chars_escape simple_escapes special_chars)
qed

lemma string_chars_rune:
  assumes "x \<in> set (runes s)"
  shows "string_chars (quote_rune x @ t) = map_option (\<lambda>(cs, q). (clean_rune x @ cs, q)) (string_chars t)"
  using runes_cases [OF assms]
proof (elim disjE exE conjE)
  fix r :: nat
  assume "r < 128" "x = (r, [char_of r])"
  with string_chars_ascii [of r t] show ?thesis by (simp add: clean_rune_def RuneError_def)
next
  fix b
  assume x: "x = (RuneError, [b])"
  then have "quote_rune x @ t = backslash # CHR ''u'' # ''fffd'' @ t"
    by (simp add: quote_rune_def RuneError_def)
  with x show ?thesis by (simp only: string_chars_u [OF unicode_escape_error]) (simp add: clean_rune_def)
next
  assume p: "proper_rune x"
  obtain r bs where x: "x = (r, bs)" by fastforce
  from p x have r: "128 \<le> r" "bs \<noteq> []" "128 \<le> (of_char (hd bs) :: nat)" "length bs \<noteq> 1" "EncodeRune r = bs"
    and d: "DecodeRune (map of_char (bs @ t)) = (r, length bs)"
    by (simp_all add: proper_rune_def)
  have cl: "clean_rune x = bs" using x r(4) by (simp add: clean_rune_def)
  show ?thesis
  proof (cases "r = 8232 \<or> r = 8233")
    case True
    then have "quote_rune x @ t = backslash # CHR ''u'' # ''202'' @ [hex_digit r] @ t"
      using r(4) by (auto simp: x quote_rune_def RuneError_def)
    then show ?thesis
      by (simp only: string_chars_u [OF unicode_escape_separator [OF True]] r(5) cl)
  next
    case False
    then have q: "quote_rune x = bs" using r(1,4) by (auto simp: x quote_rune_def)
    obtain c u where b: "bs = c # u" using r(2) by (cases bs) auto
    have c: "\<not> (of_char c :: nat) < 128" using r(3) b by simp
    then have "c \<noteq> dquote" "c \<noteq> backslash" by (auto simp: dquote_def backslash_def)
    with c d r(5) show ?thesis unfolding q cl by (subst string_chars.simps) (simp add: b)
  qed
qed

theorem string_chars_quote:
  "string_chars (concat (map quote_rune (runes s)) @ dquote # t) = Some (clean s, t)"
proof -
  have "string_chars (concat (map quote_rune xs) @ dquote # t) = Some (concat (map clean_rune xs), t)"
    if "set xs \<subseteq> set (runes s)" for xs
    using that
  proof (induction xs)
    case Nil
    show ?case by (subst string_chars.simps) simp
  next
    case (Cons x xs)
    then have "x \<in> set (runes s)" by simp
    with Cons show ?case by (simp add: string_chars_rune [of x s])
  qed
  then show ?thesis by (simp add: clean_def)
qed

section \<open>Integers\<close>

lemma show_nat_all_digits: "list_all is_digit (show_nat n)"
  by (auto simp: list_all_iff is_digit_def dest: show_nat_digits)

lemma digits_value_snoc: "digits_value (ds @ [c]) = 10 * digits_value ds + (of_char c - 48)"
  by (simp add: digits_value_def)

lemma digits_value_show_nat: "digits_value (show_nat n) = n"
proof (induction n rule: less_induct)
  case (less n)
  show ?case
  proof (cases "n < 10")
    case True
    then show ?thesis by (subst show_nat.simps) (simp add: digits_value_def of_char_of)
  next
    case False
    then have "digits_value (show_nat (n div 10)) = n div 10" by (intro less) simp
    with False show ?thesis by (subst show_nat.simps) (simp add: digits_value_snoc of_char_of)
  qed
qed

lemma take_all_digits:
  assumes "list_all is_digit ds" "t = [] \<or> \<not> is_digit (hd t)"
  shows "takeWhile is_digit (ds @ t) = ds" "dropWhile is_digit (ds @ t) = t"
  using assms by (induction ds) (auto simp: takeWhile_eq_Nil_iff dropWhile_eq_self_iff)

lemma hd_show_nat: "is_digit (hd (show_nat n))"
  using show_nat_all_digits [of n] by (cases "show_nat n") auto

lemma not_digits: "\<not> is_digit CHR ''-''" "\<not> is_digit CHR ''+''" "\<not> is_digit CHR ''.''" "\<not> is_digit CHR '',''"
  "\<not> is_digit CHR '']''" "\<not> is_digit CHR ''}''" "\<not> is_digit newline"
  by (simp_all add: is_digit_def newline_def)

lemma show_int_abs:
  obtains n where "n = nat \<bar>i\<bar>" "show_int i = (if i < 0 then CHR ''-'' # show_nat n else show_nat n)"
  by (rule that [of "nat \<bar>i\<bar>"]) (simp_all add: show_int_def)

lemma read_float_show_int: "read_float (show_int i) = Some (i < 0, of_nat (nat \<bar>i\<bar>))"
proof -
  obtain n where n: "n = nat \<bar>i\<bar>" "show_int i = (if i < 0 then CHR ''-'' # show_nat n else show_nat n)"
    by (rule show_int_abs)
  have d: "takeWhile is_digit (show_nat n) = show_nat n" "dropWhile is_digit (show_nat n) = []"
    using take_all_digits [OF show_nat_all_digits [of n], of "[]"] by (simp_all only: append_Nil2 simp_thms)
  have h: "hd (show_nat n) \<noteq> CHR ''-''" "hd (show_nat n) \<noteq> CHR ''+''"
    using hd_show_nat [of n] not_digits by metis+
  show ?thesis
    unfolding n(2) using h
    by (simp add: n(1) [symmetric] d read_float_def Let_def split_exponent_def digits_value_show_nat pow_int_def)
qed

lemma special_float_show_int: "special_float (show_int i) = None"
proof -
  obtain n where n: "n = nat \<bar>i\<bar>" "show_int i = (if i < 0 then CHR ''-'' # show_nat n else show_nat n)"
    by (rule show_int_abs)
  have *: "to_lower c = c" if "is_digit c" for c using that by (simp add: to_lower_def is_digit_def Let_def)
  have "map to_lower (show_nat n) = show_nat n"
    using show_nat_all_digits [of n] * by (intro map_idI) (simp add: list_all_iff)
  moreover have "to_lower CHR ''-'' = CHR ''-''" by (simp add: to_lower_def)
  ultimately have m: "map to_lower (show_int i) = show_int i" unfolding n(2) by simp
  have l: "is_digit (last (show_int i))"
    using show_nat_all_digits [of n] by (auto simp: n(2) list_all_iff)
  have "\<not> is_digit CHR ''n''" "\<not> is_digit CHR ''f''" "\<not> is_digit CHR ''y''" by (simp_all add: is_digit_def)
  with l show ?thesis unfolding special_float_def Let_def m by auto
qed

lemma ParseFloat_show_int:
  assumes "\<bar>i\<bar> < 2 ^ 53"
  shows "ParseFloat (show_int i) = Inr (float_of_int i)"
proof -
  have "round64 (i < 0) (of_nat (nat \<bar>i\<bar>)) = float_of_int i"
  proof (cases "i = 0")
    case True
    then show ?thesis by (simp add: round64_def float_of_int_def)
  next
    case False
    have "nat \<bar>i\<bar> < 2 ^ 53" using assms by (simp add: nat_less_iff)
    with False round64_of_nat [of "nat \<bar>i\<bar>" "i < 0"] show ?thesis
      by (cases "i < 0") (simp_all add: float_of_int_def)
  qed
  then show ?thesis
    by (simp add: ParseFloat_def special_float_show_int read_float_show_int float_of_int_def)
qed

text \<open>What may follow a value inside a text: a comma, a closing bracket or a line feed.\<close>

definition delimited :: "string \<Rightarrow> bool" where
  "delimited t \<longleftrightarrow> t \<noteq> [] \<and> hd t \<in> {CHR '','', CHR '']'', CHR ''}'', newline}"

lemma number_literal_show_int:
  assumes "delimited t"
  shows "number_literal (show_int i @ t) = Some (show_int i, t)"
proof -
  obtain n where n: "n = nat \<bar>i\<bar>" "show_int i = (if i < 0 then CHR ''-'' # show_nat n else show_nat n)"
    by (rule show_int_abs)
  obtain c u where t: "t = c # u" "c \<in> {CHR '','', CHR '']'', CHR ''}'', newline}"
    using assms by (cases t) (auto simp: delimited_def)
  have nd: "\<not> is_digit c" using t(2) not_digits by auto
  have fe: "frac_part t = Some ([], t)" "exp_part t = Some ([], t)"
    using t by (auto simp: frac_part_def exp_part_def newline_def)
  have ip: "int_part (show_nat n @ t) = Some (show_nat n, t)"
  proof (cases "n = 0")
    case True
    then show ?thesis by (simp add: int_part_def show_nat_0)
  next
    case False
    obtain x xs where s: "show_nat n = x # xs" by (cases "show_nat n") auto
    have "x \<noteq> CHR ''0''" using show_nat_head [of n] False s by simp
    then show ?thesis
      using take_all_digits [OF show_nat_all_digits [of n], of t] nd t(1) s
      by (simp add: int_part_def digits1_def)
  qed
  have h: "hd (show_nat n @ t) \<noteq> CHR ''-''" using hd_show_nat [of n] not_digits(1) by (metis hd_append2 show_nat_nonempty)
  with ip fe show ?thesis unfolding n(2) by (simp add: number_literal_def)
qed

section \<open>Values\<close>

text \<open>What the reader of a text makes of the value it was written for.\<close>

fun as_read :: "jval \<Rightarrow> jval"
  and as_read_elems :: "jval list \<Rightarrow> jval list"
  and as_read_fields :: "(string \<times> jval) list \<Rightarrow> (string \<times> jval) list" where
  "as_read JNull = JNull"
| "as_read (JBool b) = JBool b"
| "as_read (JNum f) = JNum f"
| "as_read (JInt i) = JNum (float_of_int i)"
| "as_read (JStr s) = JStr (clean s)"
| "as_read (JArr vs) = JArr (as_read_elems vs)"
| "as_read (JObj m) = JObj (fold (\<lambda>(k, v). map_put (clean k) v) (sort_key fst (as_read_fields m)) [])"
| "as_read (JStruct m) = JObj (fold (\<lambda>(k, v). map_put (clean k) v) (as_read_fields m) [])"
| "as_read_elems [] = []"
| "as_read_elems (v # vs) = as_read v # as_read_elems vs"
| "as_read_fields [] = []"
| "as_read_fields ((k, v) # m) = (k, as_read v) # as_read_fields m"

text \<open>Values whose numbers are integers of at most 53 bits, given as such.\<close>

fun plain_value :: "jval \<Rightarrow> bool" where
  "plain_value (JNum _) = False"
| "plain_value (JInt i) = (\<bar>i\<bar> < 2 ^ 53)"
| "plain_value (JArr vs) = (\<forall>v \<in> set vs. plain_value v)"
| "plain_value (JObj m) = (\<forall>v \<in> snd ` set m. plain_value v)"
| "plain_value (JStruct m) = (\<forall>v \<in> snd ` set m. plain_value v)"
| "plain_value _ = True"

lemma marshal_elems_map: "marshal_elems vs = map Marshal vs"
  by (induction vs) simp_all

lemma marshal_fields_map: "marshal_fields m = map (\<lambda>(k, v). (k, Marshal v)) m"
  by (induction m) auto

lemma received_elems_map: "as_read_elems vs = map as_read vs"
  by (induction vs) simp_all

lemma received_fields_map: "as_read_fields m = map (\<lambda>(k, v). (k, as_read v)) m"
  by (induction m) auto

lemma sort_key_map_snd: "sort_key fst (map (\<lambda>(k, v). (k, f v)) m) = map (\<lambda>(k, v). (k, f v)) (sort_key fst m)"
proof (induction m)
  case (Cons x m)
  have "insort_key fst (k, f v) (map (\<lambda>(k, v). (k, f v)) xs) = map (\<lambda>(k, v). (k, f v)) (insort_key fst (k, v) xs)"
    for k v xs by (induction xs) auto
  with Cons show ?case by (cases x) simp
qed simp

text \<open>A value is parsed in front of any text that delimits it.\<close>

definition reads_back :: "jval \<Rightarrow> bool" where
  "reads_back v \<longleftrightarrow> (\<forall>s t n. Marshal v = Inr s \<longrightarrow> delimited t \<longrightarrow> 2 * length (s @ t) < n
     \<longrightarrow> parse_value n (s @ t) = Some (as_read v, t))"

lemma reads_backD:
  "reads_back v \<Longrightarrow> Marshal v = Inr s \<Longrightarrow> delimited t \<Longrightarrow> 2 * length (s @ t) < n
     \<Longrightarrow> parse_value n (s @ t) = Some (as_read v, t)"
  unfolding reads_back_def by blast

lemma delimited_simps [simp]:
  "delimited (CHR '','' # t)" "delimited (CHR '']'' # t)" "delimited (CHR ''}'' # t)" "delimited (newline # t)"
  by (simp_all add: delimited_def)

lemma skip_ws_simps [simp]:
  "skip_ws (CHR '','' # t) = CHR '','' # t" "skip_ws (CHR '']'' # t) = CHR '']'' # t"
  "skip_ws (CHR ''}'' # t) = CHR ''}'' # t" "skip_ws (CHR '':'' # t) = CHR '':'' # t"
  "skip_ws (dquote # t) = dquote # t" "skip_ws (CHR ''{'' # t) = CHR ''{'' # t"
  "skip_ws (CHR ''['' # t) = CHR ''['' # t" "skip_ws [] = []"
  by (simp_all add: skip_ws_def is_ws_def dquote_def)

lemma join_parts_Inr:
  "join_parts (r # rs) = Inr s \<Longrightarrow> \<exists>a. r = Inr a \<and> (rs = [] \<and> s = a
     \<or> rs \<noteq> [] \<and> (\<exists>b. join_parts rs = Inr b \<and> s = a @ '','' @ b))"
  by (cases rs; cases r) (auto split: sum.splits)

lemma parse_elems_join:
  assumes "vs \<noteq> []" "\<forall>v \<in> set vs. reads_back v" "join_parts (map Marshal vs) = Inr s"
    "2 * length (s @ CHR '']'' # t) + 1 < n"
  shows "parse_elems n (s @ CHR '']'' # t) = Some (map as_read vs, t)"
  using assms
proof (induction vs arbitrary: s n)
  case (Cons v vs)
  obtain a where a: "Marshal v = Inr a" and s: "vs = [] \<and> s = a \<or> vs \<noteq> [] \<and> (\<exists>b. join_parts (map Marshal vs) = Inr b \<and> s = a @ '','' @ b)"
    using join_parts_Inr [of "Marshal v" "map Marshal vs" s] Cons.prems(3) by auto
  obtain k where n: "n = Suc k" using Cons.prems(4) by (cases n) auto
  from s show ?case
  proof (elim disjE conjE exE)
    assume "vs = []" "s = a"
    with reads_backD [of v a "CHR '']'' # t" k] a Cons.prems(2,4) n show ?thesis by simp
  next
    fix b
    assume b: "vs \<noteq> []" "join_parts (map Marshal vs) = Inr b" "s = a @ '','' @ b"
    have "parse_value k (a @ CHR '','' # b @ CHR '']'' # t) = Some (as_read v, CHR '','' # b @ CHR '']'' # t)"
      using a Cons.prems(2,4) n b(3) by (intro reads_backD) auto
    moreover have "parse_elems k (b @ CHR '']'' # t) = Some (map as_read vs, t)"
      using Cons.prems(2,4) n b by (intro Cons.IH) auto
    ultimately show ?thesis using n b(3) by simp
  qed
qed simp

definition marshal_field :: "string \<times> jval \<Rightarrow> string result" where
  "marshal_field f = field_part (fst f, Marshal (snd f))"

lemma parse_members_join:
  assumes "fs \<noteq> []" "\<forall>f \<in> set fs. reads_back (snd f)"
    "join_parts (map marshal_field fs) = Inr s"
    "2 * length (s @ CHR ''}'' # t) + 1 < n"
  shows "parse_members n m (s @ CHR ''}'' # t)
    = Some (fold (\<lambda>(k, v). map_put (clean k) v) (map (\<lambda>(k, v). (k, as_read v)) fs) m, t)"
  using assms
proof (induction fs arbitrary: s n m)
  case (Cons f fs)
  obtain k v where f: "f = (k, v)" by fastforce
  let ?ps = "map marshal_field fs"
  let ?q = "concat (map quote_rune (runes k))"
  obtain p where p: "field_part (k, Marshal v) = Inr p"
    and s: "fs = [] \<and> s = p \<or> fs \<noteq> [] \<and> (\<exists>b. join_parts ?ps = Inr b \<and> s = p @ '','' @ b)"
    using join_parts_Inr [of "marshal_field f" ?ps s] Cons.prems(3) f by (auto simp: marshal_field_def [of "(k, v)"])
  then obtain a where a: "Marshal v = Inr a" "p = dquote # ?q @ dquote # CHR '':'' # a"
    by (cases "Marshal v") (auto simp: field_part_def quote_string_def)
  obtain j where n: "n = Suc j" using Cons.prems(4) by (cases n) auto
  from s show ?case
  proof (elim disjE conjE exE)
    assume e: "fs = []" "s = p"
    have "parse_value j (a @ CHR ''}'' # t) = Some (as_read v, CHR ''}'' # t)"
      using a Cons.prems(2,4) n e(2) f by (intro reads_backD) auto
    with e a n f show ?thesis by (simp add: string_chars_quote)
  next
    fix b
    assume b: "fs \<noteq> []" "join_parts ?ps = Inr b" "s = p @ '','' @ b"
    have "parse_value j (a @ CHR '','' # b @ CHR ''}'' # t) = Some (as_read v, CHR '','' # b @ CHR ''}'' # t)"
      using a Cons.prems(2,4) n b(3) f by (intro reads_backD) auto
    moreover have "parse_members j (map_put (clean k) (as_read v) m) (b @ CHR ''}'' # t)
        = Some (fold (\<lambda>(k, v). map_put (clean k) v) (map (\<lambda>(k, v). (k, as_read v)) fs)
            (map_put (clean k) (as_read v) m), t)"
      using Cons.prems(2,4) n b a by (intro Cons.IH) auto
    ultimately show ?thesis using n b(3) a(2) f by (simp add: string_chars_quote)
  qed
qed simp


lemma reads_back_object:
  assumes "\<forall>f \<in> set fs. reads_back (snd f)" "enclose CHR ''{'' CHR ''}'' (join_parts (map marshal_field fs)) = Inr s"
    "2 * length (s @ t) < n"
  shows "parse_value n (s @ t)
    = Some (JObj (fold (\<lambda>(k, v). map_put (clean k) v) (map (\<lambda>(k, v). (k, as_read v)) fs) []), t)"
proof -
  obtain b where b: "join_parts (map marshal_field fs) = Inr b" "s = CHR ''{'' # b @ ''}''"
    using assms(2) by (cases "join_parts (map marshal_field fs)") (auto simp: enclose_def)
  obtain k where n: "n = Suc k" using assms(3) by (cases n) auto
  show ?thesis
  proof (cases fs)
    case Nil
    with b n show ?thesis by simp
  next
    case (Cons f fs')
    then obtain a where "marshal_field f = Inr a" "\<exists>r. b = a @ r"
      using join_parts_Inr [of "marshal_field f" "map marshal_field fs'" b] b(1) by auto
    then obtain r where r: "b = dquote # r"
      by (cases "Marshal (snd f)") (auto simp: marshal_field_def field_part_def quote_string_def)
    have "parse_members k [] (b @ CHR ''}'' # t) = Some (fold (\<lambda>(k, v). map_put (clean k) v)
        (map (\<lambda>(k, v). (k, as_read v)) fs) [], t)"
      using assms(1,3) b Cons n by (intro parse_members_join) auto
    moreover have "dquote \<noteq> CHR ''}''" by (simp add: dquote_def)
    ultimately show ?thesis using b(2) n r by simp
  qed
qed

lemma marshal_first:
  assumes "Marshal v = Inr s" "plain_value v"
  shows "\<exists>c u. s = c # u \<and> c \<noteq> CHR '']'' \<and> \<not> is_ws c"
proof (cases v)
  case (JInt i)
  obtain n where n: "show_int i = (if i < 0 then CHR ''-'' # show_nat n else show_nat n)" by (rule show_int_abs)
  obtain c u where c: "show_nat n = c # u" by (cases "show_nat n") auto
  have "is_digit c" using show_nat_all_digits [of n] c by simp
  then have "c \<noteq> CHR '']''" "\<not> is_ws c" by (auto simp: is_digit_def is_ws_def)
  moreover have "\<not> is_ws CHR ''-''" by (simp add: is_ws_def)
  moreover have "s = show_int i" using assms(1) JInt by simp
  ultimately show ?thesis using n c by (cases "i < 0") auto
qed (use assms in \<open>auto simp: is_ws_def quote_string_def dquote_def enclose_def map_sum_def split: sum.splits\<close>)

lemma reads_back_plain: "plain_value v \<Longrightarrow> reads_back v"
proof (induction v)
  case (JInt i)
  show ?case unfolding reads_back_def
  proof (intro allI impI)
    fix s t n
    assume s: "Marshal (JInt i) = Inr s" and t: "delimited t" and n: "2 * length (s @ t) < n"
    obtain k where k: "n = Suc k" using n by (cases n) auto
    obtain m where m: "show_int i = (if i < 0 then CHR ''-'' # show_nat m else show_nat m)" by (rule show_int_abs)
    obtain c u where c: "show_int i = c # u" "is_digit c \<or> c = CHR ''-''"
      using m show_nat_all_digits [of m] by (cases "show_nat m") (auto split: if_splits)
    then have ne: "c \<noteq> CHR ''{''" "c \<noteq> CHR ''[''" "c \<noteq> dquote" "c \<noteq> CHR ''n''" "c \<noteq> CHR ''t''" "c \<noteq> CHR ''f''" "\<not> is_ws c"
      by (auto simp: is_digit_def is_ws_def dquote_def)
    have "parse_number (show_int i @ t) = Some (JNum (float_of_int i), t)"
      using JInt by (simp add: parse_number_def number_literal_show_int [OF t] ParseFloat_show_int)
    then have "parse_number (c # u @ t) = Some (JNum (float_of_int i), t)" unfolding c(1) by simp
    moreover have "s = c # u" using s c(1) by simp
    moreover have "skip_ws (c # u @ t) = c # u @ t" using ne(7) by (simp add: skip_ws_def)
    ultimately show "parse_value n (s @ t) = Some (as_read (JInt i), t)" using ne k by simp
  qed
next
  case (JArr vs)
  then have IH: "\<forall>v \<in> set vs. reads_back v" by simp
  show ?case unfolding reads_back_def
  proof (intro allI impI)
    fix s t n
    assume s: "Marshal (JArr vs) = Inr s" and n: "2 * length (s @ t) < n"
    obtain b where b: "join_parts (map Marshal vs) = Inr b" "s = CHR ''['' # b @ '']''"
      using s by (cases "join_parts (map Marshal vs)") (auto simp: enclose_def marshal_elems_map)
    obtain k where k: "n = Suc k" using n by (cases n) auto
    show "parse_value n (s @ t) = Some (as_read (JArr vs), t)"
    proof (cases vs)
      case Nil
      with b k show ?thesis by simp
    next
      case (Cons v vs')
      then obtain a where a: "Marshal v = Inr a" "\<exists>r. b = a @ r"
        using join_parts_Inr [of "Marshal v" "map Marshal vs'" b] b(1) by auto
      have "plain_value v" using JArr.prems Cons by simp
      from marshal_first [OF a(1) this] a(2) obtain c u where c: "b = c # u" "c \<noteq> CHR '']''" "\<not> is_ws c" by auto
      have "parse_elems k (b @ CHR '']'' # t) = Some (map as_read vs, t)"
        using IH b n k Cons by (intro parse_elems_join) auto
      with b(2) k c show ?thesis by (simp add: received_elems_map skip_ws_def is_ws_def)
    qed
  qed
next
  case (JObj m)
  then have IH: "\<forall>f \<in> set (sort_key fst m). reads_back (snd f)" by (force simp: snds.simps)
  show ?case unfolding reads_back_def
  proof (intro allI impI)
    fix s t n
    assume s: "Marshal (JObj m) = Inr s" and n: "2 * length (s @ t) < n"
    have "map field_part (map (\<lambda>(k, v). (k, Marshal v)) (sort_key fst m)) = map marshal_field (sort_key fst m)"
      by (auto simp: marshal_field_def)
    with s have "enclose CHR ''{'' CHR ''}'' (join_parts (map marshal_field (sort_key fst m))) = Inr s"
      by (simp only: Marshal.simps marshal_fields_map sort_key_map_snd)
    from reads_back_object [OF IH this n] show "parse_value n (s @ t) = Some (as_read (JObj m), t)"
      by (simp only: as_read.simps received_fields_map sort_key_map_snd)
  qed
next
  case (JStruct m)
  then have IH: "\<forall>f \<in> set m. reads_back (snd f)" by (force simp: snds.simps)
  show ?case unfolding reads_back_def
  proof (intro allI impI)
    fix s t n
    assume s: "Marshal (JStruct m) = Inr s" and n: "2 * length (s @ t) < n"
    have "map field_part (map (\<lambda>(k, v). (k, Marshal v)) m) = map marshal_field m" by (auto simp: marshal_field_def)
    with s have "enclose CHR ''{'' CHR ''}'' (join_parts (map marshal_field m)) = Inr s"
      by (simp only: Marshal.simps marshal_fields_map)
    from reads_back_object [OF IH this n] show "parse_value n (s @ t) = Some (as_read (JStruct m), t)"
      by (simp only: as_read.simps received_fields_map)
  qed
next
  case (JStr s)
  show ?case unfolding reads_back_def
  proof (intro allI impI)
    fix q t n
    assume "Marshal (JStr s) = Inr q" and n: "2 * length (q @ t) < n"
    then have "q @ t = dquote # concat (map quote_rune (runes s)) @ dquote # t" by (auto simp: quote_string_def)
    moreover obtain k where "n = Suc k" using n by (cases n) auto
    ultimately show "parse_value n (q @ t) = Some (as_read (JStr s), t)"
      by (simp add: string_chars_quote) (simp add: dquote_def)
  qed
next
  case JNull
  show ?case unfolding reads_back_def
    by (intro allI impI, rename_tac s t n, case_tac n) (auto simp: skip_ws_def is_ws_def dquote_def)
next
  case (JBool b)
  show ?case unfolding reads_back_def
    by (intro allI impI, rename_tac s t n, case_tac n; cases b) (auto simp: skip_ws_def is_ws_def dquote_def)
qed simp

lemma fold_map_put:
  assumes "distinct (map fst m0 @ map (clean \<circ> fst) fs)"
  shows "fold (\<lambda>(k, v). map_put (clean k) v) fs m0 = m0 @ map (\<lambda>(k, v). (clean k, v)) fs"
  using assms
proof (induction fs arbitrary: m0)
  case (Cons f fs)
  have put: "map_put k v m = m @ [(k, v)]" if "k \<notin> fst ` set m" for k and v :: 'a and m
    using that by (induction m) auto
  obtain k v where f: "f = (k, v)" by fastforce
  have "fold (\<lambda>(k, v). map_put (clean k) v) fs (m0 @ [(clean k, v)])
      = (m0 @ [(clean k, v)]) @ map (\<lambda>(k, v). (clean k, v)) fs"
    using Cons.prems f by (intro Cons.IH) auto
  with Cons.prems f put [of "clean k" m0 v] show ?case by (auto simp: image_iff)
qed simp

text \<open>An object or struct whose keys are distinct UTF-8 strings arrives field by field.\<close>

definition good_keys :: "jobject \<Rightarrow> bool" where
  "good_keys m \<longleftrightarrow> distinct (map fst m) \<and> (\<forall>k \<in> fst ` set m. valid_utf8 k)"

lemma as_read_struct:
  assumes "good_keys m"
  shows "as_read (JStruct m) = JObj (map (\<lambda>(k, v). (k, as_read v)) m)"
    "as_read (JObj m) = JObj (map (\<lambda>(k, v). (k, as_read v)) (sort_key fst m))"
proof -
  have c: "map (\<lambda>(k, v). (clean k, v)) (map (\<lambda>(k, v). (k, as_read v)) fs) = map (\<lambda>(k, v). (k, as_read v)) fs"
    "map (clean \<circ> fst) (map (\<lambda>(k, v). (k, as_read v)) fs) = map fst fs"
    if "set fs = set m" for fs
    using assms that by (auto simp: good_keys_def clean_valid)
  have d: "distinct (map fst (sort_key fst m))" 
    using assms by (simp add: good_keys_def distinct_map)
  have "fold (\<lambda>(k, v). map_put (clean k) v) (map (\<lambda>(k, v). (k, as_read v)) fs) [] = map (\<lambda>(k, v). (k, as_read v)) fs"
    if "set fs = set m" "distinct (map fst fs)" for fs
    using fold_map_put [of "[]" "map (\<lambda>(k, v). (k, as_read v)) fs"] c [OF that(1)] that(2) by (simp only: list.map append_Nil)
  from this [of m] this [of "sort_key fst m"] d assms
  show "as_read (JStruct m) = JObj (map (\<lambda>(k, v). (k, as_read v)) m)"
    "as_read (JObj m) = JObj (map (\<lambda>(k, v). (k, as_read v)) (sort_key fst m))"
    by (simp_all only: as_read.simps received_fields_map sort_key_map_snd set_sort good_keys_def)
qed

lemma map_of_sorted: "distinct (map fst m) \<Longrightarrow> map_of (sort_key fst m) = map_of m"
  by (rule map_of_inject_set [THEN iffD2]) (simp_all add: distinct_map)

lemma Unmarshal_Marshal_value:
  assumes "plain_value v" "Marshal v = Inr s" "as_read v = JObj m"
  shows "Unmarshal (bytes_of s @ [10]) = Some m"
proof -
  have "bytes_of s @ [10] = bytes_of (s @ [newline])" by (simp add: bytes_of_def newline_def)
  then have s: "string_of (bytes_of s @ [10]) = s @ [newline]" by (simp only: string_of_bytes_of)
  have "parse_value (2 * length (s @ [newline]) + 1) (s @ [newline]) = Some (as_read v, [newline])"
    by (rule reads_backD [OF reads_back_plain [OF assms(1)] assms(2)]) simp_all
  then show ?thesis unfolding Unmarshal_def Let_def s assms(3) by (simp add: skip_ws_def is_ws_def newline_def)
qed

lemma plain_finite: "plain_value v \<Longrightarrow> finite_numbers v"
proof (induction v)
  case (JObj m)
  then show ?case by (force simp: snds.simps)
next
  case (JStruct m)
  then show ?case by (force simp: snds.simps)
qed auto

lemma plain_marshals: "plain_value v \<Longrightarrow> \<exists>s. Marshal v = Inr s"
  using Marshal_total [of v] plain_finite by simp

lemma map_of_as_read: "map_of (map (\<lambda>(k, v). (k, as_read v)) m) k = map_option as_read (map_of m k)"
  by (induction m) auto

text \<open>
  The round trip: the text that \<open>json.Marshal\<close> writes for a message, struct or map, with the
  line feed the framing appends, is decoded by \<open>json.Unmarshal\<close> at the other end to the same
  fields with the same values, nested values included: integers of at most 53 bits come back as
  the number they are, strings byte for byte up to the bytes that are not UTF-8.
\<close>

lemma Unmarshal_Marshal:
  assumes "good_keys m" "plain_value (JObj m)" "v = JStruct m \<or> v = JObj m"
  shows "\<exists>s m'. Marshal v = Inr s \<and> Unmarshal (bytes_of s @ [10]) = Some m'
    \<and> (\<forall>k. map_of m' k = map_option as_read (map_of m k))"
proof -
  have p: "plain_value v" using assms(2,3) by auto
  obtain s where s: "Marshal v = Inr s" using plain_marshals [OF p] by blast
  have "\<exists>m'. as_read v = JObj m' \<and> (\<forall>k. map_of m' k = map_option as_read (map_of m k))"
    using assms(3) as_read_struct [OF assms(1)] map_of_sorted [of m] assms(1)
    by (auto simp: map_of_as_read good_keys_def)
  with Unmarshal_Marshal_value [OF p s] s show ?thesis by blast
qed

end
