(* ===== verification/Prompt.thy ===== *)
theory Prompt
  imports Control Json_Roundtrip
begin

text \<open>
  src/prompt.go: the command line of the server.  \<open>executor\<close> runs one line on the global state; its
  result is the new state, the sends on channels and the lines printed.  A line that quotes an
  error of package strconv is kept as a value (\<open>OutBadNumber\<close>).  The library go-prompt is not part
  of the program: what it does is a parameter (the lines it passes to the executor, its filter of
  suggestions).
\<close>

section \<open>Commands\<close>

datatype out_line =
    OutText string
  | OutBadNumber string num_error

definition stringInSlice :: "string \<Rightarrow> string list \<Rightarrow> bool" where
  "stringInSlice searchedValue values = list_ex (\<lambda>value. value = searchedValue) values"

definition rStart :: regex where "rStart = lit ''start''"

definition rQuit :: regex where "rQuit = lit ''quit''"

definition rPrint :: regex where
  "rPrint = RSeq (lit ''print'') (RSeq (RRep Space 1 None) (RGroup ''variable'' (RRep NonSpace 1 None)))"

definition rSet :: regex where
  "rSet = RSeq (lit ''set'') (RSeq (RRep Space 1 None) (RSeq (RGroup ''variable'' (RRep NonSpace 1 None))
     (RSeq (RGroup ''sep'' (RAlt (RClass Space) (RClass (Rune 61))))
       (RGroup ''value'' (RRep NonSpace 1 None)))))"

definition acceptedSetVariables :: "string list" where
  "acceptedSetVariables = [''nb-turns-max'', ''nb-players-max'', ''nb-splayers-max'', ''nb-visus-max'',
     ''delay-first-turn'', ''delay-turns'']"

definition acceptedPrintVariables :: "string list" where
  "acceptedPrintVariables = acceptedSetVariables @ [''all'']"

definition group_of :: "(string \<times> string) list \<Rightarrow> string \<Rightarrow> string" where
  "group_of m name = (case map_of m name of Some v \<Rightarrow> v | None \<Rightarrow> [])"

definition prompt_start :: "GlobalState \<Rightarrow> GlobalState \<times> chan_op list \<times> out_line list" where
  "prompt_start gs =
     (if gs_GameState gs = GAME_NOT_RUNNING then
        (case gs_GameLogic gs of
           [gl] \<Rightarrow> (gs\<lparr>gs_GameState := GAME_RUNNING\<rparr>, [SendStart gl], [])
         | _ \<Rightarrow> (gs, [], [OutText ''Cannot start: Game logic not connected'']))
      else (gs, [], [OutText ''Game has already been started'']))"

text \<open>One line \<open>variable=value\<close> of \<open>print\<close>.\<close>

definition variable_line :: "GlobalState \<Rightarrow> string \<Rightarrow> out_line" where
  "variable_line gs v = OutText (v @ ''='' @
     (if v = ''nb-turns-max'' then show_int (gs_NbTurnsMax gs)
      else if v = ''nb-players-max'' then show_int (gs_NbPlayersMax gs)
      else if v = ''nb-splayers-max'' then show_int (gs_NbSpecialPlayersMax gs)
      else if v = ''nb-visus-max'' then show_int (gs_NbVisusMax gs)
      else if v = ''delay-first-turn'' then format_v (gs_MillisecondsBeforeFirstTurn gs)
      else format_v (gs_MillisecondsBetweenTurns gs)))"

definition prompt_print :: "string \<Rightarrow> GlobalState \<Rightarrow> out_line list" where
  "prompt_print variable gs =
     (if stringInSlice variable acceptedPrintVariables
      then (if variable = ''all'' then map (variable_line gs) acceptedSetVariables
            else [variable_line gs variable])
      else [OutText (''Bad VARIABLE='' @ variable @ ''. Accepted values: ''
              @ Join acceptedPrintVariables '' '')])"

text \<open>The check of an integer or floating-point value against its bounds.\<close>

definition set_int ::
  "string \<Rightarrow> int \<Rightarrow> int \<Rightarrow> (int \<Rightarrow> GlobalState) \<Rightarrow> GlobalState \<Rightarrow> GlobalState \<times> out_line list" where
  "set_int value lo hi upd gs = (case ParseInt value 0 64 of
      (_, Some err) \<Rightarrow> (gs, [OutBadNumber value err])
    | (intValue, None) \<Rightarrow>
        if lo \<le> intValue \<and> intValue \<le> hi then (upd intValue, [])
        else (gs, [OutText (''Bad VALUE='' @ show_int intValue @ '': Not in ['' @ show_int lo @ '',''
                @ show_int hi @ '']'')]))"

definition set_float ::
  "string \<Rightarrow> int \<Rightarrow> int \<Rightarrow> (float64 \<Rightarrow> GlobalState) \<Rightarrow> GlobalState \<Rightarrow> GlobalState \<times> out_line list" where
  "set_float value lo hi upd gs = (case ParseFloat value of
      Inl err \<Rightarrow> (gs, [OutBadNumber value err])
    | Inr floatValue \<Rightarrow>
        if float_le (float_of_int lo) floatValue \<and> float_le floatValue (float_of_int hi)
        then (upd floatValue, [])
        else (gs, [OutText (''Bad VALUE='' @ format_v floatValue @ '': Not in ['' @ show_int lo @ '',''
                @ show_int hi @ '']'')]))"

definition prompt_set :: "string \<Rightarrow> string \<Rightarrow> GlobalState \<Rightarrow> GlobalState \<times> out_line list" where
  "prompt_set variable value gs =
     (if \<not> stringInSlice variable acceptedSetVariables
      then (gs, [OutText (''Bad VARIABLE='' @ variable @ ''. Accepted values: ''
              @ Join acceptedSetVariables '' '')])
      else if variable = ''nb-turns-max''
      then set_int value 1 65535 (\<lambda>i. gs\<lparr>gs_NbTurnsMax := i\<rparr>) gs
      else if variable = ''nb-players-max''
      then set_int value 1 1024 (\<lambda>i. gs\<lparr>gs_NbPlayersMax := i\<rparr>) gs
      else if variable = ''nb-splayers-max''
      then set_int value 0 1024 (\<lambda>i. gs\<lparr>gs_NbSpecialPlayersMax := i\<rparr>) gs
      else if variable = ''nb-visus-max''
      then set_int value 0 1024 (\<lambda>i. gs\<lparr>gs_NbVisusMax := i\<rparr>) gs
      else if variable = ''delay-first-turn''
      then set_float value 50 10000 (\<lambda>f. gs\<lparr>gs_MillisecondsBeforeFirstTurn := f\<rparr>) gs
      else set_float value 50 10000 (\<lambda>f. gs\<lparr>gs_MillisecondsBetweenTurns := f\<rparr>) gs)"

text \<open>What a line that is no command gets: the syntax of the command it begins like.\<close>

definition syntax_hint :: "string \<Rightarrow> out_line list" where
  "syntax_hint line =
     (if HasPrefix line ''start'' then [OutText ''expected syntax: start'']
      else if HasPrefix line ''quit'' then [OutText ''expected syntax: quit'']
      else if HasPrefix line ''print'' then [OutText ''expected syntax: print VARIABLE'']
      else if HasPrefix line ''set'' then [OutText (''expected syntax: set VARIABLE=VALUE'' @ [newline]
        @ ''   (alt syntax): set VARIABLE VALUE'')]
      else [])"

definition executor :: "string \<Rightarrow> GlobalState \<Rightarrow> GlobalState \<times> chan_op list \<times> out_line list" where
  "executor line0 gs =
     (let line = TrimSpace line0 in
      if MatchString rStart line then prompt_start gs
      else if MatchString rQuit line then (gs, [SendShellExit 0], [])
      else (case FindSubmatch rPrint line of
          Some m \<Rightarrow> (gs, [], prompt_print (group_of m ''variable'') gs)
        | None \<Rightarrow> (case FindSubmatch rSet line of
              Some m \<Rightarrow> (case prompt_set (group_of m ''variable'') (group_of m ''value'') gs of
                  (gs', out) \<Rightarrow> (gs', [], out))
            | None \<Rightarrow> (gs, [], syntax_hint line))))"

section \<open>Completion\<close>

record Suggest =
  sg_Text :: string
  sg_Description :: string

definition suggest :: "string \<Rightarrow> string \<Rightarrow> Suggest" where
  "suggest t d = \<lparr>sg_Text = t, sg_Description = d\<rparr>"

definition commandsSuggestions :: "Suggest list" where
  "commandsSuggestions = [suggest ''start'' ''Start the game'', suggest ''print'' ''Print value of variable'',
     suggest ''set'' ''Set value of variable'', suggest ''quit'' ''Quit netorcai'']"

definition setSuggestions :: "Suggest list" where
  "setSuggestions = [suggest ''nb-turns-max'' ''Maximum number of turns'',
     suggest ''nb-players-max'' ''Maximum number of players'',
     suggest ''nb-splayers-max'' ''Maximum number of special players'',
     suggest ''nb-visus-max'' ''Maximum number of visualizations'',
     suggest ''delay-first-turn'' ''Time (ms) before 1st turn'',
     suggest ''delay-turns'' ''Time (ms) between turns'']"

definition printSuggestions :: "Suggest list" where
  "printSuggestions = setSuggestions @ [suggest ''all'' ''Print the value of all variables'']"

definition completer ::
  "(Suggest list \<Rightarrow> string \<Rightarrow> bool \<Rightarrow> Suggest list) \<Rightarrow> string \<Rightarrow> Suggest list" where
  "completer FilterHasPrefix t =
     (if Count_char t CHR '' '' = 0 then FilterHasPrefix commandsSuggestions t True
      else if HasPrefix t ''print'' then FilterHasPrefix printSuggestions (TrimPrefix t ''print '') True
      else if HasPrefix t ''set'' then FilterHasPrefix setSuggestions (TrimPrefix t ''set '') True
      else [])"

section \<open>The prompts\<close>

primrec run_lines ::
  "string list \<Rightarrow> GlobalState \<Rightarrow> GlobalState \<times> chan_op list \<times> out_line list" where
  "run_lines [] gs = (gs, [], [])"
| "run_lines (l # ls) gs = (case executor l gs of
     (gs', ops, out) \<Rightarrow> (case run_lines ls gs' of (gs'', ops', out') \<Rightarrow> (gs'', ops @ ops', out @ out')))"

text \<open>With go-prompt: it passes the lines it reads to the executor until it returns.\<close>

definition interactivePrompt ::
  "string list \<Rightarrow> GlobalState \<Rightarrow> GlobalState \<times> chan_op list \<times> out_line list" where
  "interactivePrompt lines gs = (case run_lines lines (gs\<lparr>gs_prompt := True\<rparr>) of
     (gs', ops, out) \<Rightarrow> (gs', ops @ [SendShellExit 1], out))"

text \<open>
  \<open>bufio.Reader.ReadString('\n')\<close>: up to and with the next line feed, or what is left at the end of
  the input, where the error that comes with it is dropped by the caller.
\<close>

definition ReadLine :: "string \<Rightarrow> string \<times> string" where
  "ReadLine input = (case dropWhile (\<lambda>c. c \<noteq> newline) input of
      [] \<Rightarrow> (input, [])
    | nl # rest \<Rightarrow> (takeWhile (\<lambda>c. c \<noteq> newline) input @ [nl], rest))"

text \<open>The loop of the simple prompt has no exit: \<open>n\<close> turns of it.\<close>

primrec nonInteractivePrompt ::
  "nat \<Rightarrow> string \<Rightarrow> GlobalState \<Rightarrow> string \<times> GlobalState \<times> chan_op list \<times> out_line list" where
  "nonInteractivePrompt 0 input gs = (input, gs, [], [])"
| "nonInteractivePrompt (Suc n) input gs = (case ReadLine input of
     (line, rest) \<Rightarrow> (case executor line gs of
        (gs', ops, out) \<Rightarrow> (case nonInteractivePrompt n rest gs' of
           (rest', gs'', ops', out') \<Rightarrow> (rest', gs'', ops @ ops', out @ out'))))"

text \<open>
  \<open>RunPrompt\<close>: the prompt that \<open>main\<close> has chosen; its answer is the state, the sends and the lines
  printed once \<open>go-prompt\<close> has returned, or after \<open>n\<close> turns of the other loop.
\<close>

definition RunPrompt ::
  "bool \<Rightarrow> string list \<Rightarrow> nat \<Rightarrow> string \<Rightarrow> GlobalState \<Rightarrow> GlobalState \<times> chan_op list \<times> out_line list" where
  "RunPrompt interactive lines n input gs =
     (if interactive then interactivePrompt lines gs
      else (case nonInteractivePrompt n input gs of (rest, result) \<Rightarrow> result))"

section \<open>Lemmas: the bounds of the parameters\<close>

text \<open>The parameters that the command line and the prompt control.\<close>

definition config_ok :: "GlobalState \<Rightarrow> bool" where
  "config_ok gs \<longleftrightarrow> 1 \<le> gs_NbTurnsMax gs \<and> gs_NbTurnsMax gs \<le> 65535
     \<and> 0 \<le> gs_NbPlayersMax gs \<and> gs_NbPlayersMax gs \<le> 1024
     \<and> 0 \<le> gs_NbSpecialPlayersMax gs \<and> gs_NbSpecialPlayersMax gs \<le> 1024
     \<and> 0 \<le> gs_NbVisusMax gs \<and> gs_NbVisusMax gs \<le> 1024
     \<and> float_le (float_of_int 50) (gs_MillisecondsBeforeFirstTurn gs)
     \<and> float_le (gs_MillisecondsBeforeFirstTurn gs) (float_of_int 10000)
     \<and> float_le (float_of_int 50) (gs_MillisecondsBetweenTurns gs)
     \<and> float_le (gs_MillisecondsBetweenTurns gs) (float_of_int 10000)"

text \<open>What \<open>set\<close> keeps: the bounds, the roster and the state of the game.\<close>

definition set_keeps :: "GlobalState \<Rightarrow> GlobalState \<Rightarrow> bool" where
  "set_keeps gs gs' \<longleftrightarrow> (config_ok gs \<longrightarrow> config_ok gs') \<and> roster gs' = roster gs
     \<and> gs_GameState gs' = gs_GameState gs \<and> gs_GameLogic gs' = gs_GameLogic gs \<and> gs_Visus gs' = gs_Visus gs"

lemma set_keeps_refl: "set_keeps gs gs"
  by (simp add: set_keeps_def)

lemma set_keeps_upd:
  "1 \<le> i \<Longrightarrow> i \<le> 65535 \<Longrightarrow> set_keeps gs (gs\<lparr>gs_NbTurnsMax := i\<rparr>)"
  "1 \<le> i \<Longrightarrow> i \<le> 1024 \<Longrightarrow> set_keeps gs (gs\<lparr>gs_NbPlayersMax := i\<rparr>)"
  "0 \<le> i \<Longrightarrow> i \<le> 1024 \<Longrightarrow> set_keeps gs (gs\<lparr>gs_NbSpecialPlayersMax := i\<rparr>)"
  "0 \<le> i \<Longrightarrow> i \<le> 1024 \<Longrightarrow> set_keeps gs (gs\<lparr>gs_NbVisusMax := i\<rparr>)"
  "float_le (float_of_int 50) f \<Longrightarrow> float_le f (float_of_int 10000)
     \<Longrightarrow> set_keeps gs (gs\<lparr>gs_MillisecondsBeforeFirstTurn := f\<rparr>)"
  "float_le (float_of_int 50) f \<Longrightarrow> float_le f (float_of_int 10000)
     \<Longrightarrow> set_keeps gs (gs\<lparr>gs_MillisecondsBetweenTurns := f\<rparr>)"
  by (simp_all add: set_keeps_def config_ok_def roster_def)

lemma set_int_keeps:
  "(\<And>i. lo \<le> i \<Longrightarrow> i \<le> hi \<Longrightarrow> set_keeps gs (upd i)) \<Longrightarrow> set_keeps gs (fst (set_int w lo hi upd gs))"
  by (auto simp: set_int_def set_keeps_refl split: prod.split option.split)

lemma set_float_keeps:
  "(\<And>f. float_le (float_of_int lo) f \<Longrightarrow> float_le f (float_of_int hi) \<Longrightarrow> set_keeps gs (upd f))
     \<Longrightarrow> set_keeps gs (fst (set_float w lo hi upd gs))"
  by (auto simp: set_float_def set_keeps_refl split: sum.split)

lemma prompt_set_keeps: "set_keeps gs (fst (prompt_set v w gs))"
  unfolding prompt_set_def
  by (simp add: set_keeps_refl set_int_keeps set_float_keeps set_keeps_upd)

section \<open>Lemmas: command lines\<close>

definition plain_word :: "string \<Rightarrow> bool" where
  "plain_word s \<longleftrightarrow> s \<noteq> [] \<and> list_all (\<lambda>c. 33 \<le> (of_char c :: nat) \<and> of_char c < (127 :: nat) \<and> c \<noteq> CHR ''='') s"

lemma plain_word_char:
  assumes "plain_word s" "c \<in> set s"
  shows "33 \<le> (of_char c :: nat)" "of_char c < (127 :: nat)" "c \<noteq> CHR ''=''"
  using assms unfolding plain_word_def list_all_iff by blast+

lemma plain_word_ascii:
  assumes "plain_word s"
  shows "ascii s"
  unfolding ascii_def list_all_iff
proof
  fix c
  assume "c \<in> set s"
  from plain_word_char(2) [OF assms this] show "of_char c < (128::nat)" by linarith
qed

lemma plain_word_show_nat: "plain_word (show_nat n)"
proof -
  have "33 \<le> (of_char c :: nat) \<and> of_char c < (127 :: nat) \<and> c \<noteq> CHR ''=''" if "c \<in> set (show_nat n)" for c
    using show_nat_digits [OF that] by auto
  then show ?thesis by (simp add: plain_word_def list_all_iff)
qed

lemma TrimSpace_id:
  assumes "ascii s" "s \<noteq> []" "33 \<le> (of_char (hd s) :: nat)" "33 \<le> (of_char (last s) :: nat)"
    "of_char (hd s) < (127::nat)" "of_char (last s) < (127::nat)"
  shows "TrimSpace s = s"
proof -
  let ?t = "map (\<lambda>c. (of_char c :: nat, [c])) s"
  have r: "runes s = ?t" by (rule runes_ascii_string [OF assms(1)])
  have "dropWhile (IsSpace \<circ> fst) ?t = ?t"
    using assms(2,3,5) by (cases s) (auto simp: IsSpace_def)
  moreover have "dropWhile (IsSpace \<circ> fst) (rev ?t) = rev ?t"
    using assms(2,4,6) by (cases s rule: rev_cases) (auto simp: IsSpace_def)
  ultimately have "TrimSpace s = text_bytes ?t" by (simp add: TrimSpace_def r)
  also have "\<dots> = s" using text_bytes_runes [of s] r by simp
  finally show ?thesis .
qed

definition set_line :: "string \<Rightarrow> string \<Rightarrow> string" where
  "set_line v w = ''set '' @ v @ ''='' @ w"

definition print_line :: "string \<Rightarrow> string" where
  "print_line v = ''print '' @ v"

lemma TrimSpace_line:
  assumes "ascii p" "p \<noteq> []" "33 \<le> (of_char (hd p) :: nat)" "of_char (hd p) < (127::nat)" "plain_word w"
  shows "TrimSpace (p @ w) = p @ w"
proof -
  have "last w \<in> set w" "w \<noteq> []" using assms(5) by (simp_all add: plain_word_def)
  with plain_word_char(1,2) [OF assms(5), of "last w"] assms plain_word_ascii [OF assms(5)] show ?thesis
    by (intro TrimSpace_id) simp_all
qed

lemma text_bytes_chars: "text_bytes (map (\<lambda>c. (of_char c, [c])) s) = s"
  by (induction s) (simp_all add: text_bytes_def)

lemma plain_word_nonspace:
  assumes "plain_word w" "x \<in> set (map (\<lambda>c. (of_char c :: nat, [c])) w)"
  shows "in_class NonSpace (fst x)" "fst x \<noteq> 61"
proof -
  from assms(2) obtain c where c: "c \<in> set w" "x = (of_char c, [c])" by auto
  show "in_class NonSpace (fst x)" using plain_word_char(1) [OF assms(1) c(1)] c(2) by auto
  show "fst x \<noteq> 61"
  proof
    assume "fst x = 61"
    then have "of_char c = (of_char CHR ''='' :: nat)" using c(2) by simp
    then have "c = CHR ''=''" by (metis char_of_char)
    with plain_word_char(3) [OF assms(1) c(1)] show False by simp
  qed
qed

lemma rSet_match:
  assumes "(p, r, g) \<in> set (matches rSet t)"
  obtains a sp v d w where "t = a @ sp @ v @ [d] @ w @ r" "map fst a = [115, 101, 116]"
    "Suc 0 \<le> length sp" "\<forall>x \<in> set sp. in_class Space (fst x)"
    "Suc 0 \<le> length v" "\<forall>x \<in> set v. in_class NonSpace (fst x)"
    "in_class Space (fst d) \<or> fst d = 61"
    "Suc 0 \<le> length w" "\<forall>x \<in> set w. in_class NonSpace (fst x)"
    "g = [(''variable'', text_bytes v), (''sep'', text_bytes [d]), (''value'', text_bytes w)]"
proof -
  let ?v = "RGroup ''variable'' (RRep NonSpace 1 None)"
  let ?s = "RGroup ''sep'' (RAlt (RClass Space) (RClass (Rune 61)))"
  let ?w = "RGroup ''value'' (RRep NonSpace 1 None)"
  from assms obtain a r1 g1 p2 g2 where 1: "(a, r1, g1) \<in> set (matches (lit ''set'') t)"
    "(p2, r, g2) \<in> set (matches (RSeq (RRep Space 1 None) (RSeq ?v (RSeq ?s ?w))) r1)" "g = g1 @ g2"
    unfolding rSet_def by (subst (asm) matches_seq) blast
  from 1(2) obtain sp r2 g3 p3 g4 where 2: "(sp, r2, g3) \<in> set (matches (RRep Space 1 None) r1)"
    "(p3, r, g4) \<in> set (matches (RSeq ?v (RSeq ?s ?w)) r2)" "g2 = g3 @ g4"
    by (subst (asm) matches_seq) blast
  from 2(2) obtain v r3 g5 p4 g6 where 3: "(v, r3, g5) \<in> set (matches ?v r2)"
    "(p4, r, g6) \<in> set (matches (RSeq ?s ?w) r3)" "g4 = g5 @ g6"
    by (subst (asm) matches_seq) blast
  from 3(2) obtain d r4 g7 w g8 where 4: "(d, r4, g7) \<in> set (matches ?s r3)"
    "(w, r, g8) \<in> set (matches ?w r4)" "g6 = g7 @ g8"
    by (subst (asm) matches_seq) blast
  from 1(1) have a: "t = a @ r1" "map fst a = [115, 101, 116]" "g1 = []" unfolding matches_lit by simp_all
  from 2(1) have sp: "r1 = sp @ r2" "Suc 0 \<le> length sp" "\<forall>x \<in> set sp. in_class Space (fst x)" "g3 = []"
    unfolding matches_plus by simp_all
  from 3(1) have v: "r2 = v @ r3" "Suc 0 \<le> length v" "\<forall>x \<in> set v. in_class NonSpace (fst x)"
    "g5 = [(''variable'', text_bytes v)]"
    unfolding matches_group matches_plus by auto
  from 4(1) obtain x where x: "r3 = x # r4" "d = [x]" "g7 = [(''sep'', text_bytes [x])]"
    "in_class Space (fst x) \<or> fst x = 61"
    unfolding matches_group matches_alt matches_class by auto
  from 4(2) have w: "r4 = w @ r" "Suc 0 \<le> length w" "\<forall>x \<in> set w. in_class NonSpace (fst x)"
    "g8 = [(''value'', text_bytes w)]"
    unfolding matches_group matches_plus by auto
  show ?thesis
    by (rule that [of a sp v x w]) (use a sp v x w 1(3) 2(3) 3(3) 4(3) in simp_all)
qed

lemma rSet_matchI:
  assumes "t = a @ sp @ v @ [d] @ w" "map fst a = [115, 101, 116]"
    "Suc 0 \<le> length sp" "\<forall>x \<in> set sp. in_class Space (fst x)"
    "Suc 0 \<le> length v" "\<forall>x \<in> set v. in_class NonSpace (fst x)" "fst d = 61"
    "Suc 0 \<le> length w" "\<forall>x \<in> set w. in_class NonSpace (fst x)"
  shows "\<exists>p g. (p, [], g) \<in> set (matches rSet t)"
proof -
  have "(w, [], [(''value'', text_bytes w)]) \<in> set (matches (RGroup ''value'' (RRep NonSpace 1 None)) w)"
    unfolding matches_group matches_plus using assms by simp
  moreover have "([d], w, [(''sep'', text_bytes [d])])
      \<in> set (matches (RGroup ''sep'' (RAlt (RClass Space) (RClass (Rune 61)))) ([d] @ w))"
    unfolding matches_group matches_alt matches_class using assms by simp
  moreover have "(v, [d] @ w, [(''variable'', text_bytes v)])
      \<in> set (matches (RGroup ''variable'' (RRep NonSpace 1 None)) (v @ [d] @ w))"
    unfolding matches_group matches_plus using assms by simp
  moreover have "(sp, v @ [d] @ w, []) \<in> set (matches (RRep Space 1 None) (sp @ v @ [d] @ w))"
    unfolding matches_plus using assms by simp
  moreover have "(a, sp @ v @ [d] @ w, []) \<in> set (matches (lit ''set'') t)"
    unfolding matches_lit using assms by simp
  ultimately show ?thesis unfolding rSet_def by (meson matches_seqI)
qed

text \<open>How a text of words can be cut: at the spaces, and at the equals sign.\<close>

lemma cut_spaces:
  assumes "[s] @ t = sp @ v" "Suc 0 \<le> length sp" "\<forall>x \<in> set sp. in_class Space (fst x)"
    "\<forall>x \<in> set t. in_class NonSpace (fst x)"
  shows "sp = [s] \<and> v = t"
proof -
  from assms(1,2) obtain sp' where sp: "sp = s # sp'" "t = sp' @ v" by (cases sp) auto
  have "sp' = []"
  proof (cases sp')
    case (Cons y ys)
    with sp assms(3,4) have "in_class Space (fst y)" "in_class NonSpace (fst y)" by simp_all
    then show ?thesis by simp
  qed
  with sp show ?thesis by simp
qed

lemma cut_equals:
  assumes "v @ [e] @ w = v' @ [d] @ w'" "fst e = 61" "fst d = 61"
    "\<forall>x \<in> set v. fst x \<noteq> 61" "\<forall>x \<in> set w. fst x \<noteq> 61"
  shows "v' = v \<and> d = e \<and> w' = w"
proof -
  have "d \<notin> set v" "d \<notin> set w" using assms(3-5) by auto
  from assms(1) consider us where "v = v' @ us" "us @ [e] @ w = [d] @ w'"
    | us where "v' = v @ us" "[e] @ w = us @ [d] @ w'"
    by (auto simp: append_eq_append_conv2)
  then show ?thesis
  proof cases
    case 1
    then show ?thesis using \<open>d \<notin> set v\<close> by (cases us) auto
  next
    case 2
    then show ?thesis using \<open>d \<notin> set w\<close> by (cases us) auto
  qed
qed

lemma append_cancel: "length a = length b \<Longrightarrow> a @ s = b @ t \<Longrightarrow> s = t"
  by simp

lemma FindSubmatch_set:
  assumes v: "plain_word v" and w: "plain_word w"
  shows "FindSubmatch rSet (set_line v w) = Some [(''variable'', v), (''sep'', ''=''), (''value'', w)]"
proof -
  let ?R = "\<lambda>s. map (\<lambda>c. (of_char c :: nat, [c])) s"
  let ?e = "(61 :: nat, ''='')" and ?s = "(32 :: nat, '' '')"
  have r: "runes (set_line v w) = ?R ''set'' @ [?s] @ ?R v @ [?e] @ ?R w"
    using runes_ascii_string [of "set_line v w"] plain_word_ascii [OF v] plain_word_ascii [OF w]
    by (simp add: set_line_def ascii_def)
  note nv = plain_word_nonspace [OF v] and nw = plain_word_nonspace [OF w]
  have lens: "Suc 0 \<le> length (?R v)" "Suc 0 \<le> length (?R w)"
    using v w by (simp_all add: plain_word_def Suc_le_eq)
  have "\<exists>p g. (p, [], g) \<in> set (matches rSet (runes (set_line v w)))"
    by (rule rSet_matchI [OF r]) (use lens nv nw in simp_all)
  then obtain g where g: "FindSubmatch rSet (set_line v w) = Some g"
    using FindSubmatch_None by fastforce
  from FindSubmatch_Some [OF g] obtain a sp v' d w' where
    m: "runes (set_line v w) = a @ sp @ v' @ [d] @ w' @ []" "map fst a = [115, 101, 116]"
      "Suc 0 \<le> length sp" "\<forall>x \<in> set sp. in_class Space (fst x)"
      "in_class Space (fst d) \<or> fst d = 61"
      "g = [(''variable'', text_bytes v'), (''sep'', text_bytes [d]), (''value'', text_bytes w')]"
    by (rule rSet_match)
  have "length a = 3" using arg_cong [OF m(2), of length] by simp
  then have "length (?R ''set'') = length a" by simp
  moreover have "?R ''set'' @ ([?s] @ ?R v @ [?e] @ ?R w) = a @ (sp @ v' @ [d] @ w')"
    using m(1) unfolding r by (simp only: append_Nil2 append_assoc)
  ultimately have c1: "[?s] @ ?R v @ [?e] @ ?R w = sp @ v' @ [d] @ w'"
    by (rule append_cancel)
  have ns: "\<forall>x \<in> set (?R v @ [?e] @ ?R w). in_class NonSpace (fst x)"
  proof
    fix x
    assume "x \<in> set (?R v @ [?e] @ ?R w)"
    then consider "x \<in> set (?R v)" | "x = ?e" | "x \<in> set (?R w)" by (auto simp del: set_map list.set_map)
    then show "in_class NonSpace (fst x)" by cases (use nv(1) nw(1) in \<open>blast, simp, blast\<close>)
  qed
  from cut_spaces [OF c1 m(3,4) ns] have c2: "?R v @ [?e] @ ?R w = v' @ [d] @ w'" by simp
  have "d \<in> set (?R v @ [?e] @ ?R w)" unfolding c2 by simp
  with ns m(5) have d: "fst d = 61" by auto
  from cut_equals [OF c2 _ d] nv(2) nw(2) have "v' = ?R v" "d = ?e" "w' = ?R w" by simp_all
  with g m(6) show ?thesis by (simp add: text_bytes_chars) (simp add: text_bytes_def)
qed

lemma FindSubmatch_keyword:
  assumes "FindSubmatch (RSeq (lit k) r) s = Some g" "ascii s"
  shows "\<exists>t. s = k @ t"
proof -
  from FindSubmatch_Some [OF assms(1)] obtain p where "(p, [], g) \<in> set (matches (RSeq (lit k) r) (runes s))"
    by blast
  then obtain a t g1 where "(a, t, g1) \<in> set (matches (lit k) (runes s))" by (subst (asm) matches_seq) blast
  then have a: "runes s = a @ t" "map fst a = map of_char k" by (simp_all add: matches_lit)
  have "map of_char s = map fst (runes s)" using assms(2) by (simp add: runes_ascii_string comp_def)
  also have "\<dots> = map of_char k @ map fst t" using a by simp
  finally have "map char_of (map of_char s :: nat list) = map char_of (map of_char k @ map fst t)" by (rule arg_cong)
  then have "s = k @ map (char_of \<circ> fst) t" by (simp add: comp_def)
  then show ?thesis ..
qed

lemma FindSubmatch_print:
  assumes v: "plain_word v"
  shows "FindSubmatch rPrint (print_line v) = Some [(''variable'', v)]"
proof -
  let ?R = "\<lambda>s. map (\<lambda>c. (of_char c :: nat, [c])) s"
  let ?s = "(32 :: nat, '' '')" and ?v = "RGroup ''variable'' (RRep NonSpace 1 None)"
  have r: "runes (print_line v) = ?R ''print'' @ [?s] @ ?R v"
    using runes_ascii_string [of "print_line v"] plain_word_ascii [OF v] by (simp add: print_line_def ascii_def)
  have nv: "\<forall>x \<in> set (?R v). in_class NonSpace (fst x)" using plain_word_nonspace(1) [OF v] by blast
  have len: "Suc 0 \<le> length (?R v)" using v by (simp add: plain_word_def Suc_le_eq)
  have "(?R v, [], [(''variable'', text_bytes (?R v))]) \<in> set (matches ?v (?R v))"
    unfolding matches_group matches_plus using nv len by simp
  moreover have "([?s], ?R v, []) \<in> set (matches (RRep Space 1 None) ([?s] @ ?R v))"
    unfolding matches_plus by simp
  moreover have "(?R ''print'', [?s] @ ?R v, []) \<in> set (matches (lit ''print'') (?R ''print'' @ [?s] @ ?R v))"
    unfolding matches_lit by simp
  ultimately have "\<exists>p g. (p, [], g) \<in> set (matches rPrint (runes (print_line v)))"
    unfolding r rPrint_def by (meson matches_seqI)
  then obtain g where g: "FindSubmatch rPrint (print_line v) = Some g" using FindSubmatch_None by fastforce
  from FindSubmatch_Some [OF g] obtain p where p: "(p, [], g) \<in> set (matches rPrint (runes (print_line v)))"
    by blast
  then obtain a r1 g1 p2 g2 where 1: "(a, r1, g1) \<in> set (matches (lit ''print'') (runes (print_line v)))"
    "(p2, [], g2) \<in> set (matches (RSeq (RRep Space 1 None) ?v) r1)" "g = g1 @ g2"
    unfolding rPrint_def by (subst (asm) matches_seq) blast
  from 1(2) obtain sp r2 g3 v' g4 where 2: "(sp, r2, g3) \<in> set (matches (RRep Space 1 None) r1)"
    "(v', [], g4) \<in> set (matches ?v r2)" "g2 = g3 @ g4"
    by (subst (asm) matches_seq) blast
  have a: "runes (print_line v) = a @ r1" "map fst a = map of_char ''print''" "g1 = []"
    using 1(1) unfolding matches_lit by simp_all
  have sp: "r1 = sp @ r2" "Suc 0 \<le> length sp" "\<forall>x \<in> set sp. in_class Space (fst x)" "g3 = []"
    using 2(1) unfolding matches_plus by simp_all
  have v': "r2 = v'" "g4 = [(''variable'', text_bytes v')]"
    using 2(2) unfolding matches_group matches_plus by auto
  have "length (?R ''print'') = length a" using arg_cong [OF a(2), of length] by simp
  from append_cancel [OF this a(1) [unfolded r]] sp(1) have "[?s] @ ?R v = sp @ r2" by simp
  from cut_spaces [OF this sp(2,3) nv] have "r2 = ?R v" by simp
  then show ?thesis using g 1(3) 2(3) a(3) sp(4) v' by (simp add: text_bytes_chars)
qed

lemma MatchString_start: "MatchString rStart s \<longleftrightarrow> s = ''start''"
  unfolding rStart_def by (rule MatchString_lit) (simp add: ascii_def)

lemma MatchString_quit: "MatchString rQuit s \<longleftrightarrow> s = ''quit''"
  unfolding rQuit_def by (rule MatchString_lit) (simp add: ascii_def)

lemma executor_set:
  assumes "plain_word v" "plain_word w"
  shows "executor (set_line v w) gs = (case prompt_set v w gs of (gs', out) \<Rightarrow> (gs', [], out))"
proof -
  have a: "ascii (set_line v w)"
    using plain_word_ascii [OF assms(1)] plain_word_ascii [OF assms(2)] by (simp add: set_line_def ascii_def)
  have t: "TrimSpace (set_line v w) = set_line v w"
    using TrimSpace_line [of "''set '' @ v @ ''=''" w] assms plain_word_ascii [OF assms(1)]
    by (simp add: set_line_def ascii_def)
  have "FindSubmatch rPrint (set_line v w) = None"
  proof (rule ccontr)
    assume "FindSubmatch rPrint (set_line v w) \<noteq> None"
    then obtain g where "FindSubmatch rPrint (set_line v w) = Some g" by blast
    from FindSubmatch_keyword [OF this [unfolded rPrint_def] a] show False by (simp add: set_line_def)
  qed
  moreover have "\<not> MatchString rStart (set_line v w)" "\<not> MatchString rQuit (set_line v w)"
    by (simp_all add: MatchString_start MatchString_quit set_line_def)
  ultimately show ?thesis
    by (simp add: executor_def t FindSubmatch_set [OF assms] group_of_def)
qed

lemma executor_print:
  assumes "plain_word v"
  shows "executor (print_line v) gs = (gs, [], prompt_print v gs)"
proof -
  have t: "TrimSpace (print_line v) = print_line v"
    using TrimSpace_line [of "''print ''" v] assms by (simp add: print_line_def ascii_def)
  have "\<not> MatchString rStart (print_line v)" "\<not> MatchString rQuit (print_line v)"
    by (simp_all add: MatchString_start MatchString_quit print_line_def)
  then show ?thesis by (simp add: executor_def t FindSubmatch_print [OF assms] group_of_def)
qed


section \<open>Lemmas: what a line may do\<close>

lemma executor_cases:
  obtains (start) "TrimSpace line = ''start''" "executor line gs = prompt_start gs"
  | (quit) "TrimSpace line = ''quit''" "executor line gs = (gs, [SendShellExit 0], [])"
  | (other) gs' out where "TrimSpace line \<noteq> ''start''" "TrimSpace line \<noteq> ''quit''"
      "executor line gs = (gs', [], out)" "set_keeps gs gs'"
proof -
  have *: "\<exists>gs' out. executor line gs = (gs', [], out) \<and> set_keeps gs gs'"
    if "TrimSpace line \<noteq> ''start''" "TrimSpace line \<noteq> ''quit''"
  proof -
    have no: "\<not> MatchString rStart (TrimSpace line)" "\<not> MatchString rQuit (TrimSpace line)"
      using that by (simp_all only: MatchString_start MatchString_quit not_False_eq_True)
    show ?thesis
    proof (cases "FindSubmatch rPrint (TrimSpace line)")
      case (Some m)
      with no show ?thesis by (simp add: executor_def set_keeps_refl)
    next
      case None
      show ?thesis
      proof (cases "FindSubmatch rSet (TrimSpace line)")
        case (Some m)
        let ?p = "prompt_set (group_of m ''variable'') (group_of m ''value'') gs"
        have "executor line gs = (fst ?p, [], snd ?p)"
          unfolding executor_def Let_def using no None Some by (simp only: if_False option.case prod.case_eq_if)
        with prompt_set_keeps show ?thesis by blast
      next
        case None': None
        have "executor line gs = (gs, [], syntax_hint (TrimSpace line))"
          unfolding executor_def Let_def using no None None' by (simp only: if_False option.case)
        with set_keeps_refl show ?thesis by blast
      qed
    qed
  qed
  show thesis
  proof (cases "MatchString rStart (TrimSpace line)")
    case True
    then show ?thesis
      by (intro start) (simp only: MatchString_start, simp only: executor_def Let_def if_True)
  next
    case ns: False
    show ?thesis
    proof (cases "MatchString rQuit (TrimSpace line)")
      case True
      with ns show ?thesis
        by (intro quit) (simp only: MatchString_quit, simp only: executor_def Let_def if_True if_False)
    next
      case False
      with ns have "TrimSpace line \<noteq> ''start''" "TrimSpace line \<noteq> ''quit''"
        by (simp_all only: MatchString_start MatchString_quit not_False_eq_True)
      with * other show ?thesis by blast
    qed
  qed
qed

text \<open>What every line keeps: the bounds of the parameters and the lists of clients.\<close>

definition line_keeps :: "GlobalState \<Rightarrow> GlobalState \<Rightarrow> bool" where
  "line_keeps gs gs' \<longleftrightarrow> (config_ok gs \<longrightarrow> config_ok gs') \<and> roster gs' = roster gs
     \<and> gs_GameLogic gs' = gs_GameLogic gs \<and> gs_Visus gs' = gs_Visus gs"

lemma line_keeps_trans [trans]: "line_keeps a b \<Longrightarrow> line_keeps b c \<Longrightarrow> line_keeps a c"
  by (simp add: line_keeps_def)

lemma line_keeps_prompt: "line_keeps gs (gs\<lparr>gs_prompt := b\<rparr>)"
  by (simp add: line_keeps_def config_ok_def roster_def)

lemma executor_keeps: "executor line gs = (gs', ops, out) \<Longrightarrow> line_keeps gs gs'"
proof (cases rule: executor_cases [of line gs])
  case start
  moreover assume "executor line gs = (gs', ops, out)"
  ultimately show ?thesis
    by (auto simp: prompt_start_def line_keeps_def config_ok_def roster_def split: if_splits list.splits)
qed (auto simp: line_keeps_def set_keeps_def)

lemma run_lines_keeps: "run_lines ls gs = (gs', ops, out) \<Longrightarrow> line_keeps gs gs'"
proof (induction ls arbitrary: gs gs' ops out)
  case Nil
  then show ?case by (simp add: line_keeps_def)
next
  case (Cons l ls)
  then show ?case by (auto split: prod.splits intro: line_keeps_trans executor_keeps)
qed

definition is_start :: "chan_op \<Rightarrow> bool" where
  "is_start op \<longleftrightarrow> (case op of SendStart _ \<Rightarrow> True | _ \<Rightarrow> False)"

lemma executor_starts:
  "executor line gs = (gs', ops, out) \<Longrightarrow> filter is_start ops =
     (if TrimSpace line = ''start'' \<and> gs_GameState gs = GAME_NOT_RUNNING \<and> length (gs_GameLogic gs) = 1
      then [SendStart (hd (gs_GameLogic gs))] else [])
   \<and> gs_GameState gs' = (if filter is_start ops = [] then gs_GameState gs else GAME_RUNNING)"
proof (cases rule: executor_cases [of line gs])
  case start
  moreover assume "executor line gs = (gs', ops, out)"
  ultimately show ?thesis
    by (auto simp: prompt_start_def is_start_def split: if_splits list.splits)
qed (auto simp: set_keeps_def is_start_def)

section \<open>Lemmas: whole sessions\<close>

lemma run_lines_not_started:
  "run_lines ls gs = (gs', ops, out) \<Longrightarrow> gs_GameState gs \<noteq> GAME_NOT_RUNNING
     \<Longrightarrow> filter is_start ops = [] \<and> gs_GameState gs' = gs_GameState gs"
proof (induction ls arbitrary: gs gs' ops out)
  case (Cons l ls)
  then obtain g1 o1 u1 o2 u2 where e: "executor l gs = (g1, o1, u1)" "run_lines ls g1 = (gs', o2, u2)"
    "ops = o1 @ o2"
    by (auto split: prod.splits)
  from executor_starts [OF e(1)] Cons.prems(2) have "filter is_start o1 = []" "gs_GameState g1 = gs_GameState gs"
    by simp_all
  with Cons.IH [OF e(2)] Cons.prems(2) e(3) show ?case by simp
qed simp

lemma run_lines_starts:
  "run_lines ls gs = (gs', ops, out) \<Longrightarrow> length (filter is_start ops) \<le> 1
     \<and> (filter is_start ops \<noteq> [] \<longrightarrow> gs_GameState gs = GAME_NOT_RUNNING \<and> gs_GameState gs' = GAME_RUNNING)"
proof (induction ls arbitrary: gs gs' ops out)
  case (Cons l ls)
  then obtain g1 o1 u1 o2 u2 where e: "executor l gs = (g1, o1, u1)" "run_lines ls g1 = (gs', o2, u2)"
    "ops = o1 @ o2"
    by (auto split: prod.splits)
  show ?case
  proof (cases "filter is_start o1 = []")
    case True
    with executor_starts [OF e(1)] Cons.IH [OF e(2)] e(3) show ?thesis by simp
  next
    case False
    with executor_starts [OF e(1)] have "length (filter is_start o1) = 1"
      "gs_GameState gs = GAME_NOT_RUNNING" "gs_GameState g1 = GAME_RUNNING"
      by (auto split: if_splits)
    with run_lines_not_started [OF e(2)] e(3) show ?thesis by simp
  qed
qed simp

text \<open>The lines of an input, as \<open>ReadString('\n')\<close> cuts it: what follows the last line feed is a line.\<close>

primrec lines_of :: "string \<Rightarrow> string list" where
  "lines_of [] = []"
| "lines_of (c # cs) = (if c = newline then [c] # lines_of cs
     else case lines_of cs of [] \<Rightarrow> [[c]] | l # ls \<Rightarrow> (c # l) # ls)"

lemma lines_of_Nil [simp]: "lines_of s = [] \<longleftrightarrow> s = []"
  by (cases s) (auto split: list.split)

lemma ReadLine_lines:
  "ReadLine input = (line, rest) \<Longrightarrow> input \<noteq> [] \<Longrightarrow>
     lines_of input = line # lines_of rest \<and> length rest < length input"
proof (induction input arbitrary: line rest)
  case (Cons c cs)
  show ?case
  proof (cases "c = newline")
    case True
    with Cons.prems show ?thesis by (auto simp: ReadLine_def)
  next
    case False
    obtain l r where lr: "ReadLine cs = (l, r)" by fastforce
    with False Cons.prems(1) have e: "line = c # l" "rest = r"
      by (auto simp: ReadLine_def split: list.splits)
    show ?thesis
    proof (cases "cs = []")
      case True
      with False e lr show ?thesis by (simp add: ReadLine_def)
    next
      case False': False
      from Cons.IH [OF lr False'] e False show ?thesis by simp
    qed
  qed
qed simp

lemma ReadLine_eof [simp]: "ReadLine [] = ([], [])"
  by (simp add: ReadLine_def)

lemma executor_empty: "executor [] gs = (gs, [], [])"
proof -
  have t: "TrimSpace [] = []" by (simp add: TrimSpace_def text_bytes_def)
  have "FindSubmatch rPrint [] = None" "FindSubmatch rSet [] = None"
    using FindSubmatch_keyword [of "''print''" _ "[]"] FindSubmatch_keyword [of "''set''" _ "[]"]
    unfolding rPrint_def rSet_def by (fastforce simp: ascii_def)+
  then show ?thesis
    by (simp add: executor_def t MatchString_start MatchString_quit syntax_hint_def)
qed

lemma nonInteractive_eof: "nonInteractivePrompt n [] gs = ([], gs, [], [])"
  by (induction n) (simp_all add: executor_empty)

lemma nonInteractive_lines:
  "length input \<le> n \<Longrightarrow> nonInteractivePrompt n input gs = ([], run_lines (lines_of input) gs)"
proof (induction n arbitrary: input gs)
  case (Suc n)
  show ?case
  proof (cases "input = []")
    case True
    then show ?thesis by (simp only: nonInteractive_eof) simp
  next
    case False
    obtain line rest where lr: "ReadLine input = (line, rest)" by fastforce
    from ReadLine_lines [OF lr False] Suc.prems
    have "lines_of input = line # lines_of rest" "length rest \<le> n" by simp_all
    with Suc.IH [of rest] lr show ?thesis by (simp split: prod.split)
  qed
qed simp

text \<open>The parameters with their bounds; the two delays are floating-point numbers.\<close>

definition parameter_bounds :: "string \<Rightarrow> (int \<times> int) option" where
  "parameter_bounds = map_of [(''nb-turns-max'', (1, 65535)), (''nb-players-max'', (1, 1024)),
     (''nb-splayers-max'', (0, 1024)), (''nb-visus-max'', (0, 1024)),
     (''delay-first-turn'', (50, 10000)), (''delay-turns'', (50, 10000))]"

definition is_delay :: "string \<Rightarrow> bool" where
  "is_delay v \<longleftrightarrow> v = ''delay-first-turn'' \<or> v = ''delay-turns''"

text \<open>The state that differs in one parameter only, and how the parameter is printed.\<close>

definition with_parameter :: "string \<Rightarrow> int \<Rightarrow> GlobalState \<Rightarrow> GlobalState" where
  "with_parameter v i gs =
     (if v = ''nb-turns-max'' then gs\<lparr>gs_NbTurnsMax := i\<rparr>
      else if v = ''nb-players-max'' then gs\<lparr>gs_NbPlayersMax := i\<rparr>
      else if v = ''nb-splayers-max'' then gs\<lparr>gs_NbSpecialPlayersMax := i\<rparr>
      else if v = ''nb-visus-max'' then gs\<lparr>gs_NbVisusMax := i\<rparr>
      else if v = ''delay-first-turn'' then gs\<lparr>gs_MillisecondsBeforeFirstTurn := float_of_int i\<rparr>
      else gs\<lparr>gs_MillisecondsBetweenTurns := float_of_int i\<rparr>)"

definition parameter_text :: "string \<Rightarrow> int \<Rightarrow> string" where
  "parameter_text v i = (if is_delay v then format_v (float_of_int i) else show_int i)"

lemma parameter_cases:
  assumes "parameter_bounds v = Some (lo, hi)"
  obtains "v = ''nb-turns-max''" "lo = 1" "hi = 65535" | "v = ''nb-players-max''" "lo = 1" "hi = 1024"
    | "v = ''nb-splayers-max''" "lo = 0" "hi = 1024" | "v = ''nb-visus-max''" "lo = 0" "hi = 1024"
    | "v = ''delay-first-turn''" "lo = 50" "hi = 10000" | "v = ''delay-turns''" "lo = 50" "hi = 10000"
proof -
  have "(v, lo, hi) = (''nb-turns-max'', 1, 65535) \<or> (v, lo, hi) = (''nb-players-max'', 1, 1024)
      \<or> (v, lo, hi) = (''nb-splayers-max'', 0, 1024) \<or> (v, lo, hi) = (''nb-visus-max'', 0, 1024)
      \<or> (v, lo, hi) = (''delay-first-turn'', 50, 10000) \<or> (v, lo, hi) = (''delay-turns'', 50, 10000)"
    using map_of_SomeD [OF assms [unfolded parameter_bounds_def]]
    by (simp only: set_simps insert_iff empty_iff simp_thms)
  then show ?thesis by (elim disjE) (use that in \<open>simp_all only: prod.inject simp_thms\<close>)
qed

lemma float_le_of_int: "float_le (float_of_int i) (float_of_int j) \<longleftrightarrow> i \<le> j"
  by (auto simp: float_of_int_def)

lemma set_parameter:
  assumes "parameter_bounds v = Some (lo, hi)" "n < (if is_delay v then 2 ^ 53 else 2 ^ 63)"
  shows "prompt_set v (show_nat n) gs =
    (if lo \<le> int n \<and> int n \<le> hi then (with_parameter v (int n) gs, [])
     else (gs, [OutText (''Bad VALUE='' @ parameter_text v (int n) @ '': Not in ['' @ show_int lo @ '','' @ show_int hi @ '']'')]))"
proof -
  have i: "ParseInt (show_nat n) 0 64 = (int n, None)" if "\<not> is_delay v" using that assms(2) by (intro ParseInt_show_nat) simp
  have f: "ParseFloat (show_nat n) = Inr (float_of_int (int n))" if "is_delay v"
    using ParseFloat_show_int [of "int n"] that assms(2) by (simp add: show_int_def)
  note defs = prompt_set_def stringInSlice_def acceptedSetVariables_def with_parameter_def parameter_text_def is_delay_def
  from assms(1) show ?thesis
    by (cases rule: parameter_cases)
      (use i f in \<open>simp_all add: defs set_int_def set_float_def float_le_of_int\<close>)
qed

lemma set_unreadable:
  "snd (ParseInt w 0 64) = Some err \<Longrightarrow> set_int w lo hi upd gs = (gs, [OutBadNumber w err])"
  "ParseFloat w = Inl err \<Longrightarrow> set_float w lo hi upd' gs = (gs, [OutBadNumber w err])"
  by (cases "ParseInt w 0 64"; simp add: set_int_def) (simp add: set_float_def)

lemma set_parameter_unreadable:
  assumes "parameter_bounds v = Some (lo, hi)"
    "if is_delay v then ParseFloat w = Inl err else snd (ParseInt w 0 64) = Some err"
  shows "prompt_set v w gs = (gs, [OutBadNumber w err])"
  using assms(1) by (cases rule: parameter_cases)
    (use assms(2) in \<open>simp_all add: prompt_set_def stringInSlice_def acceptedSetVariables_def set_unreadable is_delay_def\<close>)

lemma print_parameter:
  assumes "parameter_bounds v = Some (lo, hi)"
  shows "plain_word v \<and> prompt_print v (with_parameter v i gs) = [OutText (v @ ''='' @ parameter_text v i)]"
  using assms by (cases rule: parameter_cases)
    (simp_all add: prompt_print_def variable_line_def stringInSlice_def acceptedPrintVariables_def acceptedSetVariables_def plain_word_def
      with_parameter_def parameter_text_def is_delay_def)

section \<open>Properties\<close>

text \<open>
  C19. The command \<open>set VARIABLE=VALUE\<close>, for each of the six parameters.  A decimal value in the bounds
  is accepted in silence: the state differs in this parameter only, and \<open>print VARIABLE\<close> then answers
  that value.  Outside the bounds nothing changes and the bounds are printed.  A value that cannot be
  read as a number (of the kind of the parameter) changes nothing and is answered by the error.
\<close>

theorem set_then_print:
  assumes "parameter_bounds v = Some (lo, hi)" "n < (if is_delay v then 2 ^ 53 else 2 ^ 63)"
  shows "(if lo \<le> int n \<and> int n \<le> hi
     then executor (set_line v (show_nat n)) gs = (with_parameter v (int n) gs, [], [])
       \<and> executor (print_line v) (with_parameter v (int n) gs)
         = (with_parameter v (int n) gs, [], [OutText (v @ ''='' @ parameter_text v (int n))])
     else executor (set_line v (show_nat n)) gs = (gs, [], [OutText (''Bad VALUE='' @ parameter_text v (int n)
       @ '': Not in ['' @ show_int lo @ '','' @ show_int hi @ '']'')]))
   \<and> (\<forall>w err. plain_word w \<and> (if is_delay v then ParseFloat w = Inl err else snd (ParseInt w 0 64) = Some err)
       \<longrightarrow> executor (set_line v w) gs = (gs, [], [OutBadNumber w err]))"
proof (intro conjI allI impI)
  note p = print_parameter [OF assms(1)]
  have e: "executor (set_line v w) gs = (case prompt_set v w gs of (gs', out) \<Rightarrow> (gs', [], out))" if "plain_word w" for w
    using p that by (intro executor_set) simp_all
  show "if lo \<le> int n \<and> int n \<le> hi
     then executor (set_line v (show_nat n)) gs = (with_parameter v (int n) gs, [], [])
       \<and> executor (print_line v) (with_parameter v (int n) gs)
         = (with_parameter v (int n) gs, [], [OutText (v @ ''='' @ parameter_text v (int n))])
     else executor (set_line v (show_nat n)) gs = (gs, [], [OutText (''Bad VALUE='' @ parameter_text v (int n)
       @ '': Not in ['' @ show_int lo @ '','' @ show_int hi @ '']'')])"
    using p executor_print [of v] by (simp add: e plain_word_show_nat set_parameter [OF assms])
  fix w err
  assume "plain_word w \<and> (if is_delay v then ParseFloat w = Inl err else snd (ParseInt w 0 64) = Some err)"
  with e [of w] set_parameter_unreadable [OF assms(1)] show "executor (set_line v w) gs = (gs, [], [OutBadNumber w err])" by simp
qed

theorem set_then_print_witness:
  "executor ''set nb-turns-max=7'' bob_server = (bob_server\<lparr>gs_NbTurnsMax := 7\<rparr>, [], [])
   \<and> executor ''print nb-turns-max'' (bob_server\<lparr>gs_NbTurnsMax := 7\<rparr>)
       = (bob_server\<lparr>gs_NbTurnsMax := 7\<rparr>, [], [OutText ''nb-turns-max=7''])
   \<and> executor ''set delay-turns=500'' bob_server = (bob_server\<lparr>gs_MillisecondsBetweenTurns := float_of_int 500\<rparr>, [], [])
   \<and> executor ''set nb-visus-max=2000'' bob_server
       = (bob_server, [], [OutText ''Bad VALUE=2000: Not in [0,1024]''])"
proof -
  have n: "show_nat 7 = ''7''" "show_nat 500 = ''500''" "show_nat 2000 = ''2000''" "show_int 7 = ''7''" "show_int 2000 = ''2000''"
    "show_int 0 = ''0''" "show_int 1024 = ''1024''"
    by code_simp+
  have v: "parameter_bounds ''nb-turns-max'' = Some (1, 65535)" "parameter_bounds ''delay-turns'' = Some (50, 10000)"
    "parameter_bounds ''nb-visus-max'' = Some (0, 1024)"
    by (simp_all add: parameter_bounds_def)
  note defs = n set_line_def print_line_def with_parameter_def parameter_text_def is_delay_def
  have "executor ''set nb-turns-max=7'' bob_server = (bob_server\<lparr>gs_NbTurnsMax := 7\<rparr>, [], [])
     \<and> executor ''print nb-turns-max'' (bob_server\<lparr>gs_NbTurnsMax := 7\<rparr>)
         = (bob_server\<lparr>gs_NbTurnsMax := 7\<rparr>, [], [OutText ''nb-turns-max=7''])"
    using conjunct1 [OF set_then_print [OF v(1), of 7 bob_server]] by (simp add: defs)
  moreover have "executor ''set delay-turns=500'' bob_server = (bob_server\<lparr>gs_MillisecondsBetweenTurns := float_of_int 500\<rparr>, [], [])"
    using conjunct1 [OF set_then_print [OF v(2), of 500 bob_server]] by (simp add: defs)
  moreover have "executor ''set nb-visus-max=2000'' bob_server = (bob_server, [], [OutText ''Bad VALUE=2000: Not in [0,1024]''])"
    using conjunct1 [OF set_then_print [OF v(3), of 2000 bob_server]] by (simp add: defs)
  ultimately show ?thesis by (intro conjI) simp_all
qed

text \<open>
  C20. No line typed at the prompt, and no sequence of lines, takes a parameter out of its bounds or
  changes the lists of clients; and however often \<open>start\<close> is typed, at most one start is sent to a
  game logic, and only out of the state "not running", which is left for "running".
\<close>

theorem prompt_session_safe:
  assumes "run_lines ls gs = (gs', ops, out)"
  shows "(config_ok gs \<longrightarrow> config_ok gs') \<and> roster gs' = roster gs \<and> gs_GameLogic gs' = gs_GameLogic gs
    \<and> length (filter is_start ops) \<le> 1
    \<and> (filter is_start ops \<noteq> [] \<longrightarrow> gs_GameState gs = GAME_NOT_RUNNING \<and> gs_GameState gs' = GAME_RUNNING)"
  using run_lines_keeps [OF assms] run_lines_starts [OF assms] unfolding line_keeps_def by blast

theorem prompt_session_safe_witness:
  "length (filter is_start (fst (snd (run_lines [''start'', ''print all'', ''start''] bob_server)))) \<le> 1"
proof -
  obtain gs ops out where r: "run_lines [''start'', ''print all'', ''start''] bob_server = (gs, ops, out)"
    by (metis prod_cases3)
  from prompt_session_safe [OF r] show ?thesis unfolding r by simp
qed

text \<open>
  C33. The prompt without a terminal runs exactly the lines of its input, one turn of its loop per
  line, and when the input has ended every further turn of the loop reads an empty line and does
  nothing: the loop never ends by itself and sends no exit code.
\<close>

theorem nonInteractivePrompt_runs_lines:
  "nonInteractivePrompt (length input + n) input gs = ([], run_lines (lines_of input) gs)
   \<and> RunPrompt False typed (length input + n) input gs = run_lines (lines_of input) gs
   \<and> nonInteractivePrompt n [] gs = ([], gs, [], [])"
  by (simp add: RunPrompt_def nonInteractive_lines nonInteractive_eof)

end
