(* ===== verification/Client_Lib.thy ===== *)
theory Client_Lib
  imports Control Json_Roundtrip
begin

text \<open>
  src/client/go/client.go: the client library.  A connection is held by its two halves: the bytes
  that the reader will still receive and the buffered writer.  What \<open>net.Dial\<close> and
  \<open>Conn.Close\<close> answer is an argument, since both are answers of the operating system.  A call
  through a nil pointer (before \<open>Connect\<close>, or after \<open>Disconnect\<close>) is a panic.
\<close>

section \<open>Model\<close>

text \<open>The fields \<open>conn\<close>, \<open>reader\<close> and \<open>writer\<close>: \<open>None\<close> and \<open>False\<close> stand for nil.\<close>

record ClientLib =
  lib_conn :: bool
  lib_reader :: "input option"
  lib_writer :: "bufio_writer option"

text \<open>A TCP connection as \<open>net.Dial\<close> hands it out.\<close>

record tcp_conn =
  tcp_in :: input
  tcp_out :: conn_out

definition Connect ::
  "(string \<Rightarrow> string + tcp_conn) \<Rightarrow> string \<Rightarrow> int \<Rightarrow> ClientLib \<Rightarrow> string option \<times> ClientLib" where
  "Connect Dial hostname port c =
     (let connectAddress = hostname @ '':'' @ show_int port in
      case Dial connectAddress of
        Inl err \<Rightarrow> (Some err, c\<lparr>lib_conn := False\<rparr>)
      | Inr conn \<Rightarrow> (None, c\<lparr>lib_conn := True, lib_reader := Some (tcp_in conn),
           lib_writer := Some \<lparr>w_buf = [], w_err = None, w_conn = tcp_out conn\<rparr>\<rparr>))"

definition Disconnect :: "string option \<Rightarrow> ClientLib \<Rightarrow> string option outcome \<times> ClientLib" where
  "Disconnect close_result c =
     (let c' = c\<lparr>lib_reader := None, lib_writer := None\<rparr>
      in if lib_conn c then (Returns close_result, c') else (Panics, c'))"

definition SendBytes :: "byte list \<Rightarrow> bool \<Rightarrow> ClientLib \<Rightarrow> string option outcome \<times> ClientLib" where
  "SendBytes content checkSize c =
     (if checkSize \<and> 16777215 \<le> length content
      then (Returns (Some ''content too big: size does not fit in 24 bits''), c)
      else (case lib_writer c of
          None \<Rightarrow> (Panics, c)
        | Some w \<Rightarrow> (case write_frame w content of
              (err, w') \<Rightarrow> (Returns err, c\<lparr>lib_writer := Some w'\<rparr>))))"

definition SendString :: "string \<Rightarrow> ClientLib \<Rightarrow> string option outcome \<times> ClientLib" where
  "SendString str c = SendBytes (bytes_of str) True c"

definition SendJSON :: "jobject \<Rightarrow> ClientLib \<Rightarrow> string option outcome \<times> ClientLib" where
  "SendJSON msg c = (case Marshal (JObj msg) of
      Inl err \<Rightarrow> (Returns (Some (''Cannot marshall JSON message: '' @ err)), c)
    | Inr content \<Rightarrow> SendBytes (bytes_of content) True c)"

definition login_object :: "string \<Rightarrow> string \<Rightarrow> string \<Rightarrow> jobject" where
  "login_object role nickname metaprotocolVersion =
     [(''message_type'', JStr ''LOGIN''), (''role'', JStr role), (''nickname'', JStr nickname),
      (''metaprotocol_version'', JStr metaprotocolVersion)]"

definition SendLogin ::
  "string \<Rightarrow> string \<Rightarrow> string \<Rightarrow> ClientLib \<Rightarrow> string option outcome \<times> ClientLib" where
  "SendLogin role nickname metaprotocolVersion c =
     SendJSON (login_object role nickname metaprotocolVersion) c"

definition ReadMessage :: "ClientLib \<Rightarrow> (string + jobject) outcome \<times> ClientLib" where
  "ReadMessage c = (case lib_reader c of
      None \<Rightarrow> (Panics, c)
    | Some st \<Rightarrow> (case ReadFull 4 st of
          Inl err \<Rightarrow> (Returns (Inl (''Remote endpoint closed? Read error: '' @ err)),
            c\<lparr>lib_reader := Some (st\<lparr>in_bytes := []\<rparr>)\<rparr>)
        | Inr (contentSizeBuf, st1) \<Rightarrow> (case ReadFull (unat (Uint32 contentSizeBuf)) st1 of
              Inl err \<Rightarrow> (Returns (Inl (''Remote endpoint closed? Read error: '' @ err)),
                c\<lparr>lib_reader := Some (st1\<lparr>in_bytes := []\<rparr>)\<rparr>)
            | Inr (contentBuf, st2) \<Rightarrow> (case Unmarshal contentBuf of
                  None \<Rightarrow> (Returns (Inl ''Non-JSON message received''), c\<lparr>lib_reader := Some st2\<rparr>)
                | Some msg \<Rightarrow> (Returns (Inr msg), c\<lparr>lib_reader := Some st2\<rparr>)))))"

section \<open>Lemmas: lengths\<close>

fun part_length :: "string result \<Rightarrow> nat" where
  "part_length (Inl e) = 0"
| "part_length (Inr s) = length s"

lemma length_join_parts: "join_parts rs = Inr s \<Longrightarrow> length s \<le> sum_list (map (\<lambda>r. part_length r + 1) rs)"
proof (induction rs arbitrary: s rule: join_parts.induct)
  case (3 r r2 rs)
  then obtain a b where "r = Inr a" "join_parts (r2 # rs) = Inr b" "s = a @ '','' @ b"
    by (auto split: sum.splits)
  with 3(1) [of a b] show ?case by simp
qed auto

lemma sum_list_sort_key: "sum_list (map f (sort_key k xs)) = (sum_list (map f xs) :: nat)"
  by (metis mset_map mset_sort sum_mset_sum_list)

text \<open>The text of an object of strings is at most six bytes per byte of its keys and values, and seven per field.\<close>

lemma length_string_object:
  assumes "Marshal (JObj (map (\<lambda>(k, v). (k, JStr v)) m)) = Inr s"
  shows "length s \<le> sum_list (map (\<lambda>(k, v). 6 * length k + 6 * length v + 6) m) + 2"
proof -
  let ?g = "\<lambda>(k, v). (k, Inr (quote_string v) :: string result)"
  have e: "marshal_fields (map (\<lambda>(k, v). (k, JStr v)) m) = map ?g m" by (induction m) auto
  obtain b where b: "join_parts (map field_part (sort_key fst (map ?g m))) = Inr b" "length s = length b + 2"
    using assms by (cases "join_parts (map field_part (sort_key fst (map ?g m)))") (auto simp: e enclose_def)
  have "length b \<le> sum_list (map (\<lambda>r. part_length r + 1) (map field_part (sort_key fst (map ?g m))))"
    by (rule length_join_parts [OF b(1)])
  also have "\<dots> = sum_list (map ((\<lambda>r. part_length r + 1) \<circ> field_part) (map ?g m))"
    by (simp only: map_map sum_list_sort_key)
  also have "\<dots> \<le> sum_list (map (\<lambda>(k, v). 6 * length k + 6 * length v + 6) m)"
  proof (induction m)
    case (Cons f m)
    obtain k v where f: "f = (k, v)" by fastforce
    with Cons length_quote_string [of k] length_quote_string [of v] show ?case by (simp add: field_part_def)
  qed simp
  finally show ?thesis using b(2) by simp
qed

lemma valid_ascii: "ascii s \<Longrightarrow> valid_utf8 s"
  by (auto simp: valid_utf8_def runes_ascii_string list_all_iff ascii_def RuneError_def)


lemma ascii_digits: "digits s \<Longrightarrow> ascii s"
  unfolding digits_def ascii_def list_all_iff
proof (intro ballI, elim conjE)
  fix c
  assume "\<forall>x \<in> set s. is_digit x" "c \<in> set s"
  then have "(of_char c :: nat) \<le> 57" unfolding is_digit_def by blast
  then show "of_char c < (128::nat)" by linarith
qed

lemma ascii_version: "version_ok v \<Longrightarrow> ascii v"
  unfolding version_ok_def by (auto simp: ascii_digits) (simp_all add: ascii_def ascii_digits [unfolded ascii_def])

section \<open>Lemmas: sending and receiving\<close>

lemma SendBytes_healthy:
  assumes "lib_writer c = Some w" "healthy w" "checkSize \<longrightarrow> length content < 16777215"
  shows "\<exists>w'. SendBytes content checkSize c = (Returns None, c\<lparr>lib_writer := Some w'\<rparr>) \<and> healthy w'
    \<and> w_buf w' = [] \<and> co_accepted (w_conn w') = pending w @ frame content"
  using write_frame_healthy [OF assms(2), of content] assms(1,3) by (auto simp: SendBytes_def)

lemma login_text:
  assumes "role \<in> set valid_roles" "valid_utf8 nickname" "valid_utf8 version"
    "length nickname + length version \<le> 100"
  shows "\<exists>s m. Marshal (JObj (login_object role nickname version)) = Inr s \<and> length s + 1 \<le> 1023
    \<and> Unmarshal (bytes_of s @ [10]) = Some m
    \<and> (\<forall>k. map_of m k = map_of (login_object role nickname version) k)"
proof -
  let ?o = "login_object role nickname version"
  let ?l = "[(''message_type'', ''LOGIN''), (''role'', role), (''nickname'', nickname), (''metaprotocol_version'', version)]"
  have "valid_utf8 role \<and> length role \<le> 14"
    using assms(1) by (cases rule: valid_role_cases) (simp_all add: valid_ascii ascii_def)
  note r = this
  have "valid_utf8 ''LOGIN''" by (rule valid_ascii) (simp add: ascii_def)
  note cl = clean_valid [OF this] clean_valid [OF assms(2)] clean_valid [OF assms(3)] clean_valid [of role]
  have "good_keys ?o" by (simp add: good_keys_def login_object_def valid_ascii ascii_def)
  moreover have "plain_value (JObj ?o)" by (simp add: login_object_def)
  ultimately obtain s m where s: "Marshal (JObj ?o) = Inr s" "Unmarshal (bytes_of s @ [10]) = Some m"
    "\<forall>k. map_of m k = map_option as_read (map_of ?o k)"
    using Unmarshal_Marshal [of ?o "JObj ?o"] by blast
  have "?o = map (\<lambda>(k, v). (k, JStr v)) ?l" by (simp add: login_object_def)
  with s(1) length_string_object [of ?l s]
  have "length s \<le> sum_list (map (\<lambda>(k, v). 6 * length k + 6 * length v + 6) ?l) + 2" by (simp only:)
  with r assms(4) have "length s + 1 \<le> 1023" by simp
  moreover have "map_option as_read (map_of ?o k) = map_of ?o k" for k
    using cl r by (simp add: login_object_def)
  ultimately show ?thesis using s by auto
qed

section \<open>Properties\<close>

text \<open>
  C8. Login from end to end: what \<open>SendLogin\<close> of the client library puts on a working connection
  is read by the server as one message, which \<open>readLoginMessage\<close> accepts with exactly the nickname,
  role and version that were passed.
\<close>

theorem SendLogin_received:
  assumes "lib_writer c = Some w" "healthy w" "pending w = []"
    and "role \<in> set valid_roles" "nickname_ok nickname" "valid_utf8 nickname" "version_ok version"
    and "length nickname + length version \<le> 100"
  shows "\<exists>w' m. SendLogin role nickname version c = (Returns None, c\<lparr>lib_writer := Some w'\<rparr>)
    \<and> readClientMessages \<lparr>in_bytes = co_accepted (w_conn w'), in_end = e\<rparr>
        = [good_message m, failed_message (end_error e)]
    \<and> readLoginMessage m = Inr \<lparr>login_nickname = nickname, login_role = role, login_version = version\<rparr>"
proof -
  have "valid_utf8 version" by (rule valid_ascii [OF ascii_version [OF assms(7)]])
  from login_text [OF assms(4,6) this assms(8)] obtain s m where
    s: "Marshal (JObj (login_object role nickname version)) = Inr s" "length s + 1 \<le> 1023"
      "Unmarshal (bytes_of s @ [10]) = Some m" "\<forall>k. map_of m k = map_of (login_object role nickname version) k"
    by blast
  obtain w' where w': "SendBytes (bytes_of s) True c = (Returns None, c\<lparr>lib_writer := Some w'\<rparr>)"
    "co_accepted (w_conn w') = frame (bytes_of s)"
    using SendBytes_healthy [OF assms(1,2), of True "bytes_of s"] assms(3) s(2) by auto
  have "readClientMessage \<lparr>in_bytes = frame (bytes_of s) @ [], in_end = e\<rparr> 1023 first_too_big
      = (good_message m, True, \<lparr>in_bytes = [], in_end = e\<rparr>)"
    using readClientMessage_frame [where st = "\<lparr>in_bytes = [], in_end = e\<rparr>" and rest = "[]"] s(2,3) by simp
  with read_later_frames [of "[]" "[]" e] w'(2)
  have "readClientMessages \<lparr>in_bytes = co_accepted (w_conn w'), in_end = e\<rparr>
      = [good_message m, failed_message (end_error e)]"
    by (simp add: readClientMessages_def)
  moreover have "readLoginMessage m = Inr \<lparr>login_nickname = nickname, login_role = role, login_version = version\<rparr>"
    unfolding readLoginMessage_iff using s(4) assms(4,5,7) by (simp add: login_object_def)
  moreover have "SendLogin role nickname version c = (Returns None, c\<lparr>lib_writer := Some w'\<rparr>)"
    using w'(1) s(1) by (simp add: SendLogin_def SendJSON_def)
  ultimately show ?thesis by blast
qed


text \<open>A client of the library whose connection works and is idle.\<close>

definition idle_lib :: ClientLib where
  "idle_lib = \<lparr>lib_conn = True, lib_reader = Some \<lparr>in_bytes = [], in_end = EOF\<rparr>,
     lib_writer = Some \<lparr>w_buf = [], w_err = None, w_conn = \<lparr>co_accepted = [], co_limit = None\<rparr>\<rparr>\<rparr>"

theorem SendLogin_received_witness:
  "\<exists>w' m. SendLogin ''player'' ''bob'' Version idle_lib = (Returns None, idle_lib\<lparr>lib_writer := Some w'\<rparr>)
    \<and> readClientMessages \<lparr>in_bytes = co_accepted (w_conn w'), in_end = EOF\<rparr>
        = [good_message m, failed_message (end_error EOF)]
    \<and> readLoginMessage m = Inr \<lparr>login_nickname = ''bob'', login_role = ''player'', login_version = Version\<rparr>"
proof (rule SendLogin_received)
  show "version_ok Version" by (rule version_ok_Version)
  show "length ''bob'' + length Version \<le> 100" by (simp add: length_Version)
  show "lib_writer idle_lib = Some \<lparr>w_buf = [], w_err = None, w_conn = \<lparr>co_accepted = [], co_limit = None\<rparr>\<rparr>"
    by (simp add: idle_lib_def)
qed (simp_all add: healthy_def pending_def valid_roles_def nickname_ok_def valid_utf8_def RuneError_def)

lemma ReadMessage_frame:
  assumes "lib_reader c = Some \<lparr>in_bytes = frame content @ rest, in_end = e\<rparr>"
    "length content + 1 < 2 ^ 32" "Unmarshal (content @ [10]) = Some m"
  shows "ReadMessage c = (Returns (Inr m), c\<lparr>lib_reader := Some \<lparr>in_bytes = rest, in_end = e\<rparr>\<rparr>)"
proof -
  have "ReadFull 4 \<lparr>in_bytes = frame content @ rest, in_end = e\<rparr>
      = Inr (PutUint32 (word_of_nat (length content) + 1), \<lparr>in_bytes = content @ [10] @ rest, in_end = e\<rparr>)"
    using frame_read_size [where st = "\<lparr>in_bytes = [], in_end = e\<rparr>" and rest = rest and content = content] by simp
  then show ?thesis
    using assms by (simp add: ReadMessage_def unat_frame_size [OF assms(2)] ReadFull_def)
qed

primrec read_messages :: "nat \<Rightarrow> ClientLib \<Rightarrow> (string + jobject) outcome list \<times> ClientLib" where
  "read_messages 0 c = ([], c)"
| "read_messages (Suc n) c = (case ReadMessage c of
     (r, c') \<Rightarrow> (case read_messages n c' of (rs, c'') \<Rightarrow> (r # rs, c'')))"

lemma read_messages_frames:
  assumes "list_all2 (\<lambda>b m. length b < 16777215 \<and> Unmarshal (b @ [10]) = Some m) bs ms"
    "lib_reader c = Some \<lparr>in_bytes = concat (map frame bs), in_end = e\<rparr>"
  shows "read_messages (length ms) c
    = (map (Returns \<circ> Inr) ms, c\<lparr>lib_reader := Some \<lparr>in_bytes = [], in_end = e\<rparr>\<rparr>)"
  using assms
proof (induction arbitrary: c rule: list_all2_induct)
  case Nil
  then show ?case by simp
next
  case (Cons b bs m ms)
  let ?c = "c\<lparr>lib_reader := Some \<lparr>in_bytes = concat (map frame bs), in_end = e\<rparr>\<rparr>"
  have "ReadMessage c = (Returns (Inr m), ?c)"
    by (rule ReadMessage_frame [of c b "concat (map frame bs)" e m]) (use Cons in simp_all)
  with Cons.IH [of ?c] show ?case by simp
qed

lemma kick_text:
  assumes "6 * length reason + 200 \<le> 16777215" "wire_ok cl" "cl_state cl \<noteq> CLIENT_KICKED"
  shows "\<exists>b. cl_outbox (Kick cl reason) = cl_outbox cl @ [(kick_msg reason, b)] \<and> length b < 16777215
    \<and> Unmarshal (b @ [10]) = Some [(''message_type'', JStr ''KICK''), (''kick_reason'', JStr (clean reason))]"
proof -
  let ?m = "\<lparr>kick_MessageType = ''KICK'', kick_KickReason = reason\<rparr>"
  let ?o = "[(''message_type'', JStr ''KICK''), (''kick_reason'', JStr reason)]"
  have j: "MessageKick_json ?m = JStruct ?o" by (simp add: MessageKick_json_def)
  have g: "good_keys ?o" by (simp add: good_keys_def valid_ascii ascii_def)
  obtain s where s: "Marshal (JStruct ?o) = Inr s" using plain_marshals [of "JStruct ?o"] by auto
  have "clean ''KICK'' = ''KICK''" by (rule clean_valid, rule valid_ascii) (simp add: ascii_def)
  with as_read_struct(1) [OF g]
  have "as_read (JStruct ?o) = JObj [(''message_type'', JStr ''KICK''), (''kick_reason'', JStr (clean reason))]"
    by simp
  then have u: "Unmarshal (bytes_of s @ [10]) = Some [(''message_type'', JStr ''KICK''), (''kick_reason'', JStr (clean reason))]"
    by (intro Unmarshal_Marshal_value [OF _ s]) simp_all
  have "length s \<le> 6 * length reason + 190"
    using s length_quote_string [of reason] length_quote_string [of "''message_type''"]
      length_quote_string [of "''kick_reason''"] length_quote_string [of "''KICK''"]
    by (auto simp: field_part_def enclose_def)
  with assms(1) have l: "length s < 16777215" by simp
  have "healthy (cl_writer (cl\<lparr>cl_state := CLIENT_KICKED\<rparr>))" using assms(2) by (simp add: wire_ok_def)
  from send_json_healthy [OF this, of "MessageKick_json ?m" s "OKick ?m"] s j l
  have "cl_outbox (Kick cl reason) = cl_outbox cl @ [(kick_msg reason, bytes_of s)]"
    using assms(3) by (auto simp: Kick_def kick_msg_def)
  with u l show ?thesis by auto
qed


definition ready :: "ClientLib \<Rightarrow> bool" where
  "ready c \<longleftrightarrow> lib_conn c \<and> lib_reader c \<noteq> None \<and> lib_writer c \<noteq> None"

datatype lib_call =
    CallSendBytes "byte list" bool
  | CallSendString string
  | CallSendJSON jobject
  | CallSendLogin string string string
  | CallReadMessage

text \<open>The state after a call, or \<open>None\<close> when the call panics.\<close>

definition after :: "'a outcome \<times> ClientLib \<Rightarrow> ClientLib option" where
  "after r = (case fst r of Panics \<Rightarrow> None | Returns _ \<Rightarrow> Some (snd r))"

fun run_call :: "lib_call \<Rightarrow> ClientLib \<Rightarrow> ClientLib option" where
  "run_call (CallSendBytes content checkSize) c = after (SendBytes content checkSize c)"
| "run_call (CallSendString str) c = after (SendString str c)"
| "run_call (CallSendJSON msg) c = after (SendJSON msg c)"
| "run_call (CallSendLogin role nickname version) c = after (SendLogin role nickname version c)"
| "run_call CallReadMessage c = after (ReadMessage c)"

primrec lib_calls :: "lib_call list \<Rightarrow> ClientLib \<Rightarrow> ClientLib option" where
  "lib_calls [] c = Some c"
| "lib_calls (x # xs) c = (case run_call x c of None \<Rightarrow> None | Some c' \<Rightarrow> lib_calls xs c')"

lemma SendBytes_ready: "ready c \<Longrightarrow> \<exists>c'. after (SendBytes b k c) = Some c' \<and> ready c'"
  by (auto simp: ready_def SendBytes_def after_def split: option.splits prod.splits)

lemma run_call_ready: "ready c \<Longrightarrow> \<exists>c'. run_call x c = Some c' \<and> ready c'"
proof (cases x)
  case CallReadMessage
  assume "ready c"
  with CallReadMessage show ?thesis
    by (auto simp: ready_def ReadMessage_def after_def split: option.split sum.split)
qed (auto simp: SendString_def SendJSON_def SendLogin_def SendBytes_ready after_def [of "(Returns _, _)"]
    split: sum.split)

lemma lib_calls_ready: "ready c \<Longrightarrow> \<exists>c'. lib_calls xs c = Some c' \<and> ready c'"
proof (induction xs arbitrary: c)
  case (Cons x xs)
  from run_call_ready [OF Cons.prems] obtain c1 where "run_call x c = Some c1" "ready c1" by blast
  with Cons.IH [of c1] show ?case by simp
qed simp

text \<open>
  C18. A kick is delivered: on a working connection a client that is kicked reads, after the
  messages it was sent before, a KICK message with the reason, and that is the last message.
\<close>

theorem Kick_received:
  assumes "wire_ok cl" "cl_state cl \<noteq> CLIENT_KICKED" "6 * length reason + 200 \<le> 16777215"
    and "lib_reader c = Some \<lparr>in_bytes = co_accepted (w_conn (cl_writer (Kick cl reason))), in_end = e\<rparr>"
    and "list_all2 (\<lambda>x m. length (snd x) < 16777215 \<and> Unmarshal (snd x @ [10]) = Some m) (cl_outbox cl) ms"
  shows "fst (read_messages (length (cl_outbox cl) + 1) c) = map (Returns \<circ> Inr)
    (ms @ [[(''message_type'', JStr ''KICK''), (''kick_reason'', JStr (clean reason))]])"
proof -
  let ?k = "[(''message_type'', JStr ''KICK''), (''kick_reason'', JStr (clean reason))]"
  from kick_text [OF assms(3,1,2)] obtain b where
    b: "cl_outbox (Kick cl reason) = cl_outbox cl @ [(kick_msg reason, b)]" "length b < 16777215"
      "Unmarshal (b @ [10]) = Some ?k" by blast
  have "list_all2 (\<lambda>b m. length b < 16777215 \<and> Unmarshal (b @ [10]) = Some m)
      (map snd (cl_outbox (Kick cl reason))) (ms @ [?k])"
    using assms(5) b by (simp add: list_all2_map1 list_all2_appendI)
  moreover have "lib_reader c = Some \<lparr>in_bytes = concat (map frame (map snd (cl_outbox (Kick cl reason)))), in_end = e\<rparr>"
    using wire_ok_Kick [OF assms(1), of reason] assms(4) by (simp add: wire_ok_def comp_def)
  moreover have "length (cl_outbox cl) = length ms" using assms(5) by (rule list_all2_lengthD)
  ultimately show ?thesis using read_messages_frames [of _ "ms @ [?k]" c e] by simp
qed

theorem Kick_received_witness:
  "fst (read_messages 1 (idle_lib\<lparr>lib_reader := Some \<lparr>in_bytes = co_accepted (w_conn (cl_writer
      (Kick (new_client [] None) ''game over''))), in_end = EOF\<rparr>\<rparr>))
    = [Returns (Inr [(''message_type'', JStr ''KICK''), (''kick_reason'', JStr (clean ''game over''))])]"
  using Kick_received [OF wire_ok_new_client, of "[]" "''game over''" "idle_lib\<lparr>lib_reader := Some
    \<lparr>in_bytes = co_accepted (w_conn (cl_writer (Kick (new_client [] None) ''game over''))), in_end = EOF\<rparr>\<rparr>" EOF "[]"]
  by (simp add: new_client_def)

text \<open>
  C31. The size field: on a working connection the four bytes in front of a message say its length
  with the line feed modulo \<open>2^32\<close>.  With the size check this is the exact length and fits the 24
  bits the server accepts; without it a content of \<open>2^32 - 1\<close> bytes is announced as empty.
\<close>

theorem SendBytes_header:
  assumes "lib_writer c = Some w" "healthy w" "pending w = []" "SendBytes content checkSize c = (Returns None, c')"
  shows "\<exists>w'. lib_writer c' = Some w'
    \<and> unat (Uint32 (take 4 (co_accepted (w_conn w')))) = (length content + 1) mod 2 ^ 32
    \<and> (checkSize \<longrightarrow> (length content + 1) mod 2 ^ 32 = length content + 1 \<and> length content + 1 \<le> 16777215)
    \<and> (length content = 2 ^ 32 - 1 \<longrightarrow> Uint32 (take 4 (co_accepted (w_conn w'))) = 0)"
proof -
  have k: "checkSize \<longrightarrow> length content < 16777215"
    using assms(4) by (auto simp: SendBytes_def split: if_splits)
  from SendBytes_healthy [OF assms(1,2) k] obtain w' where
    w': "SendBytes content checkSize c = (Returns None, c\<lparr>lib_writer := Some w'\<rparr>)"
      "co_accepted (w_conn w') = frame content"
    using assms(3) by auto
  have "take 4 (frame content) = PutUint32 (word_of_nat (length content) + 1)" by (simp add: frame_def)
  then have t: "Uint32 (take 4 (frame content)) = word_of_nat (length content + 1)" by simp
  have "unat (Uint32 (take 4 (frame content))) = (length content + 1) mod 2 ^ 32"
    unfolding t unat_of_nat take_bit_eq_mod by simp
  moreover from this have "length content = 2 ^ 32 - 1 \<Longrightarrow> unat (Uint32 (take 4 (frame content))) = 0" by simp
  ultimately show ?thesis using w' assms(4) k by (auto simp: unat_eq_0)
qed

theorem SendBytes_header_witness:
  "\<exists>w'. lib_writer (snd (SendBytes (bytes_of ''{}'') True idle_lib)) = Some w'
    \<and> unat (Uint32 (take 4 (co_accepted (w_conn w')))) = (length (bytes_of ''{}'') + 1) mod 2 ^ 32"
proof -
  let ?w = "\<lparr>w_buf = [], w_err = None, w_conn = \<lparr>co_accepted = [], co_limit = None\<rparr>\<rparr>"
  have w: "lib_writer idle_lib = Some ?w" "healthy ?w" "pending ?w = []"
    by (simp_all add: idle_lib_def healthy_def pending_def)
  from SendBytes_healthy [OF w(1,2), of True "bytes_of ''{}''"]
  obtain c' where "SendBytes (bytes_of ''{}'') True idle_lib = (Returns None, c')" by auto
  from SendBytes_header [OF w this] this show ?thesis by auto
qed

text \<open>
  C32. The life cycle of the library: after a successful \<open>Connect\<close> no sequence of sends and reads
  panics, whatever the connection does; after \<open>Disconnect\<close> a read and a send of acceptable size
  panic; and when a second \<open>Connect\<close> fails, the old reader and writer stay in place while
  \<open>Disconnect\<close> panics on the lost connection.
\<close>

theorem library_life_cycle:
  assumes "Connect Dial hostname port c = (None, c1)"
  shows "(\<exists>c2. lib_calls calls c1 = Some c2 \<and> fst (Disconnect answer c2) = Returns answer
      \<and> fst (ReadMessage (snd (Disconnect answer c2))) = Panics
      \<and> (length content < 16777215 \<longrightarrow> fst (SendBytes content True (snd (Disconnect answer c2))) = Panics))
    \<and> (\<forall>err c3. Connect Dial' hostname' port' c1 = (Some err, c3) \<longrightarrow>
         lib_reader c3 = lib_reader c1 \<and> lib_writer c3 = lib_writer c1 \<and> fst (Disconnect answer c3) = Panics)"
proof -
  have "ready c1" using assms by (auto simp: Connect_def ready_def split: sum.splits)
  from lib_calls_ready [OF this] obtain c2 where c2: "lib_calls calls c1 = Some c2" "ready c2" by blast
  have "fst (Disconnect answer c2) = Returns answer" "fst (ReadMessage (snd (Disconnect answer c2))) = Panics"
    using c2(2) by (simp_all add: Disconnect_def ready_def ReadMessage_def)
  moreover have "length content < 16777215 \<longrightarrow> fst (SendBytes content True (snd (Disconnect answer c2))) = Panics"
    by (simp add: Disconnect_def SendBytes_def Let_def)
  moreover have "lib_reader c3 = lib_reader c1 \<and> lib_writer c3 = lib_writer c1 \<and> fst (Disconnect answer c3) = Panics"
    if "Connect Dial' hostname' port' c1 = (Some err, c3)" for err c3
    using that by (auto simp: Connect_def Disconnect_def Let_def split: sum.splits)
  ultimately show ?thesis using c2(1) by blast
qed

theorem library_life_cycle_witness:
  "\<exists>c2. lib_calls [CallSendString ''hi'', CallReadMessage] (snd (Connect (\<lambda>_. Inr \<lparr>tcp_in =
        \<lparr>in_bytes = [], in_end = EOF\<rparr>, tcp_out = \<lparr>co_accepted = [], co_limit = Some (0, ''reset'')\<rparr>\<rparr>)
        ''localhost'' 4242 idle_lib)) = Some c2 \<and> fst (Disconnect None c2) = Returns None"
proof -
  let ?d = "\<lambda>_. Inr \<lparr>tcp_in = \<lparr>in_bytes = [], in_end = EOF\<rparr>, tcp_out = \<lparr>co_accepted = [], co_limit = Some (0, ''reset'')\<rparr>\<rparr>"
  have "Connect ?d ''localhost'' 4242 idle_lib = (None, snd (Connect ?d ''localhost'' 4242 idle_lib))"
    by (simp add: Connect_def)
  from library_life_cycle [OF this, of "[CallSendString ''hi'', CallReadMessage]" None] show ?thesis by blast
qed

end
