(* ===== verification/Main_Prog.thy ===== *)
theory Main_Prog
  imports Prompt Client_Lib
begin

text \<open>
  src/cmd/netorcai/main.go and \<open>RunServer\<close> of src/network.go: the command line, the initial state,
  the accept loop and the end of the program.  Not part of the program and therefore arguments:
  the answer of package docopt, whether the standard output is a terminal, what \<open>net.Listen\<close> and
  \<open>Listener.Accept\<close> answer, when the handlers of the connections return, and which of the four channels the final \<open>select\<close> receives from.
\<close>

section \<open>The command line\<close>

text \<open>The entry of an option in the table that docopt returns is a string or a boolean.\<close>

type_synonym arguments = jobject

definition arg_true :: "arguments \<Rightarrow> string \<Rightarrow> bool" where
  "arg_true arguments option \<longleftrightarrow> map_of arguments option = Some (JBool True)"

datatype log_level = DebugLevel | InfoLevel | WarnLevel

record log_config =
  log_json :: bool
  log_level :: log_level

definition setupLogging :: "arguments \<Rightarrow> log_config" where
  "setupLogging arguments =
     \<lparr>log_json = arg_true arguments ''--json-logs'',
      log_level = (if arg_true arguments ''--debug'' then DebugLevel
        else if arg_true arguments ''--quiet'' then WarnLevel
        else InfoLevel)\<rparr>"

text \<open>\<open>arguments[option].(bool)\<close>: a type assertion, which panics on any other type and on nil.\<close>

definition bool_arg :: "arguments \<Rightarrow> string \<Rightarrow> bool outcome" where
  "bool_arg arguments option = (case map_of arguments option of
      Some (JBool b) \<Rightarrow> Returns b
    | _ \<Rightarrow> Panics)"

definition initializeGlobalState :: "arguments \<Rightarrow> (arg_error + GlobalState) outcome" where
  "initializeGlobalState arguments =
    (case ReadIntInString arguments ''--nb-players-max'' 64 0 1024 of
       Inl err \<Rightarrow> Returns (Inl err)
     | Inr nbPlayersMax \<Rightarrow> (case ReadIntInString arguments ''--nb-splayers-max'' 64 0 1024 of
         Inl err \<Rightarrow> Returns (Inl err)
       | Inr nbSpecialPlayersMax \<Rightarrow> (case ReadIntInString arguments ''--nb-visus-max'' 64 0 1024 of
           Inl err \<Rightarrow> Returns (Inl err)
         | Inr nbVisusMax \<Rightarrow> (case ReadIntInString arguments ''--nb-turns-max'' 64 1 65535 of
             Inl err \<Rightarrow> Returns (Inl err)
           | Inr nbTurnsMax \<Rightarrow> (case ReadFloatInString arguments ''--delay-first-turn''
                 (float_of_int 50) (float_of_int 10000) of
               Inl err \<Rightarrow> Returns (Inl err)
             | Inr msBeforeFirstTurn \<Rightarrow> (case ReadFloatInString arguments ''--delay-turns''
                   (float_of_int 50) (float_of_int 10000) of
                 Inl err \<Rightarrow> Returns (Inl err)
               | Inr msBetweenTurns \<Rightarrow> (case bool_arg arguments ''--autostart'' of
                   Panics \<Rightarrow> Panics
                 | Returns autoStart \<Rightarrow> (case bool_arg arguments ''--fast'' of
                     Panics \<Rightarrow> Panics
                   | Returns fast \<Rightarrow> Returns (Inr
                       \<lparr>gs_listening = False, gs_prompt = False, gs_GameState = GAME_NOT_RUNNING,
                        gs_GameLogic = [], gs_Players = [], gs_SpecialPlayers = [], gs_Visus = [],
                        gs_NbPlayersMax = nbPlayersMax, gs_NbSpecialPlayersMax = nbSpecialPlayersMax,
                        gs_NbVisusMax = nbVisusMax, gs_NbTurnsMax = nbTurnsMax,
                        gs_Autostart = autoStart, gs_Fast = fast,
                        gs_MillisecondsBeforeFirstTurn = msBeforeFirstTurn,
                        gs_MillisecondsBetweenTurns = msBetweenTurns\<rparr>)))))))))"

section \<open>The server\<close>

text \<open>What main's four channels carry.\<close>

datatype exit_event =
    ServerExit int
  | GuardExit int
  | GameLogicExit int
  | ShellExit int

datatype accept_result =
    AcceptError string
  | Accepted string "(nat \<times> string) option"

record server =
  srv_handlers :: "(cid \<times> Client) list"
  srv_waiting :: nat
  srv_exits :: "exit_event list"
  srv_done :: bool
  srv_returned :: "cid list"

text \<open>The handlers that were started and those that have returned; the counter of the wait group; the exit codes sent.\<close>

definition server_start :: server where
  "server_start = \<lparr>srv_handlers = [], srv_waiting = 1, srv_exits = [], srv_done = False, srv_returned = []\<rparr>"

text \<open>
  One turn of the accept loop: an error ends the server, a connection gets a new \<open>Client\<close> and a
  goroutine of its own, counted by the wait group.
\<close>

definition accept_step :: "accept_result \<Rightarrow> server \<Rightarrow> server" where
  "accept_step a s = (case a of
      AcceptError err \<Rightarrow> s\<lparr>srv_exits := srv_exits s @ [ServerExit 1],
        srv_waiting := srv_waiting s - 1, srv_done := True\<rparr>
    | Accepted addr limit \<Rightarrow>
        s\<lparr>srv_handlers := srv_handlers s @ [(length (srv_handlers s), new_client addr limit)],
          srv_waiting := srv_waiting s + 1\<rparr>)"

fun accept_loop :: "accept_result list \<Rightarrow> server \<Rightarrow> server" where
  "accept_loop [] s = s"
| "accept_loop (a # as) s = (if srv_done s then s else accept_loop as (accept_step a s))"

text \<open>
  \<open>RunServer\<close> with the answers that \<open>Listen\<close> and \<open>Accept\<close> have given so far; the wait group
  counts the server itself.  The deferred \<open>Close\<close> ends the listening when the loop is left.
\<close>

definition RunServer ::
  "(string \<Rightarrow> string option) \<Rightarrow> int \<Rightarrow> accept_result list \<Rightarrow> GlobalState \<Rightarrow> GlobalState \<times> server" where
  "RunServer Listen port as gs =
     (let listenAddress = '':'' @ show_int port in
      case Listen listenAddress of
        Some err \<Rightarrow> (gs, server_start\<lparr>srv_exits := [ServerExit 1], srv_waiting := 0, srv_done := True\<rparr>)
      | None \<Rightarrow> (let s = accept_loop as server_start in (gs\<lparr>gs_listening := \<not> srv_done s\<rparr>, s)))"

text \<open>
  The server together with the handlers it started: each handler takes itself off the wait group when
  it returns (the deferred \<open>WaitGroup.Done()\<close> of \<open>handleClient\<close>), at any time and once.
\<close>

datatype server_event = Answered accept_result | HandlerReturned cid

definition handler_returns :: "cid \<Rightarrow> server \<Rightarrow> server" where
  "handler_returns c s =
     (if c \<in> set (map fst (srv_handlers s)) \<and> c \<notin> set (srv_returned s)
      then s\<lparr>srv_waiting := srv_waiting s - 1, srv_returned := srv_returned s @ [c]\<rparr> else s)"

fun server_run :: "server_event list \<Rightarrow> server \<Rightarrow> server" where
  "server_run [] s = s"
| "server_run (Answered a # es) s = server_run es (if srv_done s then s else accept_step a s)"
| "server_run (HandlerReturned c # es) s = server_run es (handler_returns c s)"

text \<open>How far the goroutine of the server is: before \<open>net.Listen\<close>, ended by its error, or in the accept loop.\<close>

datatype server_phase = BeforeListen | ListenFailed | Serving "server_event list"

fun server_at :: "server_phase \<Rightarrow> server" where
  "server_at BeforeListen = server_start"
| "server_at ListenFailed = server_start\<lparr>srv_exits := [ServerExit 1], srv_waiting := 0, srv_done := True\<rparr>"
| "server_at (Serving es) = server_run es server_start"


section \<open>The main function\<close>

text \<open>The goroutine of the signal guard takes one signal, however many arrive.\<close>

definition setupGuards :: "nat \<Rightarrow> exit_event list" where
  "setupGuards signals = (if 0 < signals then [GuardExit 1] else [])"

text \<open>docopt shows the help (with an error when the usage was wrong) or returns the table.\<close>

datatype docopt_result =
    HelpShown bool
  | ParsedArgs arguments

definition netorcai_version :: "string \<Rightarrow> string" where
  "netorcai_version version = (if version = [] then ''v'' @ Version else version)"

record started =
  st_port :: int
  st_state :: GlobalState
  st_log :: log_config
  st_interactive :: bool

text \<open>\<open>mainReturnWithCode\<close> up to its \<open>select\<close>: an exit code, or the program that is now running.\<close>

definition main_start ::
  "(string list \<Rightarrow> string \<Rightarrow> docopt_result) \<Rightarrow> bool \<Rightarrow> string \<Rightarrow> string list \<Rightarrow> (int + started) outcome" where
  "main_start ParseArgs is_terminal version argv =
     (case ParseArgs argv (netorcai_version version) of
        HelpShown err \<Rightarrow> Returns (Inl (if err then 1 else 0))
      | ParsedArgs arguments \<Rightarrow>
          (case ReadIntInString arguments ''--port'' 64 1 65535 of
             Inl err \<Rightarrow> Returns (Inl 1)
           | Inr port \<Rightarrow> (case initializeGlobalState arguments of
               Panics \<Rightarrow> Panics
             | Returns (Inl err) \<Rightarrow> Returns (Inl 1)
             | Returns (Inr gs) \<Rightarrow> Returns (Inr
                 \<lparr>st_port = port, st_state = gs, st_log = setupLogging arguments,
                  st_interactive = (if arg_true arguments ''--simple-prompt'' then False else is_terminal)\<rparr>))))"







section \<open>Lemmas: the initial state\<close>

lemma not_less_bounds:
  "\<not> float_less f (float_of_int lo) \<Longrightarrow> \<not> float_less (float_of_int hi) f \<Longrightarrow>
     f = FNaN \<or> float_le (float_of_int lo) f \<and> float_le f (float_of_int hi)"
  by (cases f) (auto simp: float_of_int_def split: if_splits)

definition delay_ok :: "float64 \<Rightarrow> bool" where
  "delay_ok f \<longleftrightarrow> float_le (float_of_int 50) f \<and> float_le f (float_of_int 10000)"

definition fresh_state :: "GlobalState \<Rightarrow> bool" where
  "fresh_state gs \<longleftrightarrow> gs_GameState gs = GAME_NOT_RUNNING \<and> roster gs = []
     \<and> \<not> gs_listening gs \<and> \<not> gs_prompt gs"

lemma initializeGlobalState_ok:
  assumes "initializeGlobalState args = Returns (Inr gs)"
  shows "fresh_state gs
    \<and> ReadIntInString args ''--nb-players-max'' 64 0 1024 = Inr (gs_NbPlayersMax gs)
    \<and> ReadIntInString args ''--nb-splayers-max'' 64 0 1024 = Inr (gs_NbSpecialPlayersMax gs)
    \<and> ReadIntInString args ''--nb-visus-max'' 64 0 1024 = Inr (gs_NbVisusMax gs)
    \<and> ReadIntInString args ''--nb-turns-max'' 64 1 65535 = Inr (gs_NbTurnsMax gs)
    \<and> ReadFloatInString args ''--delay-first-turn'' (float_of_int 50) (float_of_int 10000)
        = Inr (gs_MillisecondsBeforeFirstTurn gs)
    \<and> ReadFloatInString args ''--delay-turns'' (float_of_int 50) (float_of_int 10000)
        = Inr (gs_MillisecondsBetweenTurns gs)
    \<and> bool_arg args ''--autostart'' = Returns (gs_Autostart gs) \<and> bool_arg args ''--fast'' = Returns (gs_Fast gs)"
  using assms unfolding initializeGlobalState_def
  by (auto simp: fresh_state_def roster_def split: sum.splits outcome.splits)

lemma ReadIntInString_show:
  "map_of args k = Some (JStr (show_nat n)) \<Longrightarrow> lo \<le> int n \<Longrightarrow> int n \<le> hi \<Longrightarrow> hi < 2 ^ 63
     \<Longrightarrow> ReadIntInString args k 64 lo hi = Inr (int n)"
  by (simp add: ReadIntInString_Inr ParseInt_show_nat nat_less_iff)

lemma ReadFloatInString_show:
  assumes "map_of args k = Some (JStr (show_nat n))" "50 \<le> n" "n \<le> 10000"
  shows "ReadFloatInString args k (float_of_int 50) (float_of_int 10000) = Inr (float_of_int (int n))"
proof -
  have "show_nat n = show_int (int n)" by (simp add: show_int_def)
  then have "ParseFloat (show_nat n) = Inr (float_of_int (int n))"
    using ParseFloat_show_int [of "int n"] assms(3) by simp
  with assms show ?thesis by (auto simp: ReadFloatInString_Inr float_of_int_def)
qed


text \<open>The table that docopt builds from options given in decimal.\<close>

definition cli_arguments :: "nat \<Rightarrow> nat \<Rightarrow> nat \<Rightarrow> nat \<Rightarrow> nat \<Rightarrow> nat \<Rightarrow> bool \<Rightarrow> bool \<Rightarrow> arguments" where
  "cli_arguments players splayers visus turns first between auto fast =
     [(''--nb-players-max'', JStr (show_nat players)), (''--nb-splayers-max'', JStr (show_nat splayers)),
      (''--nb-visus-max'', JStr (show_nat visus)), (''--nb-turns-max'', JStr (show_nat turns)),
      (''--delay-first-turn'', JStr (show_nat first)), (''--delay-turns'', JStr (show_nat between)),
      (''--autostart'', JBool auto), (''--fast'', JBool fast)]"

lemma documented_accepted:
  assumes "players \<le> 1024" "splayers \<le> 1024" "visus \<le> 1024" "1 \<le> turns" "turns \<le> 65535"
    and "50 \<le> first" "first \<le> 10000" "50 \<le> between" "between \<le> 10000"
  shows "\<exists>gs. initializeGlobalState (cli_arguments players splayers visus turns first between auto fast)
      = Returns (Inr gs) \<and> config_ok gs
    \<and> gs_NbPlayersMax gs = int players \<and> gs_NbSpecialPlayersMax gs = int splayers
    \<and> gs_NbVisusMax gs = int visus \<and> gs_NbTurnsMax gs = int turns
    \<and> gs_MillisecondsBeforeFirstTurn gs = float_of_int (int first)
    \<and> gs_MillisecondsBetweenTurns gs = float_of_int (int between)
    \<and> gs_Autostart gs = auto \<and> gs_Fast gs = fast"
proof -
  let ?a = "cli_arguments players splayers visus turns first between auto fast"
  have "ReadIntInString ?a ''--nb-players-max'' 64 0 1024 = Inr (int players)"
    "ReadIntInString ?a ''--nb-splayers-max'' 64 0 1024 = Inr (int splayers)"
    "ReadIntInString ?a ''--nb-visus-max'' 64 0 1024 = Inr (int visus)"
    "ReadIntInString ?a ''--nb-turns-max'' 64 1 65535 = Inr (int turns)"
    by (rule ReadIntInString_show; use assms in \<open>simp add: cli_arguments_def\<close>)+
  moreover have "ReadFloatInString ?a ''--delay-first-turn'' (float_of_int 50) (float_of_int 10000) = Inr (float_of_int (int first))"
    "ReadFloatInString ?a ''--delay-turns'' (float_of_int 50) (float_of_int 10000) = Inr (float_of_int (int between))"
    by (rule ReadFloatInString_show; use assms in \<open>simp add: cli_arguments_def\<close>)+
  moreover have "bool_arg ?a ''--autostart'' = Returns auto" "bool_arg ?a ''--fast'' = Returns fast"
    by (simp_all add: bool_arg_def cli_arguments_def)
  ultimately show ?thesis using assms
    unfolding initializeGlobalState_def config_ok_def by (simp add: float_of_int_def)
qed

section \<open>Properties: the command line\<close>

text \<open>
  C21. Every state that the command line produces is fresh, its four maxima are within the
  documented bounds, and each delay is within \<open>[50, 10000]\<close> or not a number; so the parameters are
  in their bounds exactly when no delay was given as \<open>nan\<close>.
\<close>

theorem initial_configuration:
  assumes "initializeGlobalState args = Returns (Inr gs)"
  shows "fresh_state gs \<and> 0 \<le> gs_NbPlayersMax gs \<and> gs_NbPlayersMax gs \<le> 1024
    \<and> 0 \<le> gs_NbSpecialPlayersMax gs \<and> gs_NbSpecialPlayersMax gs \<le> 1024
    \<and> 0 \<le> gs_NbVisusMax gs \<and> gs_NbVisusMax gs \<le> 1024 \<and> 1 \<le> gs_NbTurnsMax gs \<and> gs_NbTurnsMax gs \<le> 65535
    \<and> (gs_MillisecondsBeforeFirstTurn gs = FNaN \<or> delay_ok (gs_MillisecondsBeforeFirstTurn gs))
    \<and> (gs_MillisecondsBetweenTurns gs = FNaN \<or> delay_ok (gs_MillisecondsBetweenTurns gs))
    \<and> (config_ok gs \<longleftrightarrow> gs_MillisecondsBeforeFirstTurn gs \<noteq> FNaN \<and> gs_MillisecondsBetweenTurns gs \<noteq> FNaN)"
proof -
  note i = initializeGlobalState_ok [OF assms]
  have b: "0 \<le> gs_NbPlayersMax gs \<and> gs_NbPlayersMax gs \<le> 1024" "0 \<le> gs_NbSpecialPlayersMax gs \<and> gs_NbSpecialPlayersMax gs \<le> 1024"
    "0 \<le> gs_NbVisusMax gs \<and> gs_NbVisusMax gs \<le> 1024" "1 \<le> gs_NbTurnsMax gs \<and> gs_NbTurnsMax gs \<le> 65535"
    using i unfolding ReadIntInString_Inr by blast+
  have d: "gs_MillisecondsBeforeFirstTurn gs = FNaN \<or> delay_ok (gs_MillisecondsBeforeFirstTurn gs)"
    "gs_MillisecondsBetweenTurns gs = FNaN \<or> delay_ok (gs_MillisecondsBetweenTurns gs)"
    using i not_less_bounds unfolding ReadFloatInString_Inr delay_ok_def by blast+
  have "\<not> delay_ok FNaN" by (simp add: delay_ok_def)
  with b d i show ?thesis unfolding config_ok_def delay_ok_def by metis
qed

theorem initial_configuration_witness:
  "\<exists>gs. initializeGlobalState (cli_arguments 4 0 1 100 1000 1000 False False) = Returns (Inr gs) \<and> fresh_state gs"
proof -
  have "\<exists>gs. initializeGlobalState (cli_arguments 4 0 1 100 1000 1000 False False) = Returns (Inr gs)"
    using documented_accepted [of 4 0 1 100 1000 1000 False False] by auto
  then obtain gs where "initializeGlobalState (cli_arguments 4 0 1 100 1000 1000 False False) = Returns (Inr gs)" ..
  from initial_configuration [OF this] this show ?thesis by blast
qed

text \<open>
  C22. Every documented value is accepted: options in decimal within their bounds give the state
  with exactly these parameters, and its parameters are in their bounds.
\<close>

theorem decimal_arguments_accepted:
  assumes "players \<le> 1024" "splayers \<le> 1024" "visus \<le> 1024" "1 \<le> turns" "turns \<le> 65535"
    and "50 \<le> first" "first \<le> 10000" "50 \<le> between" "between \<le> 10000"
  shows "\<exists>gs. initializeGlobalState (cli_arguments players splayers visus turns first between auto fast)
      = Returns (Inr gs) \<and> config_ok gs
    \<and> gs_NbPlayersMax gs = int players \<and> gs_NbSpecialPlayersMax gs = int splayers
    \<and> gs_NbVisusMax gs = int visus \<and> gs_NbTurnsMax gs = int turns
    \<and> gs_MillisecondsBeforeFirstTurn gs = float_of_int (int first)
    \<and> gs_MillisecondsBetweenTurns gs = float_of_int (int between)
    \<and> gs_Autostart gs = auto \<and> gs_Fast gs = fast"
  using documented_accepted [OF assms] .

theorem decimal_arguments_accepted_witness:
  "\<exists>gs. initializeGlobalState (cli_arguments 4 0 1 100 1000 1000 True False) = Returns (Inr gs)
     \<and> gs_NbPlayersMax gs = 4 \<and> gs_Autostart gs"
  using decimal_arguments_accepted [of 4 0 1 100 1000 1000 True False] by auto

text \<open>
  C38. The delays may be given as \<open>nan\<close>: no comparison with it is true, so it is accepted, the state
  is out of its bounds, and no GAME_STARTS message can be encoded with it.
\<close>

theorem nan_delay_accepted:
  "\<exists>gs. initializeGlobalState ((''--delay-turns'', JStr ''nan'') # cli_arguments 4 0 1 100 1000 1000 auto fast)
      = Returns (Inr gs) \<and> gs_MillisecondsBetweenTurns gs = FNaN \<and> \<not> config_ok gs
    \<and> (\<forall>infos m. \<nexists>json. Marshal (MessageGameStarts_json infos
          (m\<lparr>gst_DelayTurns := gs_MillisecondsBetweenTurns gs\<rparr>)) = Inr json)"
proof -
  let ?a = "(''--delay-turns'', JStr ''nan'') # cli_arguments 4 0 1 100 1000 1000 auto fast"
  have "ReadIntInString ?a ''--nb-players-max'' 64 0 1024 = Inr (int 4)"
    "ReadIntInString ?a ''--nb-splayers-max'' 64 0 1024 = Inr (int 0)"
    "ReadIntInString ?a ''--nb-visus-max'' 64 0 1024 = Inr (int 1)"
    "ReadIntInString ?a ''--nb-turns-max'' 64 1 65535 = Inr (int 100)"
    by (rule ReadIntInString_show; simp add: cli_arguments_def)+
  moreover have "ReadFloatInString ?a ''--delay-first-turn'' (float_of_int 50) (float_of_int 10000) = Inr (float_of_int (int 1000))"
    by (rule ReadFloatInString_show) (simp_all add: cli_arguments_def)
  moreover have "ParseFloat ''nan'' = Inr FNaN" by code_simp
  then have "ReadFloatInString ?a ''--delay-turns'' (float_of_int 50) (float_of_int 10000) = Inr FNaN"
    by (simp add: ReadFloatInString_Inr float_of_int_def)
  moreover have "bool_arg ?a ''--autostart'' = Returns auto" "bool_arg ?a ''--fast'' = Returns fast"
    by (simp_all add: bool_arg_def cli_arguments_def)
  moreover have "\<nexists>json. Marshal (MessageGameStarts_json infos (m\<lparr>gst_DelayTurns := FNaN\<rparr>)) = Inr json" for infos m
    using Marshal_total [of "MessageGameStarts_json infos (m\<lparr>gst_DelayTurns := FNaN\<rparr>)"]
    by (simp add: MessageGameStarts_json_def)
  ultimately show ?thesis unfolding initializeGlobalState_def config_ok_def by simp
qed

section \<open>Lemmas: the accept loop\<close>

definition is_accepted :: "accept_result \<Rightarrow> bool" where
  "is_accepted a \<longleftrightarrow> (case a of Accepted _ _ \<Rightarrow> True | AcceptError _ \<Rightarrow> False)"

fun accepted_client :: "accept_result \<Rightarrow> Client" where
  "accepted_client (Accepted addr limit) = new_client addr limit"
| "accepted_client (AcceptError err) = new_client [] None"

text \<open>
  The server as a function of the answers of \<open>Accept\<close>: a handler for each connection before the
  first error, numbered in order; after an error the server is done and has reported it once.
\<close>

lemma server_start_simps [simp]:
  "srv_handlers server_start = []" "srv_waiting server_start = 1" "srv_exits server_start = []"
  "\<not> srv_done server_start" "srv_returned server_start = []"
  by (simp_all add: server_start_def)

lemma accept_loop_done: "srv_done s \<Longrightarrow> accept_loop as s = s"
  by (cases as) simp_all

lemma accept_loop_spec:
  assumes "\<not> srv_done s" "1 \<le> srv_waiting s" 
  shows "srv_handlers (accept_loop as s) = srv_handlers s @ zip [length (srv_handlers s)..<length (srv_handlers s) + length as]
      (map accepted_client (takeWhile is_accepted as))
    \<and> srv_done (accept_loop as s) = (\<not> list_all is_accepted as)
    \<and> srv_exits (accept_loop as s) = srv_exits s @ (if list_all is_accepted as then [] else [ServerExit 1])
    \<and> srv_waiting (accept_loop as s) = srv_waiting s + length (takeWhile is_accepted as)
        - (if list_all is_accepted as then 0 else 1)"
  using assms
proof (induction as arbitrary: s)
  case (Cons a as)
  show ?case
  proof (cases a)
    case (AcceptError err)
    then show ?thesis using Cons.prems by (simp add: accept_step_def accept_loop_done is_accepted_def)
  next
    case (Accepted addr limit)
    let ?n = "length (srv_handlers s)"
    have "[?n..<?n + length (a # as)] = ?n # [Suc ?n..<Suc ?n + length as]" by (simp add: upt_rec)
    then show ?thesis
      using Cons.prems Cons.IH [of "accept_step a s"] Accepted by (simp add: accept_step_def is_accepted_def)
  qed
qed simp

section \<open>Properties: the server and the end of the program\<close>

text \<open>
  C27. The accept loop: every connection accepted before the first error, and no other, gets a
  handler with a number of its own and a client that has said nothing; an error, of listening or
  of accepting, is reported once and ends the server; what it has added to the wait group, less its own
  \<open>Done\<close>, is the server while it runs and its handlers.
\<close>

theorem RunServer_handlers:
  "case RunServer Listen port as gs of (gs', s) \<Rightarrow>
     (if Listen ('':'' @ show_int port) = None
      then map snd (srv_handlers s) = map accepted_client (takeWhile is_accepted as)
        \<and> map fst (srv_handlers s) = [0..<length (takeWhile is_accepted as)]
        \<and> srv_exits s = (if list_all is_accepted as then [] else [ServerExit 1])
        \<and> srv_waiting s = length (srv_handlers s) + (if list_all is_accepted as then 1 else 0)
        \<and> gs_listening gs' = list_all is_accepted as
      else srv_handlers s = [] \<and> srv_exits s = [ServerExit 1] \<and> srv_waiting s = 0 \<and> gs' = gs)"
proof -
  let ?k = "length (takeWhile is_accepted as)"
  have k: "?k \<le> length as" by (rule length_takeWhile_le)
  note a = accept_loop_spec [of server_start as, simplified]
  have z: "map snd (zip [0..<length as] (map accepted_client (takeWhile is_accepted as))) = map accepted_client (takeWhile is_accepted as)"
    using k by (simp add: map_snd_zip_take)
  have y: "map fst (zip [0..<length as] (map accepted_client (takeWhile is_accepted as))) = [0..<?k]"
    using k by (simp add: map_fst_zip_take take_upt)
  show ?thesis
  proof (cases "Listen ('':'' @ show_int port)")
    case None
    then show ?thesis using a z y k by (simp add: RunServer_def Let_def)
  next
    case (Some err)
    then show ?thesis by (simp add: RunServer_def)
  qed
qed

section \<open>Lemmas: the wait group\<close>









lemma server_run_accepts: "server_run (map Answered as) s = accept_loop as s"
proof (induction as arbitrary: s)
  case (Cons a as)
  then show ?case by (simp add: accept_loop_done)
qed simp

lemma RunServer_phase:
  "snd (RunServer Listen port as gs)
    = server_at (if Listen ('':'' @ show_int port) = None then Serving (map Answered as) else ListenFailed)"
  by (simp add: RunServer_def Let_def server_run_accepts split: option.split)

section \<open>Properties: the end of the program\<close>









section \<open>Properties: the start of the program\<close>

text \<open>A command line as docopt returns it: six numbers and the port in decimal, and the flags.\<close>

record cli =
  cli_port :: nat
  cli_players :: nat
  cli_splayers :: nat
  cli_visus :: nat
  cli_turns :: nat
  cli_first :: nat
  cli_between :: nat
  cli_auto :: bool
  cli_fast :: bool
  cli_simple :: bool
  cli_json :: bool
  cli_debug :: bool
  cli_quiet :: bool

definition command_line :: "cli \<Rightarrow> arguments" where
  "command_line c = (''--port'', JStr (show_nat (cli_port c))) # (''--simple-prompt'', JBool (cli_simple c))
     # (''--json-logs'', JBool (cli_json c)) # (''--debug'', JBool (cli_debug c)) # (''--quiet'', JBool (cli_quiet c))
     # cli_arguments (cli_players c) (cli_splayers c) (cli_visus c) (cli_turns c) (cli_first c) (cli_between c)
         (cli_auto c) (cli_fast c)"

text \<open>The numbers are small enough to be read, and they are in the documented bounds.\<close>

definition cli_readable :: "cli \<Rightarrow> bool" where
  "cli_readable c \<longleftrightarrow> cli_port c < 2 ^ 63 \<and> cli_players c < 2 ^ 63 \<and> cli_splayers c < 2 ^ 63 \<and> cli_visus c < 2 ^ 63
     \<and> cli_turns c < 2 ^ 63 \<and> cli_first c < 2 ^ 53 \<and> cli_between c < 2 ^ 53"

definition cli_in_bounds :: "cli \<Rightarrow> bool" where
  "cli_in_bounds c \<longleftrightarrow> 1 \<le> cli_port c \<and> cli_port c \<le> 65535 \<and> cli_players c \<le> 1024 \<and> cli_splayers c \<le> 1024
     \<and> cli_visus c \<le> 1024 \<and> 1 \<le> cli_turns c \<and> cli_turns c \<le> 65535 \<and> 50 \<le> cli_first c \<and> cli_first c \<le> 10000
     \<and> 50 \<le> cli_between c \<and> cli_between c \<le> 10000"

definition cli_state :: "cli \<Rightarrow> GlobalState" where
  "cli_state c = \<lparr>gs_listening = False, gs_prompt = False, gs_GameState = GAME_NOT_RUNNING,
     gs_GameLogic = [], gs_Players = [], gs_SpecialPlayers = [], gs_Visus = [],
     gs_NbPlayersMax = int (cli_players c), gs_NbSpecialPlayersMax = int (cli_splayers c),
     gs_NbVisusMax = int (cli_visus c), gs_NbTurnsMax = int (cli_turns c),
     gs_Autostart = cli_auto c, gs_Fast = cli_fast c,
     gs_MillisecondsBeforeFirstTurn = float_of_int (int (cli_first c)),
     gs_MillisecondsBetweenTurns = float_of_int (int (cli_between c))\<rparr>"

lemma ReadIntInString_decimal:
  assumes "map_of args k = Some (JStr (show_nat n))" "n < 2 ^ 63"
  shows "\<exists>e. ReadIntInString args k 64 lo hi = (if lo \<le> int n \<and> int n \<le> hi then Inr (int n) else Inl e)"
  using assms by (auto simp: ReadIntInString_def ParseInt_show_nat)

lemma ReadFloatInString_decimal:
  assumes "map_of args k = Some (JStr (show_nat n))" "n < 2 ^ 53"
  shows "\<exists>e. ReadFloatInString args k (float_of_int lo) (float_of_int hi)
    = (if lo \<le> int n \<and> int n \<le> hi then Inr (float_of_int (int n)) else Inl e)"
proof -
  have "ParseFloat (show_nat n) = Inr (float_of_int (int n))"
    using ParseFloat_show_int [of "int n"] assms(2) by (simp add: show_int_def)
  moreover have "float_less (float_of_int i) (float_of_int j) \<longleftrightarrow> i < j" for i j by (auto simp: float_of_int_def)
  ultimately show ?thesis using assms(1) by (auto simp: ReadFloatInString_def)
qed

lemma command_line_flags:
  "bool_arg (command_line c) ''--autostart'' = Returns (cli_auto c)" "bool_arg (command_line c) ''--fast'' = Returns (cli_fast c)"
  "arg_true (command_line c) ''--simple-prompt'' = cli_simple c"
  "setupLogging (command_line c) = \<lparr>log_json = cli_json c,
     log_level = (if cli_debug c then DebugLevel else if cli_quiet c then WarnLevel else InfoLevel)\<rparr>"
  by (simp_all add: bool_arg_def setupLogging_def arg_true_def command_line_def cli_arguments_def)

lemma command_line_state:
  assumes "cli_readable c"
  shows "\<exists>e. initializeGlobalState (command_line c) = Returns
    (if cli_players c \<le> 1024 \<and> cli_splayers c \<le> 1024 \<and> cli_visus c \<le> 1024 \<and> 1 \<le> cli_turns c \<and> cli_turns c \<le> 65535
        \<and> 50 \<le> cli_first c \<and> cli_first c \<le> 10000 \<and> 50 \<le> cli_between c \<and> cli_between c \<le> 10000
     then Inr (cli_state c) else Inl e)"
proof -
  let ?a = "command_line c"
  have "map_of ?a ''--nb-players-max'' = Some (JStr (show_nat (cli_players c)))"
    "map_of ?a ''--nb-splayers-max'' = Some (JStr (show_nat (cli_splayers c)))"
    "map_of ?a ''--nb-visus-max'' = Some (JStr (show_nat (cli_visus c)))"
    "map_of ?a ''--nb-turns-max'' = Some (JStr (show_nat (cli_turns c)))"
    "map_of ?a ''--delay-first-turn'' = Some (JStr (show_nat (cli_first c)))"
    "map_of ?a ''--delay-turns'' = Some (JStr (show_nat (cli_between c)))"
    by (simp_all add: command_line_def cli_arguments_def)
  note m = this and r = assms [unfolded cli_readable_def]
  from ReadIntInString_decimal [OF m(1), of 0 1024] r obtain e1 where e1: "ReadIntInString ?a ''--nb-players-max'' 64 0 1024
      = (if 0 \<le> int (cli_players c) \<and> int (cli_players c) \<le> 1024 then Inr (int (cli_players c)) else Inl e1)" by blast
  from ReadIntInString_decimal [OF m(2), of 0 1024] r obtain e2 where e2: "ReadIntInString ?a ''--nb-splayers-max'' 64 0 1024
      = (if 0 \<le> int (cli_splayers c) \<and> int (cli_splayers c) \<le> 1024 then Inr (int (cli_splayers c)) else Inl e2)" by blast
  from ReadIntInString_decimal [OF m(3), of 0 1024] r obtain e3 where e3: "ReadIntInString ?a ''--nb-visus-max'' 64 0 1024
      = (if 0 \<le> int (cli_visus c) \<and> int (cli_visus c) \<le> 1024 then Inr (int (cli_visus c)) else Inl e3)" by blast
  from ReadIntInString_decimal [OF m(4), of 1 65535] r obtain e4 where e4: "ReadIntInString ?a ''--nb-turns-max'' 64 1 65535
      = (if 1 \<le> int (cli_turns c) \<and> int (cli_turns c) \<le> 65535 then Inr (int (cli_turns c)) else Inl e4)" by blast
  from ReadFloatInString_decimal [OF m(5), of 50 10000] r obtain e5 where e5: "ReadFloatInString ?a ''--delay-first-turn'' (float_of_int 50) (float_of_int 10000)
      = (if 50 \<le> int (cli_first c) \<and> int (cli_first c) \<le> 10000 then Inr (float_of_int (int (cli_first c))) else Inl e5)" by blast
  from ReadFloatInString_decimal [OF m(6), of 50 10000] r obtain e6 where e6: "ReadFloatInString ?a ''--delay-turns'' (float_of_int 50) (float_of_int 10000)
      = (if 50 \<le> int (cli_between c) \<and> int (cli_between c) \<le> 10000 then Inr (float_of_int (int (cli_between c))) else Inl e6)" by blast
  show ?thesis
    by (simp add: initializeGlobalState_def e1 e2 e3 e4 e5 e6 command_line_flags cli_state_def)
qed

text \<open>
  C34. The start of the program, exactly.  With options in decimal the server starts if and only if the
  port and the six parameters are in their documented bounds; then the port, the state, the logging
  and the kind of prompt are those asked for (\<open>--debug\<close> wins over \<open>--quiet\<close>; the prompt is interactive on a
  terminal without \<open>--simple-prompt\<close>); otherwise the exit code is 1.  Help ends the program with 0, a
  wrong usage with 1.
\<close>

theorem main_start_exact:
  assumes "cli_readable c" "ParseArgs argv (netorcai_version version) = ParsedArgs (command_line c)"
  shows "main_start ParseArgs is_terminal version argv = Returns
      (if cli_in_bounds c
       then Inr \<lparr>st_port = int (cli_port c), st_state = cli_state c,
          st_log = \<lparr>log_json = cli_json c, log_level = (if cli_debug c then DebugLevel else if cli_quiet c then WarnLevel else InfoLevel)\<rparr>,
          st_interactive = (is_terminal \<and> \<not> cli_simple c)\<rparr>
       else Inl 1)
    \<and> (\<forall>argv' err. ParseArgs argv' (netorcai_version version) = HelpShown err
        \<longrightarrow> main_start ParseArgs is_terminal version argv' = Returns (Inl (if err then 1 else 0)))"
proof (intro conjI allI impI)
  obtain e where e: "initializeGlobalState (command_line c) = Returns
    (if cli_players c \<le> 1024 \<and> cli_splayers c \<le> 1024 \<and> cli_visus c \<le> 1024 \<and> 1 \<le> cli_turns c \<and> cli_turns c \<le> 65535
        \<and> 50 \<le> cli_first c \<and> cli_first c \<le> 10000 \<and> 50 \<le> cli_between c \<and> cli_between c \<le> 10000
     then Inr (cli_state c) else Inl e)" using command_line_state [OF assms(1)] by blast
  have "map_of (command_line c) ''--port'' = Some (JStr (show_nat (cli_port c)))" by (simp add: command_line_def)
  then obtain e' where "ReadIntInString (command_line c) ''--port'' 64 1 65535
      = (if 1 \<le> int (cli_port c) \<and> int (cli_port c) \<le> 65535 then Inr (int (cli_port c)) else Inl e')"
    using ReadIntInString_decimal [of "command_line c" "''--port''" "cli_port c" 1 65535] assms(1)
    unfolding cli_readable_def by blast
  then show "main_start ParseArgs is_terminal version argv = Returns
      (if cli_in_bounds c
       then Inr \<lparr>st_port = int (cli_port c), st_state = cli_state c,
          st_log = \<lparr>log_json = cli_json c, log_level = (if cli_debug c then DebugLevel else if cli_quiet c then WarnLevel else InfoLevel)\<rparr>,
          st_interactive = (is_terminal \<and> \<not> cli_simple c)\<rparr>
       else Inl 1)"
    by (simp add: main_start_def assms(2) e command_line_flags cli_in_bounds_def)
qed (simp add: main_start_def)

text \<open>The default values, and the same with a port that is none.\<close>

definition default_cli :: cli where
  "default_cli = \<lparr>cli_port = 4242, cli_players = 4, cli_splayers = 0, cli_visus = 1, cli_turns = 100, cli_first = 1000,
     cli_between = 1000, cli_auto = False, cli_fast = False, cli_simple = False, cli_json = False, cli_debug = False,
     cli_quiet = False\<rparr>"

theorem main_start_exact_witness:
  "(\<exists>st. main_start (\<lambda>_ _. ParsedArgs (command_line default_cli)) True [] [] = Returns (Inr st)
      \<and> st_port st = 4242 \<and> gs_NbPlayersMax (st_state st) = 4 \<and> st_interactive st \<and> log_level (st_log st) = InfoLevel)
   \<and> main_start (\<lambda>_ _. ParsedArgs (command_line (default_cli\<lparr>cli_port := 70000\<rparr>))) True [] [] = Returns (Inl 1)"
proof -
  have r: "cli_readable default_cli" "cli_readable (default_cli\<lparr>cli_port := 70000\<rparr>)" by (simp_all add: cli_readable_def default_cli_def)
  have b: "cli_in_bounds default_cli" "\<not> cli_in_bounds (default_cli\<lparr>cli_port := 70000\<rparr>)" by (simp_all add: cli_in_bounds_def default_cli_def)
  note s = main_start_exact [OF r(1), of "\<lambda>_ _. ParsedArgs (command_line default_cli)" "[]" "[]" True, OF refl]
    main_start_exact [OF r(2), of "\<lambda>_ _. ParsedArgs (command_line (default_cli\<lparr>cli_port := 70000\<rparr>))" "[]" "[]" True, OF refl]
  show ?thesis using s b by (simp add: cli_state_def default_cli_def)
qed

end
