(* ===== verification/Server.thy ===== *)
theory Server
  imports System_Properties Main_Prog
begin

text \<open>
  The whole server (src/control.go, with the goroutines it starts): connections arrive while the
  server listens, their goroutines wait for the first message, the login is checked, \<open>autostart\<close> runs,
  and the goroutine of the role starts; the operator types lines at the prompt; the goroutines of the
  clients and of the game logic move as in theory System, on the one shared global state.  The steps of
  different goroutines interleave freely.  A step is the code between two blocking points, as in the
  models of the components.  Messages of the clients and of the game logic program, timers and the
  orders to terminate may arrive at any time.  The waits for the mutex of the global state are not
  modelled: they order the steps but add none.
\<close>

section \<open>Model\<close>

text \<open>
  Where the goroutine of a connection is: the connection was not accepted yet; its first message is
  awaited; the login was refused; the client is accepted and \<open>autostart\<close> comes next; \<open>autostart\<close> is
  at its send on the channel \<open>start\<close>; the function of the role runs.
\<close>

datatype stage = Absent | Arrived Client | Refused Client | Accepting | Starting | Running

definition seated :: "stage \<Rightarrow> bool" where
  "seated g \<longleftrightarrow> g = Accepting \<or> g = Starting \<or> g = Running"

record srv =
  sv_sys :: sys
  sv_gs :: GlobalState
  sv_pvs :: "cid \<Rightarrow> PlayerOrVisuClient"
  sv_infos :: "pref \<Rightarrow> PlayerInformation"
  sv_next :: pref
  sv_stage :: "cid \<Rightarrow> stage"
  sv_starts :: nat
  sv_logins :: "cid \<Rightarrow> Client"
  sv_published :: bool
  sv_listener :: bool

text \<open>
  \<open>sv_starts\<close> is the content of the channel \<open>start\<close>; \<open>sv_logins\<close> is a history variable: the client as
  it was when it had logged in.  The entries of a connection that has not logged in are placeholders.
  \<open>sv_published\<close>: the goroutine of the prompt has set \<open>globalGS\<close>; \<open>sv_listener\<close>: \<open>net.Listen\<close> has returned
  a listener.  Before that the call of \<open>Cleanup\<close> panics (\<open>main_select\<close> of \<open>Main_Prog\<close>), which is not a step here.
\<close>

definition start_capacity :: nat where "start_capacity = 1"

definition placeholder :: Client where
  "placeholder = (new_client [] None)\<lparr>cl_state := CLIENT_LOGGED, cl_outbox := [(login_ack, [])]\<rparr>"

definition srv_init :: "GlobalState \<Rightarrow> srv" where
  "srv_init gs = \<lparr>sv_sys = sys_init placeholder (\<lambda>_. placeholder), sv_gs = gs, sv_pvs = new_visu,
     sv_infos = (\<lambda>_. \<lparr>pi_PlayerID = 0, pi_Nickname = [], pi_RemoteAddress = [], pi_IsConnected = False\<rparr>),
     sv_next = 0, sv_stage = (\<lambda>_. Absent), sv_starts = 0, sv_logins = (\<lambda>_. placeholder),
     sv_published = False, sv_listener = False\<rparr>"

text \<open>What a goroutine finds in the shared memory, and what it leaves there.\<close>

definition pv_view :: "srv \<Rightarrow> cid \<Rightarrow> pv_shared" where
  "pv_view s c = \<lparr>sh_gs = sv_gs s, sh_infos = sv_infos s, sh_pv = sv_pvs s c\<rparr>"

definition gl_view :: "srv \<Rightarrow> gl_shared" where
  "gl_view s = \<lparr>gh_gs = sv_gs s, gh_clients = (\<lambda>c. pt_client (sy_pvs (sv_sys s) c)), gh_pvs = sv_pvs s,
     gh_infos = sv_infos s, gh_next = sv_next s\<rparr>"

definition is_player :: "srv \<Rightarrow> cid \<Rightarrow> bool" where
  "is_player s c \<longleftrightarrow> pv_isPlayer (sv_pvs s c)"

text \<open>The goroutine of an accepted client is made: its place in the system of goroutines.\<close>

definition seat_goroutine :: "cid \<Rightarrow> Client \<Rightarrow> login_next \<Rightarrow> srv \<Rightarrow> srv" where
  "seat_goroutine c cl next s = (case next of
      LoginRefused \<Rightarrow> s\<lparr>sv_stage := (sv_stage s)(c := Refused cl)\<rparr>
    | RunPlayerOrVisu pv \<Rightarrow> s\<lparr>sv_stage := (sv_stage s)(c := Accepting), sv_pvs := (sv_pvs s)(c := pv),
        sv_logins := (sv_logins s)(c := cl),
        sv_sys := (sv_sys s)\<lparr>sy_pvs := (sy_pvs (sv_sys s))(c := pv_start cl)\<rparr>\<rparr>
    | RunGameLogic c' \<Rightarrow> s\<lparr>sv_stage := (sv_stage s)(c := Accepting),
        sv_sys := (sv_sys s)\<lparr>sy_gl := gl_start cl\<rparr>\<rparr>)"

definition starts_of :: "gl_event \<Rightarrow> nat" where
  "starts_of e = (case e of GlStart _ \<Rightarrow> 1 | _ \<Rightarrow> 0)"

text \<open>The documented result of \<open>rand.Perm\<close>.\<close>

definition perm_ok :: "gl_event \<Rightarrow> GlobalState \<Rightarrow> bool" where
  "perm_ok e gs \<longleftrightarrow> (case e of GlStart perm \<Rightarrow> is_perm perm (length (gs_Players gs)) | _ \<Rightarrow> True)"

inductive srv_step :: "srv \<Rightarrow> srv \<Rightarrow> bool" where
  srv_listen: "\<not> sv_listener s \<Longrightarrow> srv_step s (s\<lparr>sv_gs := (sv_gs s)\<lparr>gs_listening := True\<rparr>, sv_listener := True\<rparr>)"
| srv_publish: "srv_step s (s\<lparr>sv_published := True\<rparr>)"
| srv_accept: "gs_listening (sv_gs s) \<Longrightarrow> sv_stage s c = Absent
    \<Longrightarrow> srv_step s (s\<lparr>sv_stage := (sv_stage s)(c := Arrived (new_client addr limit))\<rparr>)"
| srv_login: "sv_stage s c = Arrived cl \<Longrightarrow> handleFirstMessage c cl (sv_gs s) msg = (cl', gs', next)
    \<Longrightarrow> srv_step s (seat_goroutine c cl' next (s\<lparr>sv_gs := gs'\<rparr>))"
| srv_autostart: "sv_stage s c = Accepting \<Longrightarrow> autostart (sv_gs s) = (gs', ops)
    \<Longrightarrow> srv_step s (s\<lparr>sv_gs := gs', sv_stage := (sv_stage s)(c := if ops = [] then Running else Starting)\<rparr>)"
| srv_started: "sv_stage s c = Starting \<Longrightarrow> sv_starts s < start_capacity
    \<Longrightarrow> srv_step s (s\<lparr>sv_starts := sv_starts s + 1, sv_stage := (sv_stage s)(c := Running)\<rparr>)"
| srv_prompt: "executor line (sv_gs s) = (gs', ops, out)
    \<Longrightarrow> sv_starts s + length (filter is_start ops) \<le> start_capacity \<Longrightarrow> sv_published s
    \<Longrightarrow> srv_step s (s\<lparr>sv_gs := gs', sv_starts := sv_starts s + length (filter is_start ops)\<rparr>)"
| srv_gl: "gs_GameLogic (sv_gs s) = [g] \<Longrightarrow> sv_stage s g = Running \<Longrightarrow> perm_ok e (sv_gs s)
    \<Longrightarrow> starts_of e \<le> sv_starts s \<Longrightarrow> sys_move (is_player s) (GlMove e (gl_view s) sh) (sv_sys s) y
    \<Longrightarrow> srv_step s (s\<lparr>sv_sys := y, sv_gs := gh_gs sh, sv_pvs := gh_pvs sh, sv_infos := gh_infos sh,
          sv_next := gh_next sh, sv_starts := sv_starts s - starts_of e\<rparr>)"
| srv_pv: "sv_stage s c = Running \<Longrightarrow> c \<notin> set (gs_GameLogic (sv_gs s))
    \<Longrightarrow> sys_move (is_player s) (PvMove c e (pv_view s c) sh) (sv_sys s) y
    \<Longrightarrow> srv_step s (s\<lparr>sv_sys := y, sv_gs := sh_gs sh, sv_infos := sh_infos sh\<rparr>)"
| srv_send: "sys_move (is_player s) SendMove (sv_sys s) y \<Longrightarrow> srv_step s (s\<lparr>sv_sys := y\<rparr>)"
| srv_cleanup: "Cleanup (sv_gs s) = (gs', ops) \<Longrightarrow> sv_published s \<Longrightarrow> sv_listener s \<Longrightarrow> srv_step s (s\<lparr>sv_gs := gs'\<rparr>)"

inductive srv_reachable :: "GlobalState \<Rightarrow> srv \<Rightarrow> bool" for gs0 where
  srv_reach_init: "srv_reachable gs0 (srv_init gs0)"
| srv_reach_step: "srv_reachable gs0 s \<Longrightarrow> srv_step s s' \<Longrightarrow> srv_reachable gs0 s'"

section \<open>Lemmas: what a step leaves alone\<close>

text \<open>The game logic goroutine keeps the global state and everything about a client but its number.\<close>

definition same_kind :: "PlayerOrVisuClient \<Rightarrow> PlayerOrVisuClient \<Rightarrow> bool" where
  "same_kind p q \<longleftrightarrow> pv_client p = pv_client q \<and> pv_isPlayer p = pv_isPlayer q
     \<and> pv_isSpecialPlayer p = pv_isSpecialPlayer q"

lemma same_kind_refl [simp]: "same_kind p p"
  by (simp add: same_kind_def)

lemma same_kind_trans: "same_kind p q \<Longrightarrow> same_kind q r \<Longrightarrow> same_kind p r"
  by (simp add: same_kind_def)

lemma assign_ids_kind: "same_kind (assign_ids xs pvs c) (pvs c)"
proof (induction xs arbitrary: pvs)
  case (Cons x xs)
  obtain d i where x: "x = (d, i)" by fastforce
  have "same_kind ((pvs(d := (pvs d)\<lparr>pv_playerID := i\<rparr>)) c) (pvs c)" by (simp add: same_kind_def)
  with Cons.IH [of "pvs(d := (pvs d)\<lparr>pv_playerID := i\<rparr>)"] show ?case
    unfolding x assign_ids.simps by (rule same_kind_trans)
qed simp

lemma make_infos_kind:
  "make_infos clients cs r pvs infos = (pvs', infos', refs) \<Longrightarrow> same_kind (pvs' c) (pvs c)"
proof (induction cs arbitrary: r pvs infos refs)
  case (Cons p ps)
  from Cons.prems obtain refs' where "make_infos clients ps (Suc r) (pvs(p := (pvs p)\<lparr>pv_playerInfo := Some r\<rparr>))
       (infos(r := info_of clients pvs p)) = (pvs', infos', refs')" by (rule make_infos_Cons)
  moreover have "same_kind ((pvs(p := (pvs p)\<lparr>pv_playerInfo := Some r\<rparr>)) c) (pvs c)" by (simp add: same_kind_def)
  ultimately show ?case using Cons.IH by (blast intro: same_kind_trans)
qed simp

lemma game_init_shared:
  assumes "game_init perm sh th = (sh', th')"
  shows "gh_gs sh' = gh_gs sh" "same_kind (gh_pvs sh' c) (gh_pvs sh c)"
proof -
  from assms obtain pvs1 pvs3 infos refs xs ys where
    "make_infos (gh_clients sh) xs (gh_next sh) (assign_ids ys (assign_ids pvs1 (gh_pvs sh))) (gh_infos sh) = (pvs3, infos, refs)"
    "gh_pvs sh' = pvs3" "gh_gs sh' = gh_gs sh"
    by (auto simp: game_init_def Let_def split: prod.splits)
  with make_infos_kind [OF this(1), of c] assign_ids_kind show "gh_gs sh' = gh_gs sh" "same_kind (gh_pvs sh' c) (gh_pvs sh c)"
    by (blast intro: same_kind_trans)+
qed

lemma handleGameLogic_shared:
  assumes "handleGameLogic sh e th = GlStepped sh' th' ops"
  shows "gh_gs sh' = gh_gs sh \<and> same_kind (gh_pvs sh' c) (gh_pvs sh c)"
proof (cases "\<exists>perm. e = GlStart perm \<and> gt_pc th = GlWaitStart")
  case True
  then obtain perm where e: "e = GlStart perm" "gt_pc th = GlWaitStart" by blast
  obtain sh1 th1 where g: "game_init perm sh th = (sh1, th1)" by fastforce
  have "sh' = sh1"
    using assms e g by (auto simp: handleGameLogic_def gl_wait_start_def gl_fail_def gl_exit_def split: prod.splits option.splits)
  with game_init_shared [OF g] show ?thesis by simp
next
  case False
  have "sh' = sh"
    using assms False
    by (cases "gt_pc th"; cases e)
      (auto simp: handleGameLogic_def timer_send_def timer_reset_def gl_wait_start_def gl_fail_def
        gl_exit_def gl_terminate_def gl_wait_init_ack_def gl_sleep_first_def gl_finish_def
        gameLogicGameControlTimers_def fast_await_ack_def fast_await_actions_def Let_def waitGameLogicFinition_def
        split: nat.splits option.splits sum.splits if_splits prod.splits)
  then show ?thesis by simp
qed

text \<open>It sends only to the clients it copied at the start.\<close>

lemma deliveries_others:
  assumes "c \<notin> set (clients_of th)"
  shows "deliveries c (game_starts_ops sh th s) = []" "deliveries c (handleGlForwardTurnToClients m th) = []"
    "deliveries c (map (\<lambda>c. SendGameEnds c g) (gt_allPlayers th @ gt_visus th)) = []"
  using assms by (auto simp: deliveries_def game_starts_ops_def handleGlForwardTurnToClients_def Let_def clients_of_def)

lemma gl_finish_clients:
  assumes "gl_finish sh th m = GlStepped sh' th' ops"
  shows "clients_of th' = clients_of th" "c \<notin> set (clients_of th) \<Longrightarrow> deliveries c ops = []"
  using assms deliveries_others(3) [of c th]
  by (auto simp: gl_finish_def gl_exit_def handleGlGameFinished_def Let_def clients_of_def split: if_splits)

lemma clients_of_simps [simp]:
  "clients_of (order_turn th) = clients_of th" "clients_of (fast_wait th) = clients_of th"
  "clients_of (game_control th) = clients_of th"
  "clients_of (th\<lparr>gt_client := c\<rparr>) = clients_of th" "clients_of (th\<lparr>gt_pc := pc\<rparr>) = clients_of th"
  "clients_of (th\<lparr>gt_turnNumber := n\<rparr>) = clients_of th" "clients_of (th\<lparr>gt_playerActions := a\<rparr>) = clients_of th"
  "clients_of (th\<lparr>gt_actionReceived := r\<rparr>) = clients_of th" "clients_of (th\<lparr>gt_connectedPlayers := q\<rparr>) = clients_of th"
  "clients_of (th\<lparr>gt_sleeping := k\<rparr>) = clients_of th" "clients_of (th\<lparr>gt_unreset := k\<rparr>) = clients_of th"
  by (simp_all add: clients_of_def order_turn_def fast_wait_def game_control_def)

lemma handleGameLogic_clients:
  assumes "handleGameLogic sh e th = GlStepped sh' th' ops"
  shows "(clients_of th' = clients_of th
      \<or> (\<exists>perm. e = GlStart perm \<and> gt_pc th = GlWaitStart \<and> set (clients_of th') = set (gs_Players (gh_gs sh) @ gs_SpecialPlayers (gh_gs sh) @ gs_Visus (gh_gs sh))))
    \<and> (c \<notin> set (clients_of th) \<longrightarrow> deliveries c ops = [])"
proof (cases "\<exists>perm. e = GlStart perm \<and> gt_pc th = GlWaitStart")
  case True
  then obtain perm where e: "e = GlStart perm" "gt_pc th = GlWaitStart" by blast
  obtain sh1 th1 where g: "game_init perm sh th = (sh1, th1)" by fastforce
  have "clients_of th' = clients_of th1 \<and> deliveries c ops = []"
    using assms e g by (auto simp: handleGameLogic_def gl_wait_start_def gl_fail_def gl_exit_def
        split: prod.splits option.splits)
  with game_init_fields(1) [OF g] e show ?thesis by auto
next
  case False
  note f = gl_finish_clients [of sh "th\<lparr>gt_turnNumber := gt_turnNumber th + 1\<rparr>" _ sh' th' ops]
  note d = deliveries_others(1) [of c th] deliveries_others(2) [of c "th\<lparr>gt_turnNumber := gt_turnNumber th + 1\<rparr>"]
  show ?thesis
    using assms False d
    by (cases "gt_pc th"; cases e)
      (auto simp: handleGameLogic_def timer_send_def timer_reset_def gl_wait_start_def gl_fail_def
        gl_exit_def gl_terminate_def gl_wait_init_ack_def gl_sleep_first_def 
        gameLogicGameControlTimers_def fast_await_ack_def fast_await_actions_def Let_def waitGameLogicFinition_def
        split: nat.splits option.splits sum.splits if_splits prod.splits dest: f)
qed

text \<open>A player's goroutine leaves the global state alone, or removes its client and returns.\<close>

lemma pv_kicked_shared:
  assumes "pv_kicked sh th client r ops = PvStepped sh' th' ops'"
  shows "sh_gs sh' = remove_client (sh_pv sh) (sh_gs sh) \<and> pt_pc th' = PvReturned"
  using assms by (auto simp: pv_kicked_def split: sum.splits prod.splits dest: KickLogged_effect(1))

lemma pv_step_shared:
  assumes "pv_step sh e th = PvStepped sh' th' ops"
  shows "sh_gs sh' = sh_gs sh \<or> sh_gs sh' = remove_client (sh_pv sh) (sh_gs sh) \<and> pt_pc th' = PvReturned"
  using assms
  by (cases e; cases "pt_pc th")
    (auto simp: pv_step_def waitPlayerOrVisuFinition_def handlePlayerOrVisu_def pv_on_game_starts_def pv_on_game_ends_def
      pv_on_new_turn_def pv_on_incoming_def pv_after_ack_def Let_def
      split: prod.splits option.splits list.splits if_splits sum.splits dest: pv_kicked_shared)

lemma remove_from_subset: "set (remove_from c cs) \<subseteq> set cs"
  using mset_remove_from [of c cs] by (metis in_diffD set_mset_mset subsetI)

lemma remove_client_visus: "set (gs_Visus (remove_client pv gs)) \<subseteq> set (gs_Visus gs)"
  using remove_from_subset [of "pv_client pv" "gs_Visus gs"] by (simp add: remove_client_def Let_def)

lemma remove_client_keeps:
  assumes "roster_ok gs"
  shows "roster_ok (remove_client pv gs)" "set (roster (remove_client pv gs)) \<subseteq> set (roster gs)"
    "gs_GameLogic (remove_client pv gs) = gs_GameLogic gs" "gs_GameState (remove_client pv gs) = gs_GameState gs"
proof -
  show "gs_GameLogic (remove_client pv gs) = gs_GameLogic gs" "gs_GameState (remove_client pv gs) = gs_GameState gs"
    by (simp_all add: remove_client_def Let_def)
  have s: "distinct cs \<Longrightarrow> distinct (remove_from c cs)" for c and cs :: "cid list"
    by (metis distinct_minus mset_remove_from)
  let ?c = "pv_client pv"
  note sets = remove_from_subset [of ?c "gs_Players gs"] remove_from_subset [of ?c "gs_SpecialPlayers gs"]
    remove_from_subset [of ?c "gs_Visus gs"]
  show "set (roster (remove_client pv gs)) \<subseteq> set (roster gs)"
    using sets by (cases "pv_isPlayer pv"; cases "pv_isSpecialPlayer pv") (auto simp: remove_client_def roster_def)
  have "distinct (roster (remove_client pv gs))"
    using assms s sets
    by (cases "pv_isPlayer pv"; cases "pv_isSpecialPlayer pv") (auto simp: remove_client_def roster_def roster_ok_def)
  with assms show "roster_ok (remove_client pv gs)" by (simp add: roster_ok_def remove_client_def Let_def)
qed

section \<open>The invariant of the server\<close>

text \<open>A connection whose goroutine has not been made: nothing was sent to it and it has done nothing.\<close>

definition untouched :: "cid \<Rightarrow> sys \<Rightarrow> bool" where
  "untouched c y \<longleftrightarrow> sy_seen y c = [] \<and> sy_turns y c = [] \<and> sy_ends y c = [] \<and> sy_owed y c = [] \<and> sy_acts y c = []
     \<and> deliveries c (sy_done y @ sy_todo y) = [] \<and> c \<notin> set (clients_of (sy_gl y))"

lemma untouched_seat [simp]:
  "untouched d (y\<lparr>sy_pvs := p\<rparr>) = untouched d y"
  "sy_gl y' = gl_start cl \<Longrightarrow> untouched d (y'\<lparr>sy_gl := gl_start cl'\<rparr>) = untouched d y'"
  by (simp_all add: untouched_def clients_of_def gl_start_def)

lemma sys_inv_seat:
  assumes "sys_inv player clients y" "untouched c y"
  shows "sys_inv (player(c := b)) (clients(c := cl)) (y\<lparr>sy_pvs := (sy_pvs y)(c := pv_start cl)\<rparr>)"
proof -
  let ?y = "y\<lparr>sy_pvs := (sy_pvs y)(c := pv_start cl)\<rparr>"
  have "channels_ok ?y d" for d using assms(1) by (simp add: sys_inv_def channels_ok_def)
  moreover have "goroutine_ok (player(c := b)) (clients(c := cl)) ?y d" for d
  proof (cases "d = c")
    case True
    with assms(2) pv_nil [of "pv_start cl"] show ?thesis
      unfolding goroutine_ok_def untouched_def by (intro exI [of _ "[]"]) simp
  next
    case False
    from assms(1) have "goroutine_ok player clients y d" by (simp add: sys_inv_def)
    with False show ?thesis by (simp add: goroutine_ok_def)
  qed
  ultimately show ?thesis using assms(1) by (simp add: sys_inv_def)
qed

lemma sys_inv_gl_seat:
  assumes "sys_inv player clients y" "sy_todo y = []" "sy_done y = []"
  shows "sys_inv player clients (y\<lparr>sy_gl := gl_start cl\<rparr>)"
  using assms by (simp add: sys_inv_def channels_ok_def gl_inv_def gl_start_def)

definition concerns :: "cid \<Rightarrow> move \<Rightarrow> bool" where
  "concerns c mv = (case mv of
      PvMove d e sh sh' \<Rightarrow> d = c
    | GlMove e sh sh' \<Rightarrow> c \<in> set (gs_Players (gh_gs sh) @ gs_SpecialPlayers (gh_gs sh) @ gs_Visus (gh_gs sh))
    | SendMove \<Rightarrow> False)"

lemma untouched_send:
  assumes "untouched c y" "sy_todo y = op # rest"
  shows "deliver1 c op = []" "untouched c (y\<lparr>sy_todo := rest, sy_done := sy_done y @ [op]\<rparr>)"
  using assms by (auto simp: untouched_def)

lemma untouched_move:
  assumes "sys_move player mv y y'" "untouched c y" "\<not> concerns c mv"
  shows "untouched c y'"
  using assms(1)
proof cases
  case (sys_gl_event e gsh y1 gsh' th ops)
  note f = gl_receives_frame [OF sys_gl_event(5)]
  have "c \<notin> set (clients_of th)" "deliveries c ops = []"
    using handleGameLogic_clients [OF sys_gl_event(6), of c] assms(2,3) sys_gl_event(1)
    by (auto simp: untouched_def concerns_def)
  then show ?thesis using assms(2) f sys_gl_event(2) by (simp add: untouched_def)
next
  case (sys_gl_turn d t rest)
  with untouched_send [OF assms(2) sys_gl_turn(3)] show ?thesis
    by (auto simp: untouched_def split: if_splits)
next
  case (sys_gl_ends d g rest)
  with untouched_send [OF assms(2) sys_gl_ends(3)] show ?thesis
    by (auto simp: untouched_def split: if_splits)
qed (use assms(2,3) in \<open>auto simp: untouched_def pv_moves_def concerns_def\<close>)

definition no_logic :: "srv \<Rightarrow> bool" where
  "no_logic s \<longleftrightarrow> gs_GameState (sv_gs s) = GAME_NOT_RUNNING \<and> sy_gl (sv_sys s) = gl_start placeholder
     \<and> sy_todo (sv_sys s) = [] \<and> sy_done (sv_sys s) = []"

fun stage_ok :: "stage \<Rightarrow> bool" where
  "stage_ok (Arrived cl) = (sent cl = [] \<and> cl_state cl = CLIENT_UNLOGGED)"
| "stage_ok (Refused cl) = (cl_state cl = CLIENT_KICKED \<and> (sent cl = [] \<or> (\<exists>why. sent cl = [kick_msg why])))"
| "stage_ok g = True"

definition srv_inv :: "srv \<Rightarrow> bool" where
  "srv_inv s \<longleftrightarrow> sys_inv (is_player s) (sv_logins s) (sv_sys s) \<and> logged_in (sv_logins s) \<and> flow_inv (sv_sys s)
     \<and> roster_ok (sv_gs s) \<and> (\<forall>c. stage_ok (sv_stage s c))
     \<and> (\<forall>c. \<not> seated (sv_stage s c) \<longrightarrow> untouched c (sv_sys s) \<and> c \<notin> set (roster (sv_gs s)))
     \<and> (gs_GameLogic (sv_gs s) = [] \<longrightarrow> no_logic s)"

lemma srv_invD:
  assumes "srv_inv s"
  shows "sys_inv (is_player s) (sv_logins s) (sv_sys s)" "logged_in (sv_logins s)" "flow_inv (sv_sys s)"
    "roster_ok (sv_gs s)" "stage_ok (sv_stage s c)"
    "\<not> seated (sv_stage s c) \<Longrightarrow> untouched c (sv_sys s) \<and> c \<notin> set (roster (sv_gs s))"
    "gs_GameLogic (sv_gs s) = [] \<Longrightarrow> no_logic s"
  using assms by (simp_all add: srv_inv_def)

lemma seated_simps [simp]:
  "\<not> seated Absent" "\<not> seated (Arrived cl)" "\<not> seated (Refused cl)" "seated Accepting" "seated Starting" "seated Running"
  by (simp_all add: seated_def)

lemma sent_placeholder [simp]: "sent placeholder = [login_ack]" "cl_state placeholder = CLIENT_LOGGED"
  by (simp_all add: placeholder_def sent_def)

lemma srv_inv_init: "fresh_state gs0 \<Longrightarrow> srv_inv (srv_init gs0)"
proof -
  assume f: "fresh_state gs0"
  have "ordered placeholder = {}" by (simp add: ordered_def login_ack_def)
  moreover have "logged_in (\<lambda>_. placeholder)" by (simp add: logged_in_def)
  moreover have "untouched c (sys_init placeholder (\<lambda>_. placeholder))" for c
    by (simp add: untouched_def sys_init_def clients_of_def gl_start_def)
  ultimately show ?thesis
    using f sys_inv_init flow_inv_init
    by (simp add: srv_inv_def srv_init_def fresh_state_def roster_ok_def no_logic_def is_player_def)
      (simp add: sys_init_def roster_def)
qed

text \<open>A change of the global state that keeps the clients and does not start a game without a game logic.\<close>

lemma srv_inv_gs:
  assumes "srv_inv s" "roster gs' = roster (sv_gs s)" "gs_GameLogic gs' = gs_GameLogic (sv_gs s)"
    "gs_GameLogic gs' = [] \<Longrightarrow> gs_GameState gs' = GAME_NOT_RUNNING"
  shows "srv_inv (s\<lparr>sv_gs := gs'\<rparr>)"
  using assms by (auto simp: srv_inv_def roster_ok_def no_logic_def is_player_def [abs_def])

lemma srv_inv_stage:
  assumes "srv_inv s" "seated g = seated (sv_stage s c) \<or> seated g" "stage_ok g"
  shows "srv_inv (s\<lparr>sv_stage := (sv_stage s)(c := g)\<rparr>)"
  using assms by (auto simp: srv_inv_def no_logic_def is_player_def [abs_def])

lemma srv_inv_starts [simp]:
  "srv_inv (s\<lparr>sv_starts := n\<rparr>) = srv_inv s" "srv_inv (s\<lparr>sv_published := b\<rparr>) = srv_inv s"
  "srv_inv (s\<lparr>sv_listener := b\<rparr>) = srv_inv s"
  by (simp_all add: srv_inv_def no_logic_def is_player_def [abs_def])

lemma autostart_logic: "autostart gs = (gs', ops) \<Longrightarrow> gs_GameLogic gs = [] \<Longrightarrow> gs' = gs"
  by (auto simp: autostart_def areAllExpectedClientsConnected_def split: if_splits)

text \<open>The three outcomes of a first message.\<close>

lemma srv_inv_login:
  assumes inv: "srv_inv s" and c: "sv_stage s c = Arrived cl"
    and h: "handleFirstMessage c cl (sv_gs s) msg = (cl', gs', next)"
  shows "srv_inv (seat_goroutine c cl' next (s\<lparr>sv_gs := gs'\<rparr>))"
proof (cases "\<exists>m. login_accepted cl (sv_gs s) msg m")
  case False
  with first_message_refused [OF False, of c] h have e: "gs' = sv_gs s" "next = LoginRefused" "cl_state cl' = CLIENT_KICKED"
    "sent cl' = sent cl \<or> (\<exists>why. sent cl' = sent cl @ [kick_msg why])" by auto
  moreover have "sent cl = []" using srv_invD(5) [OF inv, of c] c by simp
  ultimately have "stage_ok (Refused cl')" by auto
  with srv_inv_stage [OF inv, of "Refused cl'" c] c e show ?thesis by (simp add: seat_goroutine_def)
next
  case True
  then obtain m where m: "login_accepted cl (sv_gs s) msg m" by blast
  let ?role = "login_role m"
  from first_message_accepted [OF m, of c] h have e: "gs' = seat c ?role (sv_gs s)" "next = handler_of c ?role"
    "sent cl' = sent cl @ [login_ack]" "?role \<noteq> ''game logic'' \<Longrightarrow> cl_state cl' = CLIENT_LOGGED" by auto
  have cl: "sent cl = []" and u: "untouched c (sv_sys s)" "c \<notin> set (roster (sv_gs s))"
    using srv_invD(5,6) [OF inv, of c] c by simp_all
  have role: "?role \<in> set valid_roles" "free_place (sv_gs s) ?role"
    using m by (auto simp: login_accepted_def dest: readLoginMessage_role)
  have r: "set (roster gs') = insert c (set (roster (sv_gs s)))"
    using arg_cong [OF seat_roster [OF role(1), of c "sv_gs s"], of set_mset] e(1) by simp
  have ok: "roster_ok gs'" using seat_ok [OF role] u(2) srv_invD(4) [OF inv] e(1) by blast
  show ?thesis
  proof (cases "?role = ''game logic''")
    case gl: True
    have nl: "gs_GameLogic (sv_gs s) = []" using role(2) gl by (simp add: free_place_def)
    from srv_invD(7) [OF inv this] have n: "no_logic s" .
    have "ordered cl' = {}" using e(3) cl by (simp add: ordered_def login_ack_def)
    then have f: "flow_inv ((sv_sys s)\<lparr>sy_gl := gl_start cl'\<rparr>)"
      using srv_invD(3) [OF inv] by (simp add: flow_inv_def known_def handed_def gl_start_def)
    have "gs_GameLogic gs' \<noteq> []" using e(1) gl by (simp add: seat_def)
    with f r ok u sys_inv_gl_seat [OF srv_invD(1) [OF inv], of cl'] n inv e(2) gl show ?thesis
      by (auto simp: srv_inv_def no_logic_def seat_goroutine_def handler_of_def is_player_def [abs_def])
  next
    case pv: False
    have "\<exists>p. handler_of c ?role = RunPlayerOrVisu p" using pv by (simp add: handler_of_def)
    then obtain p where p: "next = RunPlayerOrVisu p" using e(2) by blast
    have lg: "logged_in ((sv_logins s)(c := cl'))"
      using srv_invD(2) [OF inv] e(3,4) pv cl by (simp add: logged_in_def)
    have f: "flow_inv ((sv_sys s)\<lparr>sy_pvs := q\<rparr>)" for q
      using srv_invD(3) [OF inv] by (simp add: flow_inv_def handed_def)
    have "gs_GameLogic gs' = gs_GameLogic (sv_gs s)" "gs_GameState gs' = gs_GameState (sv_gs s)"
      using e(1) pv by (simp_all add: seat_def)
    moreover have "is_player (seat_goroutine c cl' next (s\<lparr>sv_gs := gs'\<rparr>)) = (is_player s)(c := pv_isPlayer p)"
      by (simp add: fun_eq_iff is_player_def seat_goroutine_def p)
    ultimately show ?thesis
      using lg f r ok sys_inv_seat [OF srv_invD(1) [OF inv] u(1), of "pv_isPlayer p" cl'] inv p
      by (auto simp: srv_inv_def no_logic_def seat_goroutine_def)
  qed
qed

text \<open>A move of the goroutines, with what it leaves in the shared memory.\<close>

lemma srv_inv_move:
  assumes inv: "srv_inv s" and move: "sys_move (is_player s) mv (sv_sys s) y"
    and conc: "\<And>c. \<not> seated (sv_stage s c) \<Longrightarrow> \<not> concerns c mv"
    and gs: "roster_ok gs'" "set (roster gs') \<subseteq> set (roster (sv_gs s))"
      "gs_GameLogic gs' = gs_GameLogic (sv_gs s)" "gs_GameState gs' = gs_GameState (sv_gs s)"
    and kind: "\<And>c. same_kind (pvs c) (sv_pvs s c)"
    and logic: "gs_GameLogic (sv_gs s) = [] \<Longrightarrow> sy_gl y = sy_gl (sv_sys s) \<and> sy_todo y = [] \<and> sy_done y = []"
  shows "srv_inv (s\<lparr>sv_sys := y, sv_gs := gs', sv_pvs := pvs, sv_infos := i, sv_next := n, sv_starts := k\<rparr>)"
proof -
  let ?s = "s\<lparr>sv_sys := y, sv_gs := gs', sv_pvs := pvs, sv_infos := i, sv_next := n, sv_starts := k\<rparr>"
  have p: "is_player ?s = is_player s" using kind by (auto simp: is_player_def same_kind_def)
  have "sys_inv (is_player s) (sv_logins s) y" by (rule sys_inv_move [OF move srv_invD(1,2) [OF inv]])
  moreover have "flow_inv y" by (rule flow_inv_move [OF move srv_invD(3) [OF inv]])
  moreover have "untouched c y \<and> c \<notin> set (roster gs')" if "\<not> seated (sv_stage s c)" for c
    using untouched_move [OF move _ conc [OF that]] srv_invD(6) [OF inv that] gs(2) by blast
  moreover have "no_logic ?s" if "gs_GameLogic (sv_gs s) = []"
    using srv_invD(7) [OF inv that] logic [OF that] gs(4) by (simp add: no_logic_def)
  ultimately show ?thesis using inv p gs(1,3) by (simp add: srv_inv_def)
qed

lemma no_logic_move:
  assumes "sys_move player mv y y'" "sy_todo y = []" "\<forall>e sh sh'. mv \<noteq> GlMove e sh sh'"
  shows "sy_gl y' = sy_gl y \<and> sy_todo y' = [] \<and> sy_done y' = sy_done y"
  using assms by cases (auto simp: pv_moves_def)

lemma sys_move_pv:
  assumes "sys_move player (PvMove c e sh sh') y y'"
  shows "\<exists>th ops. pv_step sh e (sy_pvs y c) = PvStepped sh' th ops"
  using assms by cases auto

lemma sys_move_gl:
  assumes "sys_move player (GlMove e sh sh') y y'"
  shows "\<exists>th ops. handleGameLogic sh e (sy_gl y) = GlStepped sh' th ops"
  using assms by cases auto

lemma srv_inv_step:
  assumes step: "srv_step s s'" and inv: "srv_inv s"
  shows "srv_inv s'"
  using step
proof cases
  case srv_listen
  have "roster ((sv_gs s)\<lparr>gs_listening := True\<rparr>) = roster (sv_gs s)" by (simp add: roster_def)
  with srv_inv_gs [OF inv, of "(sv_gs s)\<lparr>gs_listening := True\<rparr>"] srv_invD(7) [OF inv] srv_listen(1) show ?thesis
    by (auto simp: no_logic_def)
next
  case srv_publish
  then show ?thesis using inv by simp
next
  case (srv_accept c addr limit)
  with srv_inv_stage [OF inv, of "Arrived (new_client addr limit)" c] show ?thesis
    by (simp add: new_client_def sent_def)
next
  case (srv_login c cl msg cl' gs' nx)
  with srv_inv_login [OF inv] show ?thesis by blast
next
  case (srv_autostart c gs' ops)
  have "srv_inv (s\<lparr>sv_gs := gs'\<rparr>)"
  proof (rule srv_inv_gs [OF inv])
    show "roster gs' = roster (sv_gs s)" "gs_GameLogic gs' = gs_GameLogic (sv_gs s)"
      using autostart_roster(1) [of "sv_gs s"] autostart_lists(3) [of "sv_gs s"] srv_autostart(3) by simp_all
    then show "gs_GameState gs' = GAME_NOT_RUNNING" if "gs_GameLogic gs' = []"
      using autostart_logic [OF srv_autostart(3)] srv_invD(7) [OF inv] that by (simp add: no_logic_def)
  qed
  from srv_inv_stage [OF this, of "if ops = [] then Running else Starting" c] srv_autostart(1) show ?thesis by simp
next
  case (srv_started c)
  with srv_inv_stage [of "s\<lparr>sv_starts := sv_starts s + 1\<rparr>" Running c] inv show ?thesis by simp
next
  case (srv_prompt line gs' ops out)
  note k = executor_keeps [OF srv_prompt(2)] and st = executor_starts [OF srv_prompt(2)]
  have "srv_inv (s\<lparr>sv_gs := gs'\<rparr>)"
  proof (rule srv_inv_gs [OF inv])
    show "gs_GameState gs' = GAME_NOT_RUNNING" if "gs_GameLogic gs' = []"
      using st k that srv_invD(7) [OF inv] by (auto simp: line_keeps_def no_logic_def split: if_splits)
  qed (use k in \<open>simp_all add: line_keeps_def\<close>)
  then show ?thesis using srv_prompt(1) by simp
next
  case (srv_gl g e sh y)
  obtain th ops where "handleGameLogic (gl_view s) e (sy_gl (sv_sys s)) = GlStepped sh th ops"
    using sys_move_gl [OF srv_gl(6)] by blast
  note f = handleGameLogic_shared [OF this]
  have conc: "\<not> concerns c (GlMove e (gl_view s) sh)" if "\<not> seated (sv_stage s c)" for c
    using srv_invD(6) [OF inv that] by (auto simp: concerns_def gl_view_def roster_def)
  show ?thesis unfolding srv_gl(1)
    by (rule srv_inv_move [OF inv srv_gl(6) conc]) (use f srv_gl(2) srv_invD(4) [OF inv] in \<open>auto simp: gl_view_def\<close>)
next
  case (srv_pv c e sh y)
  obtain th ops where "pv_step (pv_view s c) e (sy_pvs (sv_sys s) c) = PvStepped sh th ops"
    using sys_move_pv [OF srv_pv(4)] by blast
  from pv_step_shared [OF this] have g: "sh_gs sh = sv_gs s \<or> sh_gs sh = remove_client (sv_pvs s c) (sv_gs s)"
    by (auto simp: pv_view_def)
  have conc: "\<not> concerns d (PvMove c e (pv_view s c) sh)" if "\<not> seated (sv_stage s d)" for d
    using that srv_pv(2) by (auto simp: concerns_def)
  have l: "gs_GameLogic (sv_gs s) = [] \<Longrightarrow> sy_gl y = sy_gl (sv_sys s) \<and> sy_todo y = [] \<and> sy_done y = []"
    using no_logic_move [OF srv_pv(4)] srv_invD(7) [OF inv] by (simp add: no_logic_def)
  have k: "roster_ok (sh_gs sh)" "set (roster (sh_gs sh)) \<subseteq> set (roster (sv_gs s))"
    "gs_GameLogic (sh_gs sh) = gs_GameLogic (sv_gs s)" "gs_GameState (sh_gs sh) = gs_GameState (sv_gs s)"
    using g remove_client_keeps [OF srv_invD(4) [OF inv], of "sv_pvs s c"] srv_invD(4) [OF inv] by (elim disjE; simp)+
  have "srv_inv (s\<lparr>sv_sys := y, sv_gs := sh_gs sh, sv_pvs := sv_pvs s, sv_infos := sh_infos sh, sv_next := sv_next s,
      sv_starts := sv_starts s\<rparr>)"
    by (rule srv_inv_move [OF inv srv_pv(4) conc k]) (use l in simp_all)
  then show ?thesis using srv_pv(1) by simp
next
  case (srv_send y)
  have l: "gs_GameLogic (sv_gs s) = [] \<Longrightarrow> sy_gl y = sy_gl (sv_sys s) \<and> sy_todo y = [] \<and> sy_done y = []"
    using no_logic_move [OF srv_send(2)] srv_invD(7) [OF inv] by (simp add: no_logic_def)
  have "srv_inv (s\<lparr>sv_sys := y, sv_gs := sv_gs s, sv_pvs := sv_pvs s, sv_infos := sv_infos s, sv_next := sv_next s,
      sv_starts := sv_starts s\<rparr>)"
    by (rule srv_inv_move [OF inv srv_send(2)]) (use l srv_invD(4) [OF inv] in \<open>auto simp: concerns_def\<close>)
  then show ?thesis using srv_send(1) by simp
next
  case (srv_cleanup gs' ops)
  then have "roster gs' = roster (sv_gs s)" "gs_GameLogic gs' = gs_GameLogic (sv_gs s)" "gs_GameState gs' = gs_GameState (sv_gs s)"
    by (auto simp: Cleanup_def roster_def)
  with srv_inv_gs [OF inv, of gs'] srv_invD(7) [OF inv] srv_cleanup show ?thesis by (auto simp: no_logic_def)
qed

lemma srv_reachable_iff: "srv_reachable gs0 s \<longleftrightarrow> srv_step\<^sup>*\<^sup>* (srv_init gs0) s"
proof
  show "srv_reachable gs0 s \<Longrightarrow> srv_step\<^sup>*\<^sup>* (srv_init gs0) s" by (induction rule: srv_reachable.induct) auto
  show "srv_step\<^sup>*\<^sup>* (srv_init gs0) s \<Longrightarrow> srv_reachable gs0 s"
    by (induction rule: rtranclp_induct) (auto intro: srv_reach_init srv_reach_step)
qed

interpretation run: machine "srv_reachable gs0" "srv_init gs0" srv_step for gs0
  by unfold_locales (rule srv_reachable_iff)

lemma srv_inv_reachable:
  assumes "srv_reachable gs0 s" "fresh_state gs0"
  shows "srv_inv s"
  by (rule run.invariant [where P = srv_inv, OF assms(1) srv_inv_init [OF assms(2)]]) (rule srv_inv_step)

section \<open>The numbers of the players\<close>

text \<open>The game logic goroutine leaves its first state for ever, and numbers the players as it leaves it.\<close>

lemma handleGameLogic_left:
  assumes "handleGameLogic sh e th = GlStepped sh' th' ops" "gt_pc th' = GlWaitStart"
  shows "gt_pc th = GlWaitStart \<and> is_timer e"
  using assms
  by (cases "gt_pc th"; cases e)
    (auto simp: handleGameLogic_def timer_send_def timer_reset_def gl_wait_start_def gl_fail_def is_timer_def
      gl_exit_def gl_terminate_def gl_wait_init_ack_def gl_sleep_first_def gl_finish_def order_turn_def fast_wait_def
      game_control_def gameLogicGameControlTimers_def fast_await_ack_def fast_await_actions_def Let_def waitGameLogicFinition_def
      split: nat.splits option.splits sum.splits if_splits prod.splits)

definition numbered :: "(cid \<Rightarrow> PlayerOrVisuClient) \<Rightarrow> gl_thread \<Rightarrow> bool" where
  "numbered pvs th \<longleftrightarrow> mset (map (\<lambda>c. pv_playerID (pvs c)) (gt_allPlayers th)) = mset (map int [0..<length (gt_allPlayers th)])"

lemma numbered_other [simp]: "c \<notin> set (gt_allPlayers th) \<Longrightarrow> numbered (pvs(c := p)) th = numbered pvs th"
proof -
  assume "c \<notin> set (gt_allPlayers th)"
  then have "map (\<lambda>d. pv_playerID ((pvs(c := p)) d)) (gt_allPlayers th) = map (\<lambda>d. pv_playerID (pvs d)) (gt_allPlayers th)" by auto
  then show ?thesis unfolding numbered_def by (simp only:)
qed

lemma game_init_numbered:
  assumes "is_perm perm (length (gs_Players (gh_gs sh)))" "distinct (gs_Players (gh_gs sh) @ gs_SpecialPlayers (gh_gs sh))"
    "game_init perm sh th = (sh', th')"
  shows "numbered (gh_pvs sh') th'"
proof -
  let ?ps = "gs_Players (gh_gs sh)" and ?sps = "gs_SpecialPlayers (gh_gs sh)"
  note g = game_init_ids [OF assms]
  have a: "gt_allPlayers th' = ?ps @ ?sps"
    using assms(3) by (auto simp: game_init_def Let_def split: prod.splits)
  have "mset (map (\<lambda>c. pv_playerID (gh_pvs sh' c)) ?ps) = mset (map int [length ?sps..<length ?ps + length ?sps])"
    using assms(1) by (simp only: g(2) mset_map is_perm_def shifted_range [symmetric])
  moreover have "[0..<length ?ps + length ?sps] = [0..<length ?sps] @ [length ?sps..<length ?ps + length ?sps]"
    by (metis add.commute le_add1 upt_add_eq_append zero_le)
  ultimately show ?thesis by (simp add: numbered_def a g(1) del: mset_upt) 
qed

lemma handleGameLogic_pvs:
  assumes "handleGameLogic sh e th = GlStepped sh' th' ops"
  shows "gh_pvs sh' = gh_pvs sh \<and> gt_allPlayers th' = gt_allPlayers th \<and> gt_visus th' = gt_visus th
    \<or> gt_pc th = GlWaitStart \<and> gt_visus th' = gs_Visus (gh_gs sh) \<and> (perm_ok e (gh_gs sh) \<and> distinct (gs_Players (gh_gs sh) @ gs_SpecialPlayers (gh_gs sh))
        \<longrightarrow> numbered (gh_pvs sh') th')"
proof (cases "\<exists>perm. e = GlStart perm \<and> gt_pc th = GlWaitStart")
  case True
  then obtain perm where e: "e = GlStart perm" "gt_pc th = GlWaitStart" by blast
  obtain sh1 th1 where g: "game_init perm sh th = (sh1, th1)" by fastforce
  have "gt_visus th1 = gs_Visus (gh_gs sh)" using g by (auto simp: game_init_def Let_def split: prod.splits)
  moreover have "sh' = sh1" "gt_allPlayers th' = gt_allPlayers th1" "gt_visus th' = gt_visus th1"
    using assms e g by (auto simp: handleGameLogic_def gl_wait_start_def gl_fail_def gl_exit_def split: prod.splits option.splits)
  ultimately show ?thesis using game_init_numbered [OF _ _ g] e by (auto simp: perm_ok_def numbered_def)
next
  case False
  then show ?thesis
    using assms
    by (cases "gt_pc th"; cases e)
      (auto simp: handleGameLogic_def timer_send_def timer_reset_def gl_wait_start_def gl_fail_def
        gl_exit_def gl_terminate_def gl_wait_init_ack_def gl_sleep_first_def gl_finish_def order_turn_def fast_wait_def
        game_control_def gameLogicGameControlTimers_def fast_await_ack_def fast_await_actions_def Let_def waitGameLogicFinition_def
        split: nat.splits option.splits sum.splits if_splits prod.splits)
qed

text \<open>
  A visualization is not a player, also in the copy of the game logic goroutine, which sends only to the
  clients it has copied.
\<close>

definition place_inv :: "srv \<Rightarrow> bool" where
  "place_inv s \<longleftrightarrow> (\<forall>c \<in> set (gs_Visus (sv_gs s)) \<union> set (gt_visus (sy_gl (sv_sys s))). \<not> is_player s c)
     \<and> (\<forall>c. deliveries c (sy_done (sv_sys s) @ sy_todo (sv_sys s)) \<noteq> [] \<longrightarrow> c \<in> set (clients_of (sy_gl (sv_sys s))))"

lemma place_inv_gs: "place_inv s \<Longrightarrow> set (gs_Visus gs') \<subseteq> set (gs_Visus (sv_gs s)) \<Longrightarrow> place_inv (s\<lparr>sv_gs := gs'\<rparr>)"
  by (auto simp: place_inv_def is_player_def)

lemma place_inv_frame [simp]:
  "place_inv (s\<lparr>sv_stage := st\<rparr>) = place_inv s" "place_inv (s\<lparr>sv_starts := n\<rparr>) = place_inv s"
  "place_inv (s\<lparr>sv_infos := i\<rparr>) = place_inv s" "place_inv (s\<lparr>sv_next := k\<rparr>) = place_inv s"
  "place_inv (s\<lparr>sv_published := b\<rparr>) = place_inv s" "place_inv (s\<lparr>sv_listener := b\<rparr>) = place_inv s"
  by (simp_all add: place_inv_def is_player_def)

lemma place_inv_init: "fresh_state gs0 \<Longrightarrow> place_inv (srv_init gs0)"
  by (simp add: place_inv_def srv_init_def sys_init_def gl_start_def fresh_state_def roster_def)

lemma place_inv_login:
  assumes "srv_inv s" "place_inv s" "sv_stage s c = Arrived cl"
    "handleFirstMessage c cl (sv_gs s) msg = (cl', gs', nx)"
  shows "place_inv (seat_goroutine c cl' nx (s\<lparr>sv_gs := gs'\<rparr>))"
proof (cases "\<exists>m. login_accepted cl (sv_gs s) msg m")
  case False
  with first_message_refused [OF False, of c] assms(2,4) show ?thesis by (auto simp: seat_goroutine_def)
next
  case True
  then obtain m where m: "login_accepted cl (sv_gs s) msg m" by blast
  with first_message_accepted [OF m, of c] assms(4)
  have e: "gs' = seat c (login_role m) (sv_gs s)" "nx = handler_of c (login_role m)" by auto
  have u: "untouched c (sv_sys s)" "c \<notin> set (roster (sv_gs s))" using srv_invD(6) [OF assms(1), of c] assms(3) by simp_all
  then have "c \<notin> set (gs_Visus (sv_gs s))" "c \<notin> set (gt_visus (sy_gl (sv_sys s)))"
    by (simp_all add: untouched_def clients_of_def roster_def)
  moreover have "login_role m = ''game logic'' \<Longrightarrow> no_logic s"
    using m srv_invD(7) [OF assms(1)] by (simp add: login_accepted_def free_place_def)
  ultimately show ?thesis using assms(2) e
    by (auto simp: place_inv_def seat_goroutine_def handler_of_def is_player_def seat_def new_player_def new_visu_def
        no_logic_def gl_start_def clients_of_def)
qed

lemma place_inv_gl:
  assumes "srv_inv s" "place_inv s" "sys_move (is_player s) (GlMove e (gl_view s) sh) (sv_sys s) y"
  shows "place_inv (s\<lparr>sv_sys := y, sv_gs := gh_gs sh, sv_pvs := gh_pvs sh, sv_infos := gh_infos sh, sv_next := gh_next sh, sv_starts := k\<rparr>)"
  using assms(3)
proof cases
  case (sys_gl_event y1 th ops)
  note f = gl_receives_frame [OF sys_gl_event(4)] and sh = handleGameLogic_shared [OF sys_gl_event(5)]
  have y: "sy_gl y = th" "sy_done y @ sy_todo y = (sy_done (sv_sys s) @ sy_todo (sv_sys s)) @ ops"
    using sys_gl_event(1) f by simp_all
  have p: "pv_isPlayer (gh_pvs sh c) = is_player s c" for c
    using sh [of c] by (simp add: same_kind_def gl_view_def is_player_def)
  have g: "gh_gs sh = sv_gs s" using sh by (simp add: gl_view_def)
  from handleGameLogic_pvs [OF sys_gl_event(5)]
  have v: "gt_visus th = gt_visus (sy_gl (sv_sys s)) \<or> gt_visus th = gs_Visus (sv_gs s)" by (auto simp: gl_view_def)
  have "c \<in> set (clients_of th)" if d: "deliveries c ((sy_done (sv_sys s) @ sy_todo (sv_sys s)) @ ops) \<noteq> []" for c
  proof (cases "gt_pc (sy_gl (sv_sys s)) = GlWaitStart")
    case True
    with srv_invD(1) [OF assms(1)] have "sy_done (sv_sys s) @ sy_todo (sv_sys s) = []" by (simp add: sys_inv_def gl_inv_def)
    moreover have "deliveries c ops = []" using sys_gl_event(5) True
      by (cases e) (auto simp: handleGameLogic_def timer_send_def timer_reset_def gl_wait_start_def gl_fail_def
        gl_exit_def gl_terminate_def split: prod.splits option.splits nat.splits)
    ultimately show ?thesis using d by simp
  next
    case False
    with handleGameLogic_clients [OF sys_gl_event(5), of c] assms(2) d show ?thesis by (auto simp: place_inv_def)
  qed
  moreover have "\<forall>c \<in> set (gs_Visus (sv_gs s)) \<union> set (gt_visus th). \<not> is_player s c"
    using v assms(2) by (auto simp: place_inv_def)
  ultimately show ?thesis by (simp add: place_inv_def y p g is_player_def)
qed

lemma place_inv_move:
  assumes "place_inv s" "sys_move (is_player s) mv (sv_sys s) y" "\<And>e sh sh'. mv \<noteq> GlMove e sh sh'"
  shows "place_inv (s\<lparr>sv_sys := y\<rparr>)"
proof -
  from assms(2,3) have "sy_gl y = sy_gl (sv_sys s) \<and> sy_done y @ sy_todo y = sy_done (sv_sys s) @ sy_todo (sv_sys s)"
    by cases auto
  with assms(1) show ?thesis unfolding place_inv_def by (simp add: is_player_def)
qed

lemma place_inv_step:
  assumes "srv_step s s'" "srv_inv s" "place_inv s"
  shows "place_inv s'"
  using assms(1)
proof cases
  case (srv_login c cl msg cl' gs' nx)
  with place_inv_login [OF assms(2,3)] show ?thesis by blast
next
  case (srv_gl g e sh y)
  with place_inv_gl [OF assms(2,3)] show ?thesis by blast
next
  case (srv_autostart c gs' ops)
  with place_inv_gs [OF assms(3), of gs'] autostart_lists(2) [of "sv_gs s"] show ?thesis by simp
next
  case (srv_prompt line gs' ops out)
  with place_inv_gs [OF assms(3), of gs'] executor_keeps [OF srv_prompt(2)] show ?thesis by (simp add: line_keeps_def)
next
  case (srv_pv c e sh y)
  obtain th ops where "pv_step (pv_view s c) e (sy_pvs (sv_sys s) c) = PvStepped sh th ops"
    using sys_move_pv [OF srv_pv(4)] by blast
  from pv_step_shared [OF this] have g: "sh_gs sh = sv_gs s \<or> sh_gs sh = remove_client (sv_pvs s c) (sv_gs s)"
    by (auto simp: pv_view_def)
  then have "set (gs_Visus (sh_gs sh)) \<subseteq> set (gs_Visus (sv_gs s))" by (elim disjE) (simp_all add: remove_client_visus)
  moreover have "place_inv (s\<lparr>sv_sys := y\<rparr>)" by (rule place_inv_move [OF assms(3) srv_pv(4)]) simp
  ultimately have "place_inv (s\<lparr>sv_sys := y, sv_gs := sh_gs sh\<rparr>)" using place_inv_gs [of "s\<lparr>sv_sys := y\<rparr>"] by simp
  then show ?thesis using srv_pv(1) by simp
next
  case (srv_send y)
  with place_inv_move [OF assms(3) srv_send(2)] show ?thesis by simp
next
  case (srv_cleanup gs' ops)
  then have "gs_Visus gs' = gs_Visus (sv_gs s)" by (auto simp: Cleanup_def)
  with place_inv_gs [OF assms(3), of gs'] srv_cleanup show ?thesis by simp
qed (use assms(3) place_inv_gs [OF assms(3), of "(sv_gs s)\<lparr>gs_listening := True\<rparr>"] in auto)

lemma place_inv_reachable:
  assumes "srv_reachable gs0 s" "fresh_state gs0"
  shows "place_inv s"
  by (rule run.invariant [where P = place_inv, OF assms(1) place_inv_init [OF assms(2)]]) (blast intro: place_inv_step srv_inv_reachable assms(2))

text \<open>Only a player of a running game hands over an action.\<close>

lemma action_in_game:
  assumes inv: "srv_inv s" "place_inv s"
    and step: "pv_step sh e (sy_pvs (sv_sys s) c) = PvStepped sh' th ops" "SendPlayerAction gl a \<in> set ops"
  shows "gt_pc (sy_gl (sv_sys s)) \<noteq> GlWaitStart \<and> c \<in> set (clients_of (sy_gl (sv_sys s)))"
proof -
  let ?y = "sv_sys s"
  from pv_step_actions [OF step] have pc: "pt_pc (sy_pvs ?y c) = PvLoop" "cl_state (pt_client (sy_pvs ?y c)) = CLIENT_THINKING" by auto
  have ok: "goroutine_ok (is_player s) (sv_logins s) ?y c" "channels_ok ?y c" using srv_invD(1) [OF inv(1)] by (simp_all add: sys_inv_def)
  obtain es where h: "pv_history (is_player s c) es (sy_pvs ?y c) (sy_acts ?y c)" "map snd es = sy_seen ?y c"
    by (rule goroutine_history [OF ok srv_invD(2) [OF inv(1)]])
  from h(1) obtain p where p: "phase_after (sy_seen ?y c) = Some p" "pv_in_loop (is_player s c) p (sy_seen ?y c) (sy_pvs ?y c) (sy_acts ?y c)"
    by (cases rule: pv_history_cases) (use pc(1) h(2) in auto)
  with pc(2) obtain n where "p = During n" by (cases p) (auto simp: pv_in_loop_def Let_def)
  with phase_after_counts [OF p(1)] have "starts_in (sy_seen ?y c) \<noteq> []" by (auto simp: phase_counts_def)
  with ok(2) have d: "deliveries c (sy_done ?y) \<noteq> []" by (auto simp: channels_ok_def Let_def)
  moreover from d have "sy_done ?y \<noteq> []" by auto
  moreover have "gl_inv (sy_gl ?y) (sy_done ?y @ sy_todo ?y)" using srv_invD(1) [OF inv(1)] by (simp add: sys_inv_def)
  ultimately show ?thesis using inv(2) by (auto simp: gl_inv_def place_inv_def)
qed

definition ids_inv :: "srv \<Rightarrow> bool" where
  "ids_inv s \<longleftrightarrow> (\<forall>c gl a. SendPlayerAction gl a \<in> set (sy_acts (sv_sys s) c) \<longrightarrow>
       pa_PlayerID a = pv_playerID (sv_pvs s c) \<and> gt_pc (sy_gl (sv_sys s)) \<noteq> GlWaitStart
       \<and> c \<in> set (clients_of (sy_gl (sv_sys s))))
     \<and> numbered (sv_pvs s) (sy_gl (sv_sys s))"

lemma ids_inv_frame [simp]:
  "ids_inv (s\<lparr>sv_gs := gs\<rparr>) = ids_inv s" "ids_inv (s\<lparr>sv_stage := st\<rparr>) = ids_inv s"
  "ids_inv (s\<lparr>sv_starts := n\<rparr>) = ids_inv s" "ids_inv (s\<lparr>sv_infos := i\<rparr>) = ids_inv s"
  "ids_inv (s\<lparr>sv_published := b\<rparr>) = ids_inv s" "ids_inv (s\<lparr>sv_listener := b\<rparr>) = ids_inv s"
  by (simp_all add: ids_inv_def)

lemma ids_inv_init: "ids_inv (srv_init gs0)"
  by (simp add: ids_inv_def srv_init_def sys_init_def numbered_def gl_start_def)

text \<open>A game logic is admitted only when there is none.\<close>

lemma game_logic_login:
  assumes "handleFirstMessage c cl gs msg = (cl', gs', RunGameLogic g)"
  shows "gs_GameLogic gs = []"
proof (cases "\<exists>m. login_accepted cl gs msg m")
  case False
  from first_message_refused [OF this, of c] assms show ?thesis by auto
next
  case True
  then obtain m where m: "login_accepted cl gs msg m" by blast
  with first_message_accepted [OF m, of c] assms have "handler_of c (login_role m) = RunGameLogic g" by auto
  then have "login_role m = ''game logic''" by (simp add: handler_of_def split: if_splits)
  with m show ?thesis by (simp add: login_accepted_def free_place_def)
qed

lemma ids_inv_login:
  assumes "srv_inv s" "ids_inv s" "sv_stage s c = Arrived cl"
    "handleFirstMessage c cl (sv_gs s) msg = (cl', gs', nx)"
  shows "ids_inv (seat_goroutine c cl' nx (s\<lparr>sv_gs := gs'\<rparr>))"
proof (cases nx)
  case LoginRefused
  then show ?thesis using assms(2) by (simp add: seat_goroutine_def)
next
  case (RunPlayerOrVisu p)
  have "untouched c (sv_sys s)" using srv_invD(6) [OF assms(1), of c] assms(3) by simp
  then have u: "sy_acts (sv_sys s) c = []" "c \<notin> set (gt_allPlayers (sy_gl (sv_sys s)))"
    by (simp_all add: untouched_def clients_of_def)
  with assms(2) RunPlayerOrVisu show ?thesis by (auto simp: seat_goroutine_def ids_inv_def)
next
  case (RunGameLogic g)
  have "gs_GameLogic (sv_gs s) = []" using assms(4) RunGameLogic by (auto dest: game_logic_login)
  from srv_invD(7) [OF assms(1) this] have "gt_pc (sy_gl (sv_sys s)) = GlWaitStart"
    by (simp add: no_logic_def gl_start_def)
  with assms(2) RunGameLogic show ?thesis
    by (auto simp: seat_goroutine_def ids_inv_def numbered_def gl_start_def)
qed

lemma ids_inv_gl:
  assumes "ids_inv s" "roster_ok (sv_gs s)" "perm_ok e (sv_gs s)" "sys_move (is_player s) (GlMove e (gl_view s) sh) (sv_sys s) y"
  shows "ids_inv (s\<lparr>sv_sys := y, sv_gs := gh_gs sh, sv_pvs := gh_pvs sh, sv_infos := gh_infos sh, sv_next := gh_next sh, sv_starts := k\<rparr>)"
  using assms(4)
proof cases
  case (sys_gl_event y1 th ops)
  note f = gl_receives_frame [OF sys_gl_event(4)] and l = handleGameLogic_left [OF sys_gl_event(5)]
  have "distinct (gs_Players (gh_gs (gl_view s)) @ gs_SpecialPlayers (gh_gs (gl_view s)))" "perm_ok e (gh_gs (gl_view s))"
    using assms(2,3) by (auto simp: gl_view_def roster_ok_def roster_def)
  with handleGameLogic_pvs [OF sys_gl_event(5)]
  have p: "gh_pvs sh = sv_pvs s \<and> gt_allPlayers th = gt_allPlayers (sy_gl (sv_sys s)) \<and> clients_of th = clients_of (sy_gl (sv_sys s))
      \<or> gt_pc (sy_gl (sv_sys s)) = GlWaitStart \<and> numbered (gh_pvs sh) th" by (auto simp: gl_view_def clients_of_def)
  have "sy_acts y = sy_acts (sv_sys s)" "sy_gl y = th" using sys_gl_event(1) f by simp_all
  with p l assms(1) show ?thesis by (auto simp: ids_inv_def numbered_def)
qed

lemma ids_inv_step:
  assumes "srv_step s s'" "srv_inv s" "ids_inv s" "place_inv s"
  shows "ids_inv s'"
  using assms(1)
proof cases
  case (srv_login c cl msg cl' gs' nx)
  with ids_inv_login [OF assms(2,3)] show ?thesis by blast
next
  case (srv_gl g e sh y)
  with ids_inv_gl [OF assms(3) srv_invD(4) [OF assms(2)]] show ?thesis by blast
next
  case (srv_pv c e sh y)
  from srv_pv(4) obtain th ops y1 where m: "pv_step (pv_view s c) e (sy_pvs (sv_sys s) c) = PvStepped sh th ops"
    "y = pv_moves c e th ops y1" "sy_acts y1 = sy_acts (sv_sys s)" "sy_gl y1 = sy_gl (sv_sys s)"
    by cases auto
  have "pa_PlayerID a = pv_playerID (sv_pvs s c) \<and> gt_pc (sy_gl (sv_sys s)) \<noteq> GlWaitStart \<and> c \<in> set (clients_of (sy_gl (sv_sys s)))"
    if "SendPlayerAction gl a \<in> set ops" for gl a
    using pv_step_actions [OF m(1) that] action_in_game [OF assms(2,4) m(1) that] by (auto simp: pv_view_def)
  with assms(3) m(2-4) srv_pv(1) show ?thesis by (auto simp: ids_inv_def pv_moves_def)
next
  case (srv_send y)
  from srv_send(2) have "sy_acts y = sy_acts (sv_sys s) \<and> sy_gl y = sy_gl (sv_sys s)" by cases auto
  with assms(3) srv_send(1) show ?thesis by (simp add: ids_inv_def)
qed (use assms(3) in auto)

lemma ids_inv_reachable:
  assumes "srv_reachable gs0 s" "fresh_state gs0"
  shows "ids_inv s"
  by (rule run.invariant [where P = ids_inv, OF assms(1) ids_inv_init])
    (blast intro: ids_inv_step srv_inv_reachable place_inv_reachable assms(2))

end
