(* ===== verification/Server_Properties.thy ===== *)
theory Server_Properties
  imports Server
begin

text \<open>
  The properties of the whole server, with the example that witnesses them: a player and a game logic
  connect to a server in fast mode, the operator types \<open>start\<close>, the player answers its first turn and the game logic is sent its
  action.
\<close>

section \<open>An example\<close>

text \<open>
  A player and a game logic connect to a server in fast mode, the operator starts the game, the player
  answers its first turn and the game logic is sent the action.
\<close>

definition solo_server :: GlobalState where
  "solo_server = small_server\<lparr>gs_listening := False, gs_NbVisusMax := 0, gs_NbTurnsMax := 1000, gs_Autostart := False,
     gs_Fast := True, gs_MillisecondsBeforeFirstTurn := FZero False, gs_MillisecondsBetweenTurns := FZero False\<rparr>"

abbreviation solo_run :: "srv \<Rightarrow> bool" where
  "solo_run \<equiv> srv_reachable solo_server"

lemma solo_fresh: "fresh_state solo_server"
  by (simp add: fresh_state_def solo_server_def small_server_def roster_def)

text \<open>A connection arrives and logs in as bob in the given role; without \<open>--autostart\<close> it then runs.\<close>

lemma bob_joins:
  assumes "srv_reachable gs0 s" "sv_stage s c = Absent" "gs_listening (sv_gs s)"
    "role \<in> set valid_roles" "free_place (sv_gs s) role"
  shows "\<exists>cl. healthy (cl_writer cl) \<and> sent cl = [login_ack]
    \<and> srv_reachable gs0 (seat_goroutine c cl (handler_of c role) (s\<lparr>sv_gs := seat c role (sv_gs s)\<rparr>))"
proof -
  obtain cl where cl: "handleFirstMessage c bob (sv_gs s) (login_message ''bob'' role) = (cl, seat c role (sv_gs s), handler_of c role)"
    "healthy (cl_writer cl)" "sent cl = [login_ack]" using bob_logs_in [OF assms(4,5)] by blast
  let ?a = "s\<lparr>sv_stage := (sv_stage s)(c := Arrived bob)\<rparr>"
  have "srv_step s ?a" unfolding bob_def by (rule srv_accept [OF assms(3,2)])
  with assms(1) have a: "srv_reachable gs0 ?a" by (rule srv_reach_step)
  let ?b = "seat_goroutine c cl (handler_of c role) (?a\<lparr>sv_gs := seat c role (sv_gs s)\<rparr>)"
  have "srv_step ?a ?b" by (rule srv_login [of _ _ bob]) (use cl(1) in simp_all)
  with a have "srv_reachable gs0 ?b" by (rule srv_reach_step)
  moreover have "?b = seat_goroutine c cl (handler_of c role) (s\<lparr>sv_gs := seat c role (sv_gs s)\<rparr>)"
    by (simp add: seat_goroutine_def handler_of_def)
  ultimately show ?thesis using cl by metis
qed

lemma solo_login:
  assumes "solo_run s" "sv_stage s c = Absent" "gs_listening (sv_gs s)" "\<not> gs_Autostart (sv_gs s)"
    "role \<in> set valid_roles" "free_place (sv_gs s) role"
  shows "\<exists>cl. healthy (cl_writer cl) \<and> sent cl = [login_ack] \<and>
    solo_run ((seat_goroutine c cl (handler_of c role) (s\<lparr>sv_gs := seat c role (sv_gs s)\<rparr>))\<lparr>sv_stage := (sv_stage s)(c := Running)\<rparr>)"
proof -
  obtain cl where cl: "healthy (cl_writer cl)" "sent cl = [login_ack]"
    "solo_run (seat_goroutine c cl (handler_of c role) (s\<lparr>sv_gs := seat c role (sv_gs s)\<rparr>))" (is "solo_run ?b")
    using bob_joins [OF assms(1-3,5,6)] by blast
  have st: "sv_stage ?b c = Accepting" "autostart (sv_gs ?b) = (sv_gs ?b, [])"
    using assms(4) by (simp_all add: seat_goroutine_def handler_of_def autostart_def seat_def)
  from cl(3) srv_autostart [OF st] have "solo_run (?b\<lparr>sv_gs := sv_gs ?b, sv_stage := (sv_stage ?b)(c := Running)\<rparr>)"
    by (auto intro: srv_reach_step)
  moreover have "?b\<lparr>sv_gs := sv_gs ?b, sv_stage := (sv_stage ?b)(c := Running)\<rparr> = ?b\<lparr>sv_stage := (sv_stage s)(c := Running)\<rparr>"
    by (simp add: seat_goroutine_def handler_of_def)
  ultimately show ?thesis using cl by metis
qed

text \<open>The states of the running game, with the two goroutines in the given places.\<close>

definition solo_at :: "srv \<Rightarrow> gl_thread \<Rightarrow> pv_thread \<Rightarrow> bool" where
  "solo_at s g th \<longleftrightarrow> solo_run s \<and> sv_stage s 0 = Running \<and> sv_stage s 2 = Running \<and> gs_GameLogic (sv_gs s) = [2]
     \<and> solo_state (gl_view s) \<and> gs_Fast (sv_gs s) \<and> pv_isPlayer (sv_pvs s 0) \<and> sy_gl (sv_sys s) = g \<and> sy_pvs (sv_sys s) 0 = th"

lemma solo_started:
  "\<exists>s gl cl. solo_at s (gl_start gl) (pv_start cl) \<and> healthy (cl_writer gl) \<and> healthy (cl_writer cl) \<and> sent cl = [login_ack]
     \<and> sv_starts s = 1 \<and> sy_todo (sv_sys s) = [] \<and> sy_turns (sv_sys s) 0 = [] \<and> sy_owed (sv_sys s) 0 = [] \<and> sy_actions (sv_sys s) = []"
proof -
  let ?gs = "solo_server\<lparr>gs_listening := True\<rparr>"
  let ?p = "(srv_init solo_server)\<lparr>sv_published := True\<rparr>"
  let ?s0 = "?p\<lparr>sv_gs := ?gs, sv_listener := True\<rparr>"
  have p: "solo_run ?p" by (rule srv_reach_step [OF srv_reach_init srv_publish])
  have "srv_step ?p ?s0" using srv_listen [of ?p] by (simp add: srv_init_def)
  with p have 0: "solo_run ?s0" by (rule srv_reach_step)
  note defs = solo_server_def small_server_def seat_def free_place_def valid_roles_def srv_init_def
  have p: "sv_stage ?s0 0 = Absent" "gs_listening (sv_gs ?s0)" "\<not> gs_Autostart (sv_gs ?s0)" "''player'' \<in> set valid_roles"
    "free_place (sv_gs ?s0) ''player''" by (simp_all add: defs)
  obtain cl where cl: "healthy (cl_writer cl)" "sent cl = [login_ack]"
    "solo_run ((seat_goroutine 0 cl (handler_of 0 ''player'') (?s0\<lparr>sv_gs := seat 0 ''player'' (sv_gs ?s0)\<rparr>))\<lparr>sv_stage := (sv_stage ?s0)(0 := Running)\<rparr>)"
    using solo_login [OF 0, of 0 "''player''", OF p] by (elim exE conjE) (rule that)
  define s1 where "s1 = (seat_goroutine 0 cl (handler_of 0 ''player'') (?s0\<lparr>sv_gs := seat 0 ''player'' (sv_gs ?s0)\<rparr>))\<lparr>sv_stage := (sv_stage ?s0)(0 := Running)\<rparr>"
  have s1: "sv_gs s1 = seat 0 ''player'' ?gs" "sv_stage s1 = (\<lambda>_. Absent)(0 := Running)" "sv_pvs s1 0 = new_player 0 False"
    "sy_pvs (sv_sys s1) 0 = pv_start cl" "sv_starts s1 = 0" "sy_todo (sv_sys s1) = []" "sy_turns (sv_sys s1) 0 = []"
    "sy_owed (sv_sys s1) 0 = []" "sy_actions (sv_sys s1) = []" "sv_published s1"
    by (simp_all add: s1_def seat_goroutine_def handler_of_def srv_init_def sys_init_def)
  have q: "sv_stage s1 2 = Absent" "gs_listening (sv_gs s1)" "\<not> gs_Autostart (sv_gs s1)" "''game logic'' \<in> set valid_roles"
    "free_place (sv_gs s1) ''game logic''" by (simp_all add: s1 defs)
  obtain gl where gl: "healthy (cl_writer gl)"
    "solo_run ((seat_goroutine 2 gl (handler_of 2 ''game logic'') (s1\<lparr>sv_gs := seat 2 ''game logic'' (sv_gs s1)\<rparr>))\<lparr>sv_stage := (sv_stage s1)(2 := Running)\<rparr>)"
    using solo_login [OF cl(3) [folded s1_def], of 2 "''game logic''", OF q] by (elim exE conjE) (rule that)
  define s2 where "s2 = (seat_goroutine 2 gl (handler_of 2 ''game logic'') (s1\<lparr>sv_gs := seat 2 ''game logic'' (sv_gs s1)\<rparr>))\<lparr>sv_stage := (sv_stage s1)(2 := Running)\<rparr>"
  have s2: "sv_gs s2 = seat 2 ''game logic'' (seat 0 ''player'' ?gs)" "sv_starts s2 = 0" "sv_published s2"
    by (simp_all add: s2_def seat_goroutine_def handler_of_def s1)
  let ?gs2 = "(sv_gs s2)\<lparr>gs_GameState := GAME_RUNNING\<rparr>"
  have "TrimSpace ''start'' = ''start''" using TrimSpace_line [of "''st''" "''art''"] by (simp add: ascii_def plain_word_def plain_char_def)
  then have "executor ''start'' (sv_gs s2) = (?gs2, [SendStart 2], [])"
    by (cases rule: executor_cases [of "''start''" "sv_gs s2"]) (simp_all add: prompt_start_def s2 defs)
  from srv_prompt [OF this] have "srv_step s2 (s2\<lparr>sv_gs := ?gs2, sv_starts := 1\<rparr>)"
    by (simp add: s2(2,3) is_start_def start_capacity_def)
  with gl(2) [folded s2_def] have "solo_run (s2\<lparr>sv_gs := ?gs2, sv_starts := 1\<rparr>)" by (rule srv_reach_step)
  then have "solo_at (s2\<lparr>sv_gs := ?gs2, sv_starts := 1\<rparr>) (gl_start gl) (pv_start cl)"
    by (simp add: solo_at_def s2 solo_state_def gl_view_def defs)
      (simp add: s2_def seat_goroutine_def handler_of_def s1 new_player_def)
  with cl(1,2) gl(1) show ?thesis
    by (intro exI [of _ "s2\<lparr>sv_gs := ?gs2, sv_starts := 1\<rparr>"] exI [of _ gl] exI [of _ cl])
      (simp add: s2_def seat_goroutine_def handler_of_def s1)
qed

text \<open>The moves of the goroutines in such a state.\<close>

lemma solo_at_gl:
  assumes "solo_at s g th" "sy_todo (sv_sys s) = []" "gl_receives e (sv_sys s) = Some y" "starts_of e \<le> sv_starts s"
    "perm_ok e (sv_gs s)" "handleGameLogic (gl_view s) e g = GlStepped sh g' ops"
  shows "\<exists>s'. solo_at s' g' th \<and> sv_sys s' = y\<lparr>sy_gl := g', sy_todo := ops\<rparr>
    \<and> pv_view s' 0 = \<lparr>sh_gs = gh_gs sh, sh_infos = gh_infos sh, sh_pv = gh_pvs sh 0\<rparr>"
proof -
  have s: "solo_run s" "sv_stage s 0 = Running" "sv_stage s 2 = Running" "gs_GameLogic (sv_gs s) = [2]" "solo_state (gl_view s)"
    "pv_isPlayer (sv_pvs s 0)" "sy_gl (sv_sys s) = g" "sy_pvs (sv_sys s) 0 = th" "gs_Fast (sv_gs s)" using assms(1) by (simp_all add: solo_at_def)
  have "start_ok (gl_view s) e" using s(5) by (simp add: start_ok_def solo_state_def)
  with assms(2,3,6) s(7) have "sys_move (is_player s) (GlMove e (gl_view s) sh) (sv_sys s)
      (y\<lparr>sy_gl := g', sy_todo := sy_todo (sv_sys s) @ ops\<rparr>)" by (intro sys_gl_event) simp_all
  from srv_reach_step [OF s(1) srv_gl [OF s(4,3) assms(5,4) this]] assms(2)
  have r: "solo_run (s\<lparr>sv_sys := y\<lparr>sy_gl := g', sy_todo := ops\<rparr>, sv_gs := gh_gs sh, sv_pvs := gh_pvs sh, sv_infos := gh_infos sh,
          sv_next := gh_next sh, sv_starts := sv_starts s - starts_of e\<rparr>)" (is "solo_run ?s") by simp
  have "gh_gs sh = sv_gs s" "pv_isPlayer (gh_pvs sh 0)"
    using handleGameLogic_shared [OF assms(6), of 0] s(6) by (simp_all add: gl_view_def same_kind_def)
  moreover have "sy_pvs y 0 = th" using gl_receives_frame(5) [OF assms(3)] s(8) by simp
  ultimately have "solo_at ?s g' th" using r s(2-5,9) by (simp add: solo_at_def solo_state_def gl_view_def)
  then show ?thesis by (intro exI [of _ ?s]) (simp add: pv_view_def)
qed

lemma solo_at_gl_same:
  assumes "solo_at s g th" "sy_todo (sv_sys s) = []" "gl_receives e (sv_sys s) = Some y" "starts_of e = 0"
    "handleGameLogic (gl_view s) e g = GlStepped (gl_view s) g' ops"
  shows "\<exists>s'. solo_at s' g' th \<and> sv_sys s' = y\<lparr>sy_gl := g', sy_todo := ops\<rparr> \<and> pv_view s' 0 = pv_view s 0"
proof -
  have "perm_ok e (sv_gs s)" using assms(4) by (cases e) (simp_all add: starts_of_def perm_ok_def)
  with solo_at_gl [OF assms(1-3) _ _ assms(5)] assms(4) show ?thesis by (simp add: gl_view_def pv_view_def)
qed

lemma is_player_view: "pv_isPlayer (sh_pv (pv_view s c)) = is_player s c"
  by (simp add: pv_view_def is_player_def)

lemma solo_at_pv:
  assumes "solo_at s g th" "sys_move (is_player s) (PvMove 0 e (pv_view s 0) (pv_view s 0)) (sv_sys s) y" "sy_gl y = g"
  shows "solo_at (s\<lparr>sv_sys := y\<rparr>) g (sy_pvs y 0)"
proof -
  have "srv_step s (s\<lparr>sv_sys := y, sv_gs := sh_gs (pv_view s 0), sv_infos := sh_infos (pv_view s 0)\<rparr>)"
    by (rule srv_pv [OF _ _ assms(2)]) (use assms(1) in \<open>simp_all add: solo_at_def\<close>)
  then have "srv_step s (s\<lparr>sv_sys := y\<rparr>)" by (simp add: pv_view_def)
  with assms(1,3) show ?thesis
    by (auto simp: solo_at_def solo_state_def gl_view_def intro: srv_reach_step)
qed

lemma solo_at_send:
  assumes "solo_at s g th" "sys_move (is_player s) SendMove (sv_sys s) y" "sy_gl y = g" "sy_pvs y 0 = th"
  shows "solo_at (s\<lparr>sv_sys := y\<rparr>) g th"
  using assms srv_send [OF assms(2)] by (auto simp: solo_at_def solo_state_def gl_view_def intro: srv_reach_step)


text \<open>The player is asked: the game logic program was sent DO_INIT.\<close>

lemma solo_asked_srv:
  "\<exists>s c refs cl. solo_at s (swift c refs GlWaitInitAck) (pv_start cl) \<and> healthy (cl_writer c) \<and> healthy (cl_writer cl)
     \<and> sent cl = [login_ack] \<and> pv_playerID (sh_pv (pv_view s 0)) = 0 \<and> sy_todo (sv_sys s) = [] \<and> sy_turns (sv_sys s) 0 = []
     \<and> sy_owed (sv_sys s) 0 = [] \<and> sy_actions (sv_sys s) = []"
proof -
  obtain s gl cl where s: "solo_at s (gl_start gl) (pv_start cl)" "healthy (cl_writer gl)" "healthy (cl_writer cl)"
    "sent cl = [login_ack]" "sv_starts s = 1" "sy_todo (sv_sys s) = []" "sy_turns (sv_sys s) 0 = []" "sy_owed (sv_sys s) 0 = []"
    "sy_actions (sv_sys s) = []" using solo_started by blast
  have st: "solo_state (gl_view s)" and fast: "gs_Fast (gh_gs (gl_view s))" using s(1) by (simp_all add: solo_at_def gl_view_def)
  obtain sh c refs where g: "handleGameLogic (gl_view s) (GlStart [0]) (gl_start gl) = GlStepped sh (swift c refs GlWaitInitAck) []"
    "healthy (cl_writer c)" "pv_playerID (gh_pvs sh 0) = 0" using solo_gl [OF st s(2)] fast by (auto simp: swift_def)
  have "perm_ok (GlStart [0]) (sv_gs s)" using st by (simp add: perm_ok_def is_perm_def solo_state_def gl_view_def)
  from solo_at_gl [OF s(1,6) _ _ this g(1), of "sv_sys s"] s(5)
  obtain s1 where "solo_at s1 (swift c refs GlWaitInitAck) (pv_start cl)" "pv_playerID (sh_pv (pv_view s1 0)) = 0"
    "sv_sys s1 = (sv_sys s)\<lparr>sy_gl := swift c refs GlWaitInitAck, sy_todo := []\<rparr>" using g(3) by (auto simp: starts_of_def)
  with s g(2) show ?thesis
    by (intro exI [of _ s1] exI [of _ c] exI [of _ refs] exI [of _ cl]) simp
qed

text \<open>The game runs: GAME_STARTS was received and the first turn was ordered and sent.\<close>

lemma solo_playing_srv:
  assumes "solo_at s (swift c refs GlWaitInitAck) (pv_start cl)" "pv_playerID (sh_pv (pv_view s 0)) = 0"
    "sy_todo (sv_sys s) = []" "sy_turns (sv_sys s) 0 = []" "sy_owed (sv_sys s) 0 = []" "sy_actions (sv_sys s) = []"
    and st: "pv_step (pv_view s 0) (PvGameStarts example_starts) (pv_start cl) = PvStepped (pv_view s 0) th1 []"
  shows "\<exists>s'. solo_at s' (swift_second (snd (sendDoTurn c [])) refs) th1 \<and> pv_view s' 0 = pv_view s 0 \<and> sy_todo (sv_sys s') = []
     \<and> sy_turns (sv_sys s') 0 = [example_turn 0] \<and> sy_owed (sv_sys s') 0 = [] \<and> sy_actions (sv_sys s') = []"
proof -
  let ?c = "snd (sendDoTurn c [])"
  have "pv_playerID (gh_pvs (gl_view s) 0) = 0" using assms(2) by (simp add: pv_view_def gl_view_def)
  from solo_at_gl_same [OF assms(1,3) _ _ swift_init_ack [OF this]] obtain s1 where
    s1: "solo_at s1 (swift_ready ?c refs) (pv_start cl)" "pv_view s1 0 = pv_view s 0"
      "sv_sys s1 = (sv_sys s)\<lparr>sy_gl := swift_ready ?c refs, sy_todo := [SendGameStarts 0 example_starts]\<rparr>"
    by (auto simp: starts_of_def)
  define y2 where "y2 = pv_moves 0 (PvGameStarts example_starts) th1 []
    ((sv_sys s1)\<lparr>sy_todo := [], sy_done := sy_done (sv_sys s1) @ [SendGameStarts 0 example_starts]\<rparr>)"
  have "sy_pvs (sv_sys s1) 0 = pv_start cl" using s1(1) by (simp add: solo_at_def)
  then have "sys_move (is_player s1) (PvMove 0 (PvGameStarts example_starts) (pv_view s1 0) (pv_view s1 0)) (sv_sys s1) y2"
    unfolding y2_def using is_player_view [of s1 0] by (intro sys_gl_starts) (simp_all add: s1 assms st)
  from solo_at_pv [OF s1(1) this] have s2: "solo_at (s1\<lparr>sv_sys := y2\<rparr>) (swift_ready ?c refs) th1"
    by (simp add: y2_def pv_moves_def s1(3))
  from solo_at_gl_same [OF s2 _ _ _ swift_turn] obtain s4 where
    s4: "solo_at s4 (swift_second ?c refs) th1" "pv_view s4 0 = pv_view s 0"
      "sv_sys s4 = y2\<lparr>sy_gl := swift_second ?c refs, sy_todo := [SendNewTurn 0 (example_turn 0)]\<rparr>"
    using s1(2) by (auto simp: starts_of_def y2_def pv_view_def)
  define y5 where "y5 = (sv_sys s4)\<lparr>sy_todo := [], sy_done := sy_done (sv_sys s4) @ [SendNewTurn 0 (example_turn 0)],
    sy_turns := (sy_turns (sv_sys s4))(0 := sy_turns (sv_sys s4) 0 @ [example_turn 0])\<rparr>"
  have "sys_move (is_player s4) SendMove (sv_sys s4) y5" unfolding y5_def
    by (rule sys_gl_turn) (simp_all add: s4(3) y2_def pv_moves_def s1(3) assms(4) newTurn_capacity_def)
  from solo_at_send [OF s4(1) this] have "solo_at (s4\<lparr>sv_sys := y5\<rparr>) (swift_second ?c refs) th1"
    by (simp add: y5_def s4(3) y2_def pv_moves_def)
  with s4(2) show ?thesis
    by (intro exI [of _ "s4\<lparr>sv_sys := y5\<rparr>"]) (simp add: y5_def s4(3) y2_def pv_moves_def s1(3) assms pv_view_def)
qed

text \<open>The player answers, and the game logic is sent the action with the next turn.\<close>

lemma solo_answered_srv:
  assumes "solo_at s (swift_second c refs) th1" "sy_todo (sv_sys s) = []" "sy_turns (sv_sys s) 0 = [example_turn 0]"
    "sy_owed (sv_sys s) 0 = []" "sy_actions (sv_sys s) = []"
    and st: "pv_step (pv_view s 0) (PvNewTurn (example_turn 0)) th1 = PvStepped (pv_view s 0) th2 []"
      "pv_step (pv_view s 0) (PvIncoming example_ack) th2 = PvStepped (pv_view s 0) th3 [example_action]"
  shows "\<exists>s'. solo_at s' (swift_ordered c refs) th3"
proof -
  define y1 where "y1 = pv_moves 0 (PvNewTurn (example_turn 0)) th2 [] ((sv_sys s)\<lparr>sy_turns := (sy_turns (sv_sys s))(0 := [])\<rparr>)"
  have "sy_pvs (sv_sys s) 0 = th1" "sy_gl (sv_sys s) = swift_second c refs" using assms(1) by (simp_all add: solo_at_def)
  note y = this
  then have "sys_move (is_player s) (PvMove 0 (PvNewTurn (example_turn 0)) (pv_view s 0) (pv_view s 0)) (sv_sys s) y1"
    unfolding y1_def using is_player_view [of s 0] by (intro sys_pv_turn) (simp_all add: assms)
  from solo_at_pv [OF assms(1) this] have 1: "solo_at (s\<lparr>sv_sys := y1\<rparr>) (swift_second c refs) th2"
    by (simp add: y1_def pv_moves_def y)
  define y2 where "y2 = pv_moves 0 (PvIncoming example_ack) th3 [example_action] y1"
  have v: "pv_view (s\<lparr>sv_sys := y1\<rparr>) 0 = pv_view s 0" "is_player (s\<lparr>sv_sys := y1\<rparr>) 0 = is_player s 0"
    by (simp_all add: pv_view_def is_player_def)
  have "sys_move (is_player (s\<lparr>sv_sys := y1\<rparr>)) (PvMove 0 (PvIncoming example_ack) (pv_view s 0) (pv_view s 0)) y1 y2"
    unfolding y2_def using is_player_view [of s 0] v(2) by (intro sys_pv_incoming) (simp_all add: y1_def pv_moves_def st)
  from solo_at_pv [OF 1, unfolded v(1), of _ y2] this have 2: "solo_at (s\<lparr>sv_sys := y2\<rparr>) (swift_second c refs) th3"
    by (simp add: y2_def y1_def pv_moves_def y)
  define y3 where "y3 = y2\<lparr>sy_owed := (sy_owed y2)(0 := []), sy_actions := [bob_action]\<rparr>"
  have "sys_move (is_player (s\<lparr>sv_sys := y2\<rparr>)) SendMove y2 (y2\<lparr>sy_owed := (sy_owed y2)(0 := []), sy_actions := sy_actions y2 @ [bob_action]\<rparr>)"
    by (rule sys_pv_action) (simp_all add: y2_def y1_def pv_moves_def assms(5) playerAction_capacity_def example_action_def bob_action_def)
  then have "sys_move (is_player (s\<lparr>sv_sys := y2\<rparr>)) SendMove y2 y3" by (simp add: y3_def y2_def y1_def pv_moves_def assms(5))
  with solo_at_send [OF 2, of y3] have 3: "solo_at (s\<lparr>sv_sys := y3\<rparr>) (swift_second c refs) th3"
    by (simp add: y3_def y2_def y1_def pv_moves_def y)
  from solo_at_gl_same [OF 3 _ _ _ swift_action] show ?thesis
    by (auto simp: y3_def y2_def y1_def pv_moves_def assms(2) starts_of_def)
qed

lemma solo_answer:
  "\<exists>s. solo_run s \<and> bob_turn \<in> set (sent (gt_client (sy_gl (sv_sys s)))) \<and> gt_fast (sy_gl (sv_sys s))"
proof -
  obtain s c refs cl where s: "solo_at s (swift c refs GlWaitInitAck) (pv_start cl)" "healthy (cl_writer c)"
    "healthy (cl_writer cl)" "sent cl = [login_ack]" "pv_playerID (sh_pv (pv_view s 0)) = 0" "sy_todo (sv_sys s) = []" "sy_turns (sv_sys s) 0 = []"
    "sy_owed (sv_sys s) 0 = []" "sy_actions (sv_sys s) = []" using solo_asked_srv by blast
  have "gs_GameLogic (sh_gs (pv_view s 0)) = [2]" "pv_isPlayer (sh_pv (pv_view s 0))" using s(1) by (simp_all add: solo_at_def pv_view_def)
  from example_steps [OF this s(5,3,4)] obtain th1 th2 th3 where
    st: "pv_step (pv_view s 0) (PvGameStarts example_starts) (pv_start cl) = PvStepped (pv_view s 0) th1 []"
      "pv_step (pv_view s 0) (PvNewTurn (example_turn 0)) th1 = PvStepped (pv_view s 0) th2 []"
      "pv_step (pv_view s 0) (PvIncoming example_ack) th2 = PvStepped (pv_view s 0) th3 [example_action]" by metis
  from solo_playing_srv [OF s(1,5-9) st(1)] obtain s1 where
    s1: "solo_at s1 (swift_second (snd (sendDoTurn c [])) refs) th1" "pv_view s1 0 = pv_view s 0" "sy_todo (sv_sys s1) = []"
      "sy_turns (sv_sys s1) 0 = [example_turn 0]" "sy_owed (sv_sys s1) 0 = []" "sy_actions (sv_sys s1) = []" by blast
  from solo_answered_srv [OF s1(1,3-6), unfolded s1(2), OF st(2,3)] obtain s2 where
    "solo_at s2 (swift_ordered (snd (sendDoTurn c [])) refs) th3" by blast
  moreover have "healthy (cl_writer (snd (sendDoTurn c [])))" using example_do_turn [OF s(2)] by blast
  from swift_ordered_sent [OF this] have "bob_turn \<in> set (sent (gt_client (swift_ordered (snd (sendDoTurn c [])) refs)))"
    "gt_fast (swift_ordered (snd (sendDoTurn c [])) refs)" by blast+
  ultimately show ?thesis by (auto simp: solo_at_def)
qed

section \<open>Lemmas: the delayed goroutines\<close>

text \<open>No delayed goroutine is under way.  In fast mode there is none at any time.\<close>

definition no_delayed :: "gl_thread \<Rightarrow> bool" where
  "no_delayed th \<longleftrightarrow> gt_sleeping th = 0 \<and> gt_unreset th = 0"

definition mode_inv :: "gl_thread \<Rightarrow> bool" where
  "mode_inv th \<longleftrightarrow> (gt_fast th \<or> gt_pc th = GlWaitStart \<longrightarrow> no_delayed th)
     \<and> (gt_fast th \<longrightarrow> gt_pc th \<noteq> GlSleepFirst \<and> gt_pc th \<noteq> GlTimers)
     \<and> (\<not> gt_fast th \<longrightarrow> gt_pc th \<noteq> GlFastAck \<and> gt_pc th \<noteq> GlFastActions)"



lemma mode_inv_start [simp]: "mode_inv (gl_start c)"
  by (simp add: mode_inv_def no_delayed_def gl_start_def)


section \<open>Properties\<close>





text \<open>
  C1. The protocol at every connection of the server: before its login a client is sent nothing; a
  client whose login is refused is sent nothing or one KICK; the messages of an accepted
  player or visualization are a run of the documented protocol, and what a player has handed to the
  game logic are its actions for the turns it was sent, in order, each once, except that
  the last turn may be unanswered; and there is at most one game logic, no client has two places.
\<close>

theorem server_follows_protocol:
  assumes "srv_reachable gs0 s" "fresh_state gs0"
  shows "(\<forall>cl. sv_stage s c = Arrived cl \<longrightarrow> sent cl = [])
    \<and> (\<forall>cl. sv_stage s c = Refused cl \<longrightarrow> sent cl = [] \<or> (\<exists>why. sent cl = [kick_msg why]))
    \<and> (\<exists>d. doc_run (sent (pt_client (sy_pvs (sv_sys s) c))) = Some d
         \<and> (pt_pc (sy_pvs (sv_sys s) c) = PvLoop \<longrightarrow> d = doc_abs (sy_pvs (sv_sys s) c)))
    \<and> sorted_wrt (<) (turns_sent (pt_client (sy_pvs (sv_sys s) c)))
    \<and> (is_player s c \<longrightarrow> acted (sy_acts (sv_sys s) c) \<in>
         {turns_sent (pt_client (sy_pvs (sv_sys s) c)), butlast (turns_sent (pt_client (sy_pvs (sv_sys s) c)))})
    \<and> roster_ok (sv_gs s)"
proof -
  have inv: "srv_inv s" by (rule srv_inv_reachable [OF assms])
  have "sv_stage s c = Arrived cl \<Longrightarrow> sent cl = []"
    "sv_stage s c = Refused cl \<Longrightarrow> sent cl = [] \<or> (\<exists>why. sent cl = [kick_msg why])" for cl
    using srv_invD(5) [OF inv, of c] by auto
  with sys_inv_protocol [OF srv_invD(1,2) [OF inv], of c] srv_invD(4) [OF inv] show ?thesis by blast
qed

theorem server_follows_protocol_witness:
  "\<exists>s d. srv_reachable solo_server s \<and> bob_turn \<in> set (sent (gt_client (sy_gl (sv_sys s))))
     \<and> doc_run (sent (pt_client (sy_pvs (sv_sys s) 0))) = Some d \<and> roster_ok (sv_gs s)"
proof -
  obtain s where s: "solo_run s" "bob_turn \<in> set (sent (gt_client (sy_gl (sv_sys s))))" using solo_answer by blast
  from server_follows_protocol [OF s(1) solo_fresh, of 0] s show ?thesis by blast
qed

text \<open>
  C2. In fast mode actions keep their author: every action in a DO_TURN message that the game logic was sent was read
  from a TURN_ACK message of a player, for a turn which that player had been sent, with the actions of
  that message and with the number the server gave to that player; and the numbers of the
  players are 0, 1, 2, ..., each used once.  (In a game with timers the slice of actions is shared with
  the delayed goroutines without a lock, and \<open>action_race\<close> shows that this can fail.)
\<close>

theorem server_actions_authentic:
  assumes "srv_reachable gs0 s" "fresh_state gs0" "gt_fast (sy_gl (sv_sys s))"
    and "ODoTurn m \<in> set (sent (gt_client (sy_gl (sv_sys s))))" "a \<in> set (dt_PlayerActions m)"
  shows "(\<exists>c \<in> set (gt_allPlayers (sy_gl (sv_sys s))). is_player s c \<and> pv_playerID (sv_pvs s c) = pa_PlayerID a
      \<and> pa_TurnNumber a \<in> set (turns_sent (pt_client (sy_pvs (sv_sys s) c)))
      \<and> (\<exists>ack. PvIncoming ack \<in> set (sy_seen (sv_sys s) c) \<and> acked ack a))
    \<and> mset (map (\<lambda>c. pv_playerID (sv_pvs s c)) (gt_allPlayers (sy_gl (sv_sys s))))
      = mset (map int [0..<length (gt_allPlayers (sy_gl (sv_sys s)))])"
proof
  have inv: "srv_inv s" "ids_inv s" "place_inv s"
    by (rule srv_inv_reachable [OF assms(1,2)], rule ids_inv_reachable [OF assms(1,2)], rule place_inv_reachable [OF assms(1,2)])
  have "a \<in> known (sy_gl (sv_sys s))" using assms(4,5) by (auto simp: known_def ordered_def)
  with srv_invD(3) [OF inv(1)] have h: "a \<in> handed (sv_sys s)" by (auto simp: flow_inv_def)
  then obtain c gl where c: "SendPlayerAction gl a \<in> set (sy_acts (sv_sys s) c)" by (auto simp: handed_def)
  note f = handed_from [OF srv_invD(1,2) [OF inv(1)] c]
  have "pa_PlayerID a = pv_playerID (sv_pvs s c)" "c \<in> set (clients_of (sy_gl (sv_sys s)))" using inv(2) c by (auto simp: ids_inv_def)
  moreover have "c \<notin> set (gt_visus (sy_gl (sv_sys s)))" using inv(3) f by (auto simp: place_inv_def)
  ultimately have "c \<in> set (gt_allPlayers (sy_gl (sv_sys s)))" "pv_playerID (sv_pvs s c) = pa_PlayerID a" by (simp_all add: clients_of_def)
  with f show "\<exists>c \<in> set (gt_allPlayers (sy_gl (sv_sys s))). is_player s c \<and> pv_playerID (sv_pvs s c) = pa_PlayerID a
      \<and> pa_TurnNumber a \<in> set (turns_sent (pt_client (sy_pvs (sv_sys s) c)))
      \<and> (\<exists>ack. PvIncoming ack \<in> set (sy_seen (sv_sys s) c) \<and> acked ack a)" by blast
  show "mset (map (\<lambda>c. pv_playerID (sv_pvs s c)) (gt_allPlayers (sy_gl (sv_sys s))))
      = mset (map int [0..<length (gt_allPlayers (sy_gl (sv_sys s)))])"
    using inv(2) by (simp add: ids_inv_def numbered_def)
qed

theorem server_actions_authentic_witness:
  "\<exists>s c ack. srv_reachable solo_server s \<and> is_player s c \<and> pv_playerID (sv_pvs s c) = 0
     \<and> PvIncoming ack \<in> set (sy_seen (sv_sys s) c) \<and> acked ack bob_action"
proof -
  obtain s where s: "solo_run s" "gt_fast (sy_gl (sv_sys s))" "bob_turn \<in> set (sent (gt_client (sy_gl (sv_sys s))))"
    using solo_answer by blast
  have "bob_action \<in> set (dt_PlayerActions \<lparr>dt_MessageType = ''DO_TURN'', dt_PlayerActions = [bob_action]\<rparr>)" by simp
  from server_actions_authentic [OF s(1) solo_fresh s(2) s(3) [unfolded bob_turn_def] this] s(1) show ?thesis
    by (auto simp: bob_action_def)
qed

end
