(* ===== verification/Server_Race.thy ===== *)
theory Server_Race
  imports Server_Properties
begin

text \<open>
  The automatic start in the whole server: \<open>autostart\<close> runs after the mutex is released and does
  not look at the state of the game, so that clients which log in at the same time send the start signal
  several times, although it is received once and its channel holds one.
\<close>

section \<open>A client that waits to send the start signal\<close>

text \<open>
  A goroutine is at its send in \<open>autostart\<close>, the channel \<open>start\<close> is full, and the game logic
  goroutine has received its start signal already.
\<close>

definition stuck_starting :: "cid \<Rightarrow> srv \<Rightarrow> bool" where
  "stuck_starting c s \<longleftrightarrow> sv_stage s c = Starting \<and> start_capacity \<le> sv_starts s
     \<and> gs_GameLogic (sv_gs s) \<noteq> [] \<and> gt_pc (sy_gl (sv_sys s)) \<noteq> GlWaitStart"

lemma start_received_once:
  assumes "handleGameLogic sh e th = GlStepped sh' th' ops" "gt_pc th \<noteq> GlWaitStart"
  shows "starts_of e = 0 \<and> gt_pc th' \<noteq> GlWaitStart"
proof -
  have "starts_of e = 0"
    using assms by (cases e; cases "gt_pc th") (auto simp: starts_of_def handleGameLogic_def gl_wait_init_ack_def
        gl_sleep_first_def gameLogicGameControlTimers_def fast_await_ack_def fast_await_actions_def waitGameLogicFinition_def)
  with handleGameLogic_left [OF assms(1)] assms(2) show ?thesis by blast
qed

text \<open>The game logic goroutine at GAME_STARTS for a client stays there unless that client's goroutine moves.\<close>

definition at_starts :: "cid \<Rightarrow> sys \<Rightarrow> bool" where
  "at_starts c y \<longleftrightarrow> (\<exists>m rest. sy_todo y = SendGameStarts c m # rest)"

lemma at_starts_move:
  assumes "sys_move player mv y y'" "\<And>e sh sh'. mv \<noteq> PvMove c e sh sh'"
  shows "sy_pvs y' c = sy_pvs y c \<and> (at_starts c y \<longrightarrow> sy_todo y' = sy_todo y)"
  using assms(1)
proof cases
  case (sys_gl_event e gsh s1 gsh' th ops)
  have "ops = []" if "at_starts c y"
  proof -
    have "is_timer e" using that sys_gl_event(3) by (auto simp: at_starts_def)
    then show ?thesis using timer_steps sys_gl_event(6) by blast
  qed
  with sys_gl_event(2) gl_receives_frame(5) [OF sys_gl_event(5)] show ?thesis by auto
qed (use assms(2) in \<open>auto simp: at_starts_def pv_moves_def\<close>)

definition waits_same :: "cid \<Rightarrow> srv \<Rightarrow> srv \<Rightarrow> bool" where
  "waits_same c s s' \<longleftrightarrow> sy_pvs (sv_sys s') c = sy_pvs (sv_sys s) c
     \<and> (at_starts c (sv_sys s) \<longrightarrow> sy_todo (sv_sys s') = sy_todo (sv_sys s))"

lemma stuck_login:
  assumes "stuck_starting c s" "sv_stage s d = Arrived cl" "handleFirstMessage d cl (sv_gs s) msg = (cl', gs', nx)"
  shows "stuck_starting c (seat_goroutine d cl' nx (s\<lparr>sv_gs := gs'\<rparr>))
    \<and> waits_same c s (seat_goroutine d cl' nx (s\<lparr>sv_gs := gs'\<rparr>))"
proof -
  have s: "d \<noteq> c" "gs_GameLogic (sv_gs s) \<noteq> []" using assms(1,2) by (auto simp: stuck_starting_def)
  have "gs_GameLogic gs' \<noteq> []"
  proof (cases "\<exists>m. login_accepted cl (sv_gs s) msg m")
    case True
    then obtain m where "login_accepted cl (sv_gs s) msg m" by blast
    from first_message_accepted [OF this, of d] assms(3) s(2) show ?thesis by (auto simp: seat_def)
  next
    case False
    from first_message_refused [OF this, of d] assms(3) s(2) show ?thesis by auto
  qed
  moreover have "nx \<noteq> RunGameLogic g" for g using assms(3) s(2) by (auto dest: game_logic_login)
  ultimately show ?thesis using assms(1) s(1)
    by (cases nx) (auto simp: seat_goroutine_def stuck_starting_def waits_same_def)
qed

lemma stuck_step:
  assumes "srv_step s s'" "stuck_starting c s"
  shows "stuck_starting c s' \<and> waits_same c s s'"
  using assms(1)
proof cases
  case (srv_login d cl msg cl' gs' nx)
  with stuck_login [OF assms(2)] show ?thesis by blast
next
  case (srv_autostart d gs' ops)
  have "gs_GameLogic gs' = gs_GameLogic (sv_gs s)" using autostart_lists(3) [of "sv_gs s"] srv_autostart(3) by simp
  with srv_autostart assms(2) show ?thesis by (auto simp: stuck_starting_def waits_same_def)
next
  case (srv_prompt line gs' ops out)
  with executor_keeps [OF srv_prompt(2)] assms(2) show ?thesis
    by (auto simp: stuck_starting_def waits_same_def line_keeps_def)
next
  case (srv_gl g e sh y)
  from srv_gl(6) obtain th ops y1 where m: "handleGameLogic (gl_view s) e (sy_gl (sv_sys s)) = GlStepped sh th ops" "sy_gl y = th"
    by cases auto
  have "gt_pc (sy_gl (sv_sys s)) \<noteq> GlWaitStart" using assms(2) by (simp add: stuck_starting_def)
  with start_received_once [OF m(1)] handleGameLogic_shared [OF m(1)] at_starts_move [OF srv_gl(6), of c] m(2) assms(2) srv_gl(1)
  show ?thesis by (simp add: stuck_starting_def waits_same_def gl_view_def)
next
  case (srv_pv d e sh y)
  obtain th ops where "pv_step (pv_view s d) e (sy_pvs (sv_sys s) d) = PvStepped sh th ops"
    using sys_move_pv [OF srv_pv(4)] by blast
  from pv_step_shared [OF this] have "gs_GameLogic (sh_gs sh) = gs_GameLogic (sv_gs s)"
    by (auto simp: pv_view_def remove_client_def Let_def)
  moreover have "sy_gl y = sy_gl (sv_sys s)" using srv_pv(4) by cases auto
  moreover have "d \<noteq> c" using srv_pv(2) assms(2) by (auto simp: stuck_starting_def)
  ultimately show ?thesis using at_starts_move [OF srv_pv(4), of c] assms(2) srv_pv(1)
    by (simp add: stuck_starting_def waits_same_def)
next
  case (srv_send y)
  have "sy_gl y = sy_gl (sv_sys s)" using srv_send(2) by cases auto
  with at_starts_move [OF srv_send(2), of c] assms(2) srv_send(1) show ?thesis
    by (simp add: stuck_starting_def waits_same_def)
next
  case (srv_cleanup gs' ops)
  then have "gs_GameLogic gs' = gs_GameLogic (sv_gs s)" by (auto simp: Cleanup_def)
  with assms(2) srv_cleanup(1) show ?thesis by (simp add: stuck_starting_def waits_same_def)
qed (use assms(2) in \<open>auto simp: stuck_starting_def waits_same_def\<close>)

interpretation starting: standstill srv_step "stuck_starting c" "\<lambda>s. sy_pvs (sv_sys s) c" for c
  by unfold_locales (use stuck_step in \<open>auto simp: waits_same_def\<close>)

interpretation unstarted: standstill srv_step "\<lambda>s. stuck_starting c s \<and> at_starts c (sv_sys s)" "\<lambda>s. sy_todo (sv_sys s)" for c
  by unfold_locales (use stuck_step in \<open>auto simp: waits_same_def at_starts_def\<close>)

section \<open>An example\<close>

text \<open>
  A player, a visualization and the game logic log in at the same time on a server with
  \<open>--autostart\<close>: all three find everybody connected and send the start signal.
\<close>

definition race_server :: GlobalState where
  "race_server = solo_server\<lparr>gs_NbVisusMax := 1, gs_Autostart := True, gs_Fast := False\<rparr>"

lemma race_fresh: "fresh_state race_server"
  by (simp add: fresh_state_def race_server_def solo_server_def small_server_def roster_def)

lemma autostart_sends:
  assumes "srv_reachable gs0 s" "sv_stage s c = Accepting" "autostart (sv_gs s) = (gs', [op])"
  shows "srv_reachable gs0 (s\<lparr>sv_gs := gs', sv_stage := (sv_stage s)(c := Starting)\<rparr>)"
    "sv_starts s = 0 \<Longrightarrow> srv_reachable gs0 (s\<lparr>sv_gs := gs', sv_starts := 1, sv_stage := (sv_stage s)(c := Running)\<rparr>)"
proof -
  let ?s = "s\<lparr>sv_gs := gs', sv_stage := (sv_stage s)(c := Starting)\<rparr>"
  show 1: "srv_reachable gs0 ?s" using assms(1) srv_autostart [OF assms(2,3)] by (auto intro: srv_reach_step)
  assume "sv_starts s = 0"
  with srv_started [of ?s c] have "srv_step ?s (s\<lparr>sv_gs := gs', sv_starts := 1, sv_stage := (sv_stage s)(c := Running)\<rparr>)"
    by (simp add: start_capacity_def)
  with 1 show "srv_reachable gs0 (s\<lparr>sv_gs := gs', sv_starts := 1, sv_stage := (sv_stage s)(c := Running)\<rparr>)"
    by (rule srv_reach_step)
qed

definition race_gs :: GlobalState where
  "race_gs = seat 2 ''game logic'' (seat 1 ''visualization'' (seat 0 ''player'' (race_server\<lparr>gs_listening := True\<rparr>)))"

lemma race_joined:
  "\<exists>s gl. srv_reachable race_server s \<and> healthy (cl_writer gl) \<and> sv_gs s = race_gs
     \<and> sv_stage s 0 = Accepting \<and> sv_stage s 1 = Accepting \<and> sv_stage s 2 = Accepting
     \<and> sy_gl (sv_sys s) = gl_start gl \<and> sy_todo (sv_sys s) = [] \<and> sv_starts s = 0"
proof -
  let ?gs = "race_server\<lparr>gs_listening := True\<rparr>"
  let ?s0 = "(srv_init race_server)\<lparr>sv_gs := ?gs, sv_listener := True\<rparr>"
  note defs = race_server_def solo_server_def small_server_def seat_def free_place_def valid_roles_def srv_init_def
  have "srv_step (srv_init race_server) ?s0" using srv_listen [of "srv_init race_server"] by (simp add: srv_init_def)
  then have 0: "srv_reachable race_server ?s0" by (rule srv_reach_step [OF srv_reach_init])
  have p: "sv_stage ?s0 0 = Absent" "gs_listening (sv_gs ?s0)" "''player'' \<in> set valid_roles" "free_place (sv_gs ?s0) ''player''"
    by (simp_all add: defs)
  obtain cl where cl: "srv_reachable race_server (seat_goroutine 0 cl (handler_of 0 ''player'') (?s0\<lparr>sv_gs := seat 0 ''player'' (sv_gs ?s0)\<rparr>))"
    using bob_joins [OF 0, of 0 "''player''", OF p] by blast
  define s1 where "s1 = seat_goroutine 0 cl (handler_of 0 ''player'') (?s0\<lparr>sv_gs := seat 0 ''player'' (sv_gs ?s0)\<rparr>)"
  have s1: "sv_gs s1 = seat 0 ''player'' ?gs" "sv_stage s1 = (\<lambda>_. Absent)(0 := Accepting)" "sv_starts s1 = 0" "sy_todo (sv_sys s1) = []"
    by (simp_all add: s1_def seat_goroutine_def handler_of_def srv_init_def sys_init_def)
  have q: "sv_stage s1 1 = Absent" "gs_listening (sv_gs s1)" "''visualization'' \<in> set valid_roles" "free_place (sv_gs s1) ''visualization''"
    by (simp_all add: s1 defs)
  obtain vl where vl: "srv_reachable race_server (seat_goroutine 1 vl (handler_of 1 ''visualization'') (s1\<lparr>sv_gs := seat 1 ''visualization'' (sv_gs s1)\<rparr>))"
    using bob_joins [OF cl [folded s1_def], of 1 "''visualization''", OF q] by blast
  define s2 where "s2 = seat_goroutine 1 vl (handler_of 1 ''visualization'') (s1\<lparr>sv_gs := seat 1 ''visualization'' (sv_gs s1)\<rparr>)"
  have s2: "sv_gs s2 = seat 1 ''visualization'' (seat 0 ''player'' ?gs)" "sv_stage s2 = (\<lambda>_. Absent)(0 := Accepting, 1 := Accepting)"
    "sv_starts s2 = 0" "sy_todo (sv_sys s2) = []"
    by (simp_all add: s2_def seat_goroutine_def handler_of_def s1)
  have r: "sv_stage s2 2 = Absent" "gs_listening (sv_gs s2)" "''game logic'' \<in> set valid_roles" "free_place (sv_gs s2) ''game logic''"
    by (simp_all add: s2 defs)
  obtain gl where gl: "healthy (cl_writer gl)"
    "srv_reachable race_server (seat_goroutine 2 gl (handler_of 2 ''game logic'') (s2\<lparr>sv_gs := seat 2 ''game logic'' (sv_gs s2)\<rparr>))"
    using bob_joins [OF vl [folded s2_def], of 2 "''game logic''", OF r] by blast
  from gl show ?thesis
    by (intro exI conjI) (assumption | simp add: seat_goroutine_def handler_of_def s2 race_gs_def)+
qed

text \<open>The game logic program answers DO_INIT: the goroutine of the game logic is at GAME_STARTS for the player.\<close>

lemma race_gl:
  assumes "gs_Players (gh_gs sh) = [0]" "gs_SpecialPlayers (gh_gs sh) = []" "gs_NbTurnsMax (gh_gs sh) = 1000" "healthy (cl_writer gl)"
  shows "\<exists>sh' th. handleGameLogic sh (GlStart [0]) (gl_start gl) = GlStepped sh' th [] \<and> gt_pc th = GlWaitInitAck
    \<and> gt_allPlayers th = [0] \<and> gh_gs sh' = gh_gs sh"
proof -
  obtain c where c: "sendDoInit gl 1 0 1000 = (None, c)" using solo_do_init [OF assms(4)] by blast
  obtain sh' th where g: "game_init [0] sh (gl_start gl) = (sh', th)" by fastforce
  have th: "gt_client th = gl" "gt_initialNbPlayers th = 1" "gt_initialNbSpecialPlayers th = 0" "gt_nbTurnsMax th = 1000"
    "gt_allPlayers th = [0]" "gh_gs sh' = gh_gs sh"
    using g assms(1-3) by (auto simp: game_init_def Let_def gl_start_def split: prod.splits)
  have "gt_pc (gl_start gl) = GlWaitStart" by (simp add: gl_start_def)
  with c g th have "handleGameLogic sh (GlStart [0]) (gl_start gl) = GlStepped sh' (th\<lparr>gt_client := c, gt_pc := GlWaitInitAck\<rparr>) []"
    by (simp add: handleGameLogic_def gl_wait_start_def)
  with th(5,6) show ?thesis by (intro exI conjI) (assumption | simp)+
qed

lemma race_init_ack:
  assumes "gt_pc th = GlWaitInitAck" "gt_allPlayers th = [0]"
  shows "\<exists>th' m rest. handleGameLogic sh (GlIncoming init_ack) th = GlStepped sh th' (SendGameStarts 0 m # rest)
    \<and> gt_pc th' \<noteq> GlWaitStart"
  using assms by (simp add: handleGameLogic_def gl_wait_init_ack_def example_acks game_control_def order_turn_def fast_wait_def
      game_starts_ops_def Let_def)

abbreviation race_run :: GlobalState where
  "race_run \<equiv> race_gs\<lparr>gs_GameState := GAME_RUNNING\<rparr>"

lemma race_gs_facts:
  "autostart race_gs = (race_run, [SendStart 2])" "autostart race_run = (race_run, [SendStart 2])"
  "gs_Players race_run = [0]" "gs_SpecialPlayers race_run = []" "gs_Visus race_run = [1]" "gs_NbTurnsMax race_run = 1000"
  "gs_GameLogic race_run = [2]"
  by (simp_all add: autostart_def areAllExpectedClientsConnected_def race_gs_def race_server_def solo_server_def small_server_def seat_def)

lemma race_started:
  "\<exists>s. srv_reachable race_server s \<and> sv_gs s = race_run \<and> sv_starts s = 0 \<and> sy_todo (sv_sys s) = []
     \<and> gt_pc (sy_gl (sv_sys s)) = GlWaitInitAck \<and> gt_allPlayers (sy_gl (sv_sys s)) = [0]
     \<and> sv_stage s 0 = Accepting \<and> sv_stage s 1 = Accepting \<and> sv_stage s 2 = Running"
proof -
  obtain s gl where s: "srv_reachable race_server s" "healthy (cl_writer gl)" "sv_gs s = race_gs"
    "sv_stage s 0 = Accepting" "sv_stage s 1 = Accepting" "sv_stage s 2 = Accepting"
    "sy_gl (sv_sys s) = gl_start gl" "sy_todo (sv_sys s) = []" "sv_starts s = 0" using race_joined by blast
  define s1 where "s1 = s\<lparr>sv_gs := race_run, sv_starts := 1, sv_stage := (sv_stage s)(2 := Running)\<rparr>"
  have 1: "srv_reachable race_server s1"
    unfolding s1_def by (rule autostart_sends(2) [OF s(1,6)]) (simp_all add: s race_gs_facts)
  obtain sh th where h: "handleGameLogic (gl_view s1) (GlStart [0]) (gl_start gl) = GlStepped sh th []" "gt_pc th = GlWaitInitAck"
    "gt_allPlayers th = [0]" "gh_gs sh = race_run"
    using race_gl [of "gl_view s1" gl] s(2) race_gs_facts by (auto simp: gl_view_def s1_def)
  let ?y = "(sv_sys s)\<lparr>sy_gl := th, sy_todo := []\<rparr>"
  have "sys_move (is_player s1) (GlMove (GlStart [0]) (gl_view s1) sh) (sv_sys s1) ((sv_sys s1)\<lparr>sy_gl := th, sy_todo := sy_todo (sv_sys s1) @ []\<rparr>)"
    by (rule sys_gl_event) (use h race_gs_facts in \<open>simp_all add: s1_def s start_ok_def\<close>, simp add: gl_view_def)
  then have m: "sys_move (is_player s1) (GlMove (GlStart [0]) (gl_view s1) sh) (sv_sys s1) ?y" by (simp add: s1_def s)
  define s2 where "s2 = s1\<lparr>sv_sys := ?y, sv_gs := gh_gs sh, sv_pvs := gh_pvs sh, sv_infos := gh_infos sh, sv_next := gh_next sh,
    sv_starts := sv_starts s1 - starts_of (GlStart [0])\<rparr>"
  have "srv_step s1 s2" unfolding s2_def
    by (rule srv_gl [where g = 2, OF _ _ _ _ m]) (simp_all add: s1_def race_gs_facts perm_ok_def is_perm_def starts_of_def)
  with 1 have "srv_reachable race_server s2" by (rule srv_reach_step)
  then show ?thesis using h s by (intro exI [of _ s2]) (simp add: s2_def s1_def starts_of_def)
qed

lemma race_stuck:
  "\<exists>s m rest. srv_reachable race_server s \<and> stuck_starting 0 s \<and> sy_todo (sv_sys s) = SendGameStarts 0 m # rest"
proof -
  obtain s where s: "srv_reachable race_server s" "sv_gs s = race_run" "sv_starts s = 0" "sy_todo (sv_sys s) = []"
     "gt_pc (sy_gl (sv_sys s)) = GlWaitInitAck" "gt_allPlayers (sy_gl (sv_sys s)) = [0]"
     "sv_stage s 0 = Accepting" "sv_stage s 1 = Accepting" "sv_stage s 2 = Running" using race_started by blast
  define s1 where "s1 = s\<lparr>sv_gs := race_run, sv_starts := 1, sv_stage := (sv_stage s)(1 := Running)\<rparr>"
  have 1: "srv_reachable race_server s1" unfolding s1_def
    by (rule autostart_sends(2) [OF s(1,8)]) (simp_all add: s(2,3) race_gs_facts)
  define s2 where "s2 = s1\<lparr>sv_gs := race_run, sv_stage := (sv_stage s1)(0 := Starting)\<rparr>"
  have 2: "srv_reachable race_server s2" unfolding s2_def
    by (rule autostart_sends(1) [OF 1]) (simp_all add: s1_def s race_gs_facts)
  have y: "sv_sys s2 = sv_sys s" "sv_gs s2 = race_run" "sv_starts s2 = 1" "sv_stage s2 0 = Starting" "sv_stage s2 2 = Running"
    by (simp_all add: s2_def s1_def s(9))
  obtain th m rest where i: "handleGameLogic (gl_view s2) (GlIncoming init_ack) (sy_gl (sv_sys s)) = GlStepped (gl_view s2) th (SendGameStarts 0 m # rest)"
    "gt_pc th \<noteq> GlWaitStart" using race_init_ack [OF s(5,6)] by blast
  let ?z = "(sv_sys s)\<lparr>sy_gl := th, sy_todo := SendGameStarts 0 m # rest\<rparr>"
  have "sys_move (is_player s2) (GlMove (GlIncoming init_ack) (gl_view s2) (gl_view s2)) (sv_sys s2)
      ((sv_sys s2)\<lparr>sy_gl := th, sy_todo := sy_todo (sv_sys s2) @ SendGameStarts 0 m # rest\<rparr>)"
    by (rule sys_gl_event) (use i in \<open>simp_all add: y s(4) start_ok_def\<close>)
  then have "srv_step s2 (s2\<lparr>sv_sys := ?z, sv_gs := gh_gs (gl_view s2), sv_pvs := gh_pvs (gl_view s2), sv_infos := gh_infos (gl_view s2),
      sv_next := gh_next (gl_view s2), sv_starts := sv_starts s2 - starts_of (GlIncoming init_ack)\<rparr>)"
    by (intro srv_gl [of _ 2]) (simp_all add: y s(4) race_gs_facts perm_ok_def starts_of_def)
  then have "srv_step s2 (s2\<lparr>sv_sys := ?z\<rparr>)" by (simp add: gl_view_def starts_of_def)
  with 2 have "srv_reachable race_server (s2\<lparr>sv_sys := ?z\<rparr>)" by (rule srv_reach_step)
  then show ?thesis using i(2) y race_gs_facts(7)
    by (intro exI [of _ "s2\<lparr>sv_sys := ?z\<rparr>"]) (simp add: stuck_starting_def start_capacity_def)
qed

section \<open>Properties\<close>

text \<open>
  C36. The automatic start is a race: a client whose goroutine is at its send in \<open>autostart\<close> while
  the channel \<open>start\<close> is full and the game logic has received its start signal stays there in every
  later state of the server; it is sent nothing more, and when the game logic goroutine is at GAME_STARTS
  for that client it stays there too, so that the game never begins.  Three clients that log in at the same
  time are enough to get there.
\<close>

theorem autostart_race:
  assumes "stuck_starting c s" "srv_step\<^sup>*\<^sup>* s s'"
  shows "sv_stage s' c = Starting \<and> sent (pt_client (sy_pvs (sv_sys s') c)) = sent (pt_client (sy_pvs (sv_sys s) c))
    \<and> (\<forall>m rest. sy_todo (sv_sys s) = SendGameStarts c m # rest \<longrightarrow> sy_todo (sv_sys s') = sy_todo (sv_sys s))"
  using starting.for_ever [OF assms(2,1)] unstarted.for_ever [OF assms(2), of c] assms(1)
  by (auto simp: stuck_starting_def at_starts_def)

theorem autostart_race_witness:
  "\<exists>s m rest. srv_reachable race_server s \<and> sy_todo (sv_sys s) = SendGameStarts 0 m # rest
     \<and> (\<forall>s'. srv_step\<^sup>*\<^sup>* s s' \<longrightarrow> sv_stage s' 0 = Starting \<and> sy_todo (sv_sys s') = SendGameStarts 0 m # rest)"
  using race_stuck autostart_race by metis

end
