(* ===== verification/Action_Race.thy ===== *)
theory Action_Race
  imports Game_Properties
begin

text \<open>
  The slice \<open>playerActions\<close> of \<open>gameLogicGameControlTimers\<close> (src/control_gl.go), which the select loop
  and the goroutines that send a delayed DO_TURN share without a lock.  \<open>Game_Logic\<close> takes the handling
  of an action and the sending of a DO_TURN as one step each.  Here the slice is what it is in Go, a
  pointer into a backing array and a length, and every statement that touches it is a step of its own:
  each iteration of the \<open>range\<close>, the swap, the overwriting, the \<open>append\<close>, each field that \<open>json.Marshal\<close>
  reads from the backing array, and the re-slicing to length 0.  The statement is the unit: what the
  memory model of Go allows inside one statement when two goroutines race on it is not described.

  \<open>undisturbed_actions\<close> shows that operations that do not overlap behave as in \<open>Game_Logic\<close>;
  \<open>action_race\<close> shows what is left of it when they overlap.
\<close>

section \<open>Model\<close>

type_synonym action = MessageDoTurnPlayerAction

text \<open>
  A slice value: the backing array it points to and its length.  An array is a list; its length is
  the capacity of the slices into it, which all start at its first element.
\<close>

record slice =
  sl_array :: nat
  sl_len :: nat

text \<open>Where the select loop is in the statements of its case \<open>action\<close>.\<close>

datatype loop_place =
    Selecting
  | Ranging action slice nat
  | Swapping action nat
  | Overwriting action
  | Appending action
  | LoopPanicked

text \<open>
  Where a delayed goroutine is: \<open>json.Marshal\<close> has its own copy of the slice variable and reads the
  fields of one element of the backing array after the other.
\<close>

text \<open>The next field of the element to be read, with the fields already read.\<close>

datatype reading = AtElement | AfterId int | AfterTurn int int

datatype delayed =
    Asleep
  | Marshalling slice "action list" reading
  | Resetting
  | Ended

text \<open>
  The arrays, the next array to allocate, the variable \<open>playerActions\<close>, the goroutines, and the contents
  of the DO_TURN messages that were encoded.
\<close>

record race =
  rc_arrays :: "nat \<Rightarrow> action list"
  rc_next :: nat
  rc_playerActions :: slice
  rc_loop :: loop_place
  rc_delayed :: "delayed list"
  rc_ordered :: "action list list"











section \<open>Lemmas: statements that do not overlap\<close>

text \<open>The actions that are pending, and that the slice lies within its array.\<close>

definition pending_actions :: "race \<Rightarrow> action list" where
  "pending_actions s = take (sl_len (rc_playerActions s)) (rc_arrays s (sl_array (rc_playerActions s)))"

definition slice_ok :: "race \<Rightarrow> bool" where
  "slice_ok s \<longleftrightarrow> sl_len (rc_playerActions s) \<le> length (rc_arrays s (sl_array (rc_playerActions s)))"


lemma pending_length [simp]: "slice_ok s \<Longrightarrow> length (pending_actions s) = sl_len (rc_playerActions s)"
  by (simp add: pending_actions_def slice_ok_def)


lemma pending_loop [simp]: "pending_actions (s\<lparr>rc_loop := l\<rparr>) = pending_actions s" "slice_ok (s\<lparr>rc_loop := l\<rparr>) = slice_ok s"
  "pending_actions (s\<lparr>rc_delayed := d\<rparr>) = pending_actions s" "slice_ok (s\<lparr>rc_delayed := d\<rparr>) = slice_ok s"
  by (simp_all add: pending_actions_def slice_ok_def)






lemma action_fields [simp]:
  "\<lparr>pa_PlayerID = pa_PlayerID x, pa_TurnNumber = pa_TurnNumber x, pa_Actions = pa_Actions x\<rparr> = (x::action)"
  by (cases x) simp








section \<open>Lemmas: whatever the schedule\<close>

text \<open>The slice \<open>h\<close> lies in an array in use and holds actions of \<open>A\<close>.\<close>

definition holds :: "action set \<Rightarrow> race \<Rightarrow> slice \<Rightarrow> bool" where
  "holds A s h \<longleftrightarrow> sl_array h < rc_next s \<and> sl_len h \<le> length (rc_arrays s (sl_array h))
     \<and> set (take (sl_len h) (rc_arrays s (sl_array h))) \<subseteq> A"

text \<open>Each field of an element is a field of an action of \<open>A\<close>.\<close>

definition mixed_of :: "action set \<Rightarrow> action \<Rightarrow> bool" where
  "mixed_of A x \<longleftrightarrow> pa_PlayerID x \<in> pa_PlayerID ` A \<and> pa_TurnNumber x \<in> pa_TurnNumber ` A \<and> pa_Actions x \<in> pa_Actions ` A"

fun loop_inv :: "action set \<Rightarrow> race \<Rightarrow> loop_place \<Rightarrow> bool" where
  "loop_inv A s (Ranging a h i) = (a \<in> A \<and> holds A s h)"
| "loop_inv A s (Swapping a i) = (a \<in> A)"
| "loop_inv A s (Overwriting a) = (a \<in> A)"
| "loop_inv A s (Appending a) = (a \<in> A)"
| "loop_inv A s _ = True"

fun reading_inv :: "action set \<Rightarrow> reading \<Rightarrow> bool" where
  "reading_inv A AtElement = True"
| "reading_inv A (AfterId p) = (p \<in> pa_PlayerID ` A)"
| "reading_inv A (AfterTurn p t) = (p \<in> pa_PlayerID ` A \<and> t \<in> pa_TurnNumber ` A)"

fun delayed_inv :: "action set \<Rightarrow> race \<Rightarrow> delayed \<Rightarrow> bool" where
  "delayed_inv A s (Marshalling h es r) = (holds A s h \<and> length es \<le> sl_len h \<and> list_all (mixed_of A) es \<and> reading_inv A r)"
| "delayed_inv A s _ = True"





lemma holds_others [simp]:
  "holds A (s\<lparr>rc_loop := l\<rparr>) h = holds A s h" "holds A (s\<lparr>rc_delayed := d\<rparr>) h = holds A s h"
  "holds A (s\<lparr>rc_ordered := r\<rparr>) h = holds A s h" "holds A (s\<lparr>rc_playerActions := v\<rparr>) h = holds A s h"
  by (simp_all add: holds_def)

lemma others_inv [simp]:
  "delayed_inv A (s\<lparr>rc_delayed := ds\<rparr>) d = delayed_inv A s d" "loop_inv A (s\<lparr>rc_delayed := ds\<rparr>) l = loop_inv A s l"
  by (cases d; simp) (cases l; simp)













section \<open>Properties\<close>




end
