(* ===== verification/Spec2Isabelle.thy ===== *)
theory Spec2Isabelle
  imports Server_Race Action_Race Client_Lib
begin

text \<open>
  A verification of netorcai, a server that runs games between remote programs.

  \<^bold>\<open>The program.\<close>  A server accepts TCP connections and reads a LOGIN message on each.  A client
  that is admitted is a player, a special player, a visualization or the game logic.  When the game
  starts, the game logic is asked for the initial state of the game, then once per turn for the next
  state, with the actions of the players since the last turn; every new state is sent to players
  and visualizations as a TURN, which they acknowledge, players with their actions.  Every
  connection has a goroutine that reads messages and one that handles them; the handlers
  communicate over Go channels and share the global state under a mutex.  An operator configures
  and starts the game on the command line or at a prompt.

  \<^bold>\<open>Theories and sources.\<close>
  \<^item> \<open>Prelude\<close>, \<open>Go_Text\<close>, \<open>Go_Num\<close>, \<open>Json\<close>, \<open>Json_Roundtrip\<close>: what the sources use of the language and its
    standard library: results and panics, slices, UTF-8, package strings and regexp, integers and
    binary64 numbers with package strconv, package encoding/json in both directions.
  \<^item> \<open>Readutil\<close>: src/readutil.go, the typed readers of fields and of command-line arguments.
  \<^item> \<open>Messages\<close>: src/messages.go and src/version.go, one record per message struct, one encoder per
    message that is sent and one reader per message that is received, with the texts of all errors.
  \<^item> \<open>Network\<close>: src/network.go, the record \<open>Client\<close>, \<open>readClientMessage(s)\<close>, \<open>sendMessage\<close>.
  \<^item> \<open>Control\<close>: src/control.go, the record \<open>GlobalState\<close>, \<open>handleClient\<close> (the login manager),
    \<open>autostart\<close>, \<open>Kick\<close>, \<open>sendLoginACK\<close>, \<open>Cleanup\<close>.
  \<^item> \<open>Player_Visu\<close>: src/control_pv.go, \<open>handlePlayerOrVisu\<close> with one definition per case of its
    \<open>select\<close>, \<open>KickLoggedPlayerOrVisu\<close>, \<open>waitPlayerOrVisuFinition\<close>.
  \<^item> \<open>Game_Logic\<close>: src/control_gl.go, \<open>handleGameLogic\<close> with the start of the game, both ways of
    driving it (\<open>gameLogicGameControlTimers\<close>, \<open>gameLogicGameControlFast\<close>) and its end;
    \<open>Game_Invariants\<close> and \<open>Game_Properties\<close> hold its invariants and properties.
  \<^item> \<open>Action_Race\<close>: the slice of actions that \<open>gameLogicGameControlTimers\<close> shares with its delayed goroutines
    without a lock, statement by statement, with the backing array.
  \<^item> \<open>System\<close>: the goroutines of the game logic and of all players and visualizations composed over
    channels with the capacities that src/control.go gives them, in both directions; \<open>System_Flow\<close>
    follows an action from a player to the game logic; \<open>System_Properties\<close> says what a full channel does.
  \<^item> \<open>Server\<close>: the whole server as one step relation (\<open>srv_step\<close>): connections arrive, log in, start the
    game automatically and run their goroutines, the operator types lines, all on one global state;
    \<open>Server_Properties\<close> and \<open>Server_Race\<close> hold its properties.
  \<^item> \<open>Prompt\<close>: src/prompt.go, the commands, the completion and the two prompts.
  \<^item> \<open>Client_Lib\<close>: src/client/go/client.go, the library that programs use to connect.
  \<^item> \<open>Main_Prog\<close>: src/cmd/netorcai/main.go and \<open>RunServer\<close>: the command line, the initial state, the
    accept loop, the final \<open>select\<close> and the wait group.

  \<^bold>\<open>State and operations.\<close>  A struct is a record with the fields of the source under a prefix.  A
  pointer to a client is a number (\<open>cid\<close>), the lists of the global state hold such numbers; the
  shared \<open>PlayerInformation\<close> structs live in a store, because the code aliases them between messages.
  A goroutine is a record of its local variables with the place where it waits, and a step function on
  the event it receives; a step is blocked, panics, or succeeds with the sends on channels it
  performs, in program order.  The region between lock and unlock of the mutex is inside one step.
  What the other goroutines may have changed in between is an argument of every step, so that the
  theorems about histories (\<open>pv_trace\<close>, \<open>gl_trace\<close>) hold for all interleavings; in \<open>Server\<close> the argument
  is the one shared state that the other goroutines have really left.  The one place where the code
  shares memory without a lock inside such a step, the slice of actions in a game with timers, has a
  finer model of its own in \<open>Action_Race\<close>; the theorems that would depend on it are stated for the fast
  mode or except the steps concerned.  Connections fail in
  all ways: the bytes received may end anywhere, with or without an error, and a connection may stop
  taking bytes after any number of them.  \<open>cl_outbox\<close> is a history variable: the messages for which
  \<open>sendMessage\<close> reported success.

  \<^bold>\<open>What is shown.\<close>
  \<^item> Transport: framing and reading are inverse, reading always ends with one error, a broken
    connection carries a beginning of what it was owed; what the client library sends the server
    reads back field by field, and the other way round.
  \<^item> Messages: exactly which LOGIN and TURN_ACK messages are accepted.
  \<^item> Login: who is admitted, with which effects, and that every other connection changes nothing; the
    lists stay disjoint and within their maxima; the automatic start
    happens once when logins come one after the other.
  \<^item> Players and visualizations: what the game logic goroutine delivers being in order, and whatever else
    happens, the messages of a client are a run of the protocol of docs/metaprotocol.rst, given as an abstract automaton (\<open>doc_run\<close>), with flow control and
    without a panic.
  \<^item> Game logic: it gives every client GAME_STARTS, the turns 0, 1, 2, \<dots> and GAME_ENDS in that order,
    and exits with code 0 exactly after a complete game; the optimised collection of actions is a map; the
    fast mode waits for everybody.  With timers, operations on the slice of actions that do not overlap
    collect at most one action per player; operations that overlap can mix two actions or panic.
  \<^item> Server: everything together, over bounded channels, still follows the protocol, without a panic
    of a goroutine that serves a client (but for the slice of actions in a game with timers); in fast mode
    an action that reaches the game logic was sent by the player whose number it has.
  \<^item> Prompt and command line: parameters stay in their bounds, what is set is what is printed and
    nothing else changes, exactly which command lines start the server and with which state, and when and
    how the program ends, the handlers of the clients and a panic of \<open>Cleanup\<close> included.
  \<^item> Defects of the code, stated as what it does: the late report of a lost message, a second
    start signal, an action lost between two statements of a timer, actions mixed up and a panic on the slice shared with
    a timer, a game that waits for ever for a
    client that has left, a player's answer that keeps the program from ending, an automatic start that three clients logging in at the same time turn into a
    deadlock,
    an exit that waits for its clients, a signal at the start that leaves the program waiting, a delay that is not a number.

  \<^bold>\<open>Interfaces as locales.\<close>  \<open>message_log\<close> (sending appends to the log of a client and keeps its
  identity; interpreted on \<open>sendMessage\<close>), \<open>client_registry\<close> (a list of the global state from which
  one client is removed; interpreted on the three lists and on the list of a client's role),
  \<open>action_collection\<close> (one action per player, the last one counts; interpreted on \<open>put_action\<close>),
  \<open>machine\<close> (invariants of the reached states; interpreted on the system of goroutines and on the whole
  server) and \<open>standstill\<close> (what can never move again; interpreted on a game whose client has left, on
  an answer that nobody receives and on a client that cannot send its start signal).

  \<^bold>\<open>Bounds and fuel.\<close>  The JSON parser takes as fuel twice the length of its input plus one, which is
  proved to be enough: more fuel never changes its answer.  The prompt without a terminal loops for
  ever and is given the number of its turns; the property says what any number of turns does.  Every
  other loop is structural recursion or ends by a measure.  An \<open>int\<close> is a mathematical
  integer, since every one of the program is a bounded count or comes from a conversion that stays in 64
  bits (\<open>Go_Num\<close>); the size of a frame, which can wrap around, is a 32-bit word.

  \<^bold>\<open>Not part of the program.\<close>  Arguments of the model stand for: the table that docopt returns,
  whether the output is a terminal, the lines that go-prompt passes on and its filter of suggestions, the
  answers of \<open>net.Listen\<close>, \<open>Accept\<close>, \<open>net.Dial\<close> and \<open>Close\<close>, the permutation of \<open>rand.Perm\<close> (assumed to
  be one), and the moment a timer fires, which is an event.

  \<^bold>\<open>Not modelled.\<close>  The text of log messages and the functions that only log around the mutex; the
  durations of sleeps; the text of the usage message; the channel on which \<open>Cleanup\<close> waits for the
  sends it has started (they are returned as its sends); the waits for the mutex, so that a goroutine
  which waits for a channel while it holds the mutex does not stop the others here (but \<open>Main_Prog\<close> has the
  mutex that a panicking \<open>Cleanup\<close> keeps); what the memory model of Go allows inside one statement of two
  goroutines that race on the slice of actions.  Numbers are printed and parsed by
  the model of encoding/json, but its round trip is proved for values without numbers only: that the
  shortest decimal of a binary64 is read back as the same number is not shown.
\<close>

section \<open>From the command line to a full house\<close>

definition maxima :: "GlobalState \<Rightarrow> int \<times> int \<times> int" where
  "maxima gs = (gs_NbPlayersMax gs, gs_NbSpecialPlayersMax gs, gs_NbVisusMax gs)"

lemma handleClient_frame:
  assumes "handleClient c client gs msg = (client', gs', next, ops)"
  shows "maxima gs' = maxima gs \<and> set (roster gs') \<subseteq> insert c (set (roster gs))"
  using assms
proof (cases rule: handleClient_cases)
  case (accepted m)
  have "set (roster (seat c (login_role m) gs)) = insert c (set (roster gs))"
    using arg_cong [OF seat_roster [OF accepted(2), of c gs], of set_mset] by simp
  with accepted(4) show ?thesis by (auto simp: maxima_def autostart_def seat_def roster_def)
qed auto

lemma logins_frame:
  "maxima (fst (logins as gs)) = maxima gs
   \<and> set (roster (fst (logins as gs))) \<subseteq> set (map fst as) \<union> set (roster gs)"
proof (induction as arbitrary: gs)
  case (Cons a as)
  obtain cl' gs' nx ops where h: "handleClient (fst a) (fst (snd a)) gs (snd (snd a)) = (cl', gs', nx, ops)"
    by (cases "handleClient (fst a) (fst (snd a)) gs (snd (snd a))") auto
  with handleClient_frame [OF h] Cons.IH [of gs'] show ?case by (auto split: prod.split)
qed simp

lemma RunServer_frame:
  "RunServer Listen port as gs = (gs', srv) \<Longrightarrow> maxima gs' = maxima gs \<and> roster gs' = roster gs
     \<and> gs_GameLogic gs' = gs_GameLogic gs"
  by (auto simp: RunServer_def Let_def maxima_def roster_def split: option.splits)

text \<open>
  C12. From the command line to the lists of clients: whatever options are given, whatever
  connections the server accepts and in whatever order their first messages are handled, every
  client in a list is one that was accepted, no client is in two lists or twice in one, there is at
  most one game logic, and no list exceeds the maximum given on the command line or 1024.
\<close>

theorem server_session_safe:
  assumes "initializeGlobalState args = Returns (Inr gs0)" "RunServer Listen port as gs0 = (gs1, srv)"
    and "distinct (map fst xs)" "\<forall>x \<in> set xs. (fst x, fst (snd x)) \<in> set (srv_handlers srv)"
  shows "set (roster (fst (logins xs gs1))) \<subseteq> fst ` set (srv_handlers srv)
    \<and> distinct (roster (fst (logins xs gs1))) \<and> length (gs_GameLogic (fst (logins xs gs1))) \<le> 1
    \<and> int (length (gs_Players (fst (logins xs gs1)))) \<le> gs_NbPlayersMax gs0 \<and> gs_NbPlayersMax gs0 \<le> 1024
    \<and> int (length (gs_SpecialPlayers (fst (logins xs gs1)))) \<le> gs_NbSpecialPlayersMax gs0 \<and> gs_NbSpecialPlayersMax gs0 \<le> 1024
    \<and> int (length (gs_Visus (fst (logins xs gs1)))) \<le> gs_NbVisusMax gs0 \<and> gs_NbVisusMax gs0 \<le> 1024"
proof -
  note i = initializeGlobalState_ok [OF assms(1)] and r = RunServer_frame [OF assms(2)]
  have b: "0 \<le> gs_NbPlayersMax gs0 \<and> gs_NbPlayersMax gs0 \<le> 1024"
    "0 \<le> gs_NbSpecialPlayersMax gs0 \<and> gs_NbSpecialPlayersMax gs0 \<le> 1024"
    "0 \<le> gs_NbVisusMax gs0 \<and> gs_NbVisusMax gs0 \<le> 1024"
    using i unfolding ReadIntInString_Inr by blast+
  have e: "roster gs1 = []" using i r by (simp add: fresh_state_def)
  then have l: "gs_Players gs1 = []" "gs_SpecialPlayers gs1 = []" "gs_Visus gs1 = []" "gs_GameLogic gs1 = []"
    by (simp_all add: roster_def)
  have m1: "maxima gs1 = maxima gs0" using r by simp
  have "roster_ok gs1" "within_capacity gs1"
    using e l b m1 by (simp_all add: roster_ok_def within_capacity_def maxima_def)
  from logins_keeps [OF this assms(3)] e
  have k: "roster_ok (fst (logins xs gs1))" "within_capacity (fst (logins xs gs1))" by simp_all
  have f: "maxima (fst (logins xs gs1)) = maxima gs0" "set (roster (fst (logins xs gs1))) \<subseteq> set (map fst xs)"
    using logins_frame [of xs gs1] m1 e by simp_all
  have "set (map fst xs) \<subseteq> fst ` set (srv_handlers srv)" using assms(4) by force
  with f(2) have "set (roster (fst (logins xs gs1))) \<subseteq> fst ` set (srv_handlers srv)" by blast
  with k b f(1) show ?thesis unfolding roster_ok_def within_capacity_def maxima_def by simp
qed

theorem server_session_safe_witness:
  "\<exists>gs0 gs1 srv. initializeGlobalState (cli_arguments 4 0 1 100 1000 1000 False False) = Returns (Inr gs0)
    \<and> RunServer (\<lambda>_. None) 4242 [Accepted ''127.0.0.1:50000'' None, Accepted ''127.0.0.1:50001'' None] gs0 = (gs1, srv)
    \<and> set (roster (fst (logins (map (\<lambda>(c, cl). (c, cl, login_message ''bob'' ''player'')) (srv_handlers srv)) gs1))) \<subseteq> {0, 1}"
proof -
  let ?as = "[Accepted ''127.0.0.1:50000'' None, Accepted ''127.0.0.1:50001'' None]"
  obtain gs0 where g: "initializeGlobalState (cli_arguments 4 0 1 100 1000 1000 False False) = Returns (Inr gs0)"
    using documented_accepted [of 4 0 1 100 1000 1000 False False] by auto
  obtain gs1 srv where r: "RunServer (\<lambda>_. None) 4242 ?as gs0 = (gs1, srv)" by fastforce
  then have h: "srv_handlers srv = [(0, new_client ''127.0.0.1:50000'' None), (1, new_client ''127.0.0.1:50001'' None)]"
    by (auto simp: RunServer_def Let_def accept_step_def)
  let ?xs = "map (\<lambda>(c, cl). (c, cl, login_message ''bob'' ''player'')) (srv_handlers srv)"
  have "set (roster (fst (logins ?xs gs1))) \<subseteq> fst ` set (srv_handlers srv)"
    using server_session_safe [OF g r, of ?xs] by (auto simp: h)
  moreover have "fst ` set (srv_handlers srv) = {0, 1}" by (simp add: h)
  ultimately have "set (roster (fst (logins ?xs gs1))) \<subseteq> {0, 1}" by (simp only:)
  with g r show ?thesis by (intro exI conjI)
qed

end
